theory Spec2Isabelle
  imports Main
begin

section \<open>Parameters of the algorithm\<close>

definition INSTR_QUEUE_SIZE :: nat where "INSTR_QUEUE_SIZE = 10"
definition RESERV_INT_SIZE :: nat where "RESERV_INT_SIZE = 4"
definition RESERV_FP_SIZE :: nat where "RESERV_FP_SIZE = 2"
definition FU_INT_SIZE :: nat where "FU_INT_SIZE = 2"
definition FU_FP_SIZE :: nat where "FU_FP_SIZE = 1"
definition FU_INT_LATENCY :: int where "FU_INT_LATENCY = 4"
definition FU_FP_LATENCY :: int where "FU_FP_LATENCY = 9"

section \<open>Identifying instructions\<close>

text \<open>
  Modelled from the spec: the operation classification. The header that defines
  \<^verbatim>\<open>MD_OP_FLAGS\<close> and the \<^verbatim>\<open>F_...\<close> bits is not part of the file; an opcode is
  represented by the set of flags that \<^verbatim>\<open>MD_OP_FLAGS(op)\<close> has set, and
  \<^verbatim>\<open>MD_OP_FLAGS(op) & F_X\<close> is membership of \<open>F_X\<close>.
\<close>

datatype md_flag = F_ICOMP | F_FCOMP | F_LOAD | F_STORE | F_CALL | F_UNCOND | F_COND | F_TRAP

type_synonym md_opcode = "md_flag set"

definition IS_UNCOND_CTRL :: "md_opcode \<Rightarrow> bool" where
  "IS_UNCOND_CTRL opc = (F_CALL \<in> opc \<or> F_UNCOND \<in> opc)"
definition IS_COND_CTRL :: "md_opcode \<Rightarrow> bool" where
  "IS_COND_CTRL opc = (F_COND \<in> opc)"
definition IS_FCOMP :: "md_opcode \<Rightarrow> bool" where
  "IS_FCOMP opc = (F_FCOMP \<in> opc)"
definition IS_ICOMP :: "md_opcode \<Rightarrow> bool" where
  "IS_ICOMP opc = (F_ICOMP \<in> opc)"
definition IS_LOAD :: "md_opcode \<Rightarrow> bool" where
  "IS_LOAD opc = (F_LOAD \<in> opc)"
definition IS_STORE :: "md_opcode \<Rightarrow> bool" where
  "IS_STORE opc = (F_STORE \<in> opc)"
definition IS_TRAP :: "md_opcode \<Rightarrow> bool" where
  "IS_TRAP opc = (F_TRAP \<in> opc)"
definition USES_INT_FU :: "md_opcode \<Rightarrow> bool" where
  "USES_INT_FU opc = (IS_ICOMP opc \<or> IS_LOAD opc \<or> IS_STORE opc)"
definition USES_FP_FU :: "md_opcode \<Rightarrow> bool" where
  "USES_FP_FU opc = IS_FCOMP opc"
definition WRITES_CDB :: "md_opcode \<Rightarrow> bool" where
  "WRITES_CDB opc = (IS_ICOMP opc \<or> IS_LOAD opc \<or> IS_FCOMP opc)"

section \<open>Data model\<close>

text \<open>
  An \<^verbatim>\<open>instruction_t*\<close> is the position of the record in the trace; \<^verbatim>\<open>NULL\<close> is
  \<open>None\<close>. The fixed-size arrays of the file are functions on their positions, read
  and written only below the declared size.
\<close>

type_synonym instr_ptr = int

record instruction_t =
  op :: md_opcode
  r_out :: "nat \<Rightarrow> int"
  r_in :: "nat \<Rightarrow> int"
  index :: int
  Q :: "nat \<Rightarrow> instr_ptr option"
  tom_dispatch_cycle :: int
  tom_issue_cycle :: int
  tom_execute_cycle :: int
  tom_cdb_cycle :: int

text \<open>
  The constants of the absent headers that the file uses are parameters: the don't-care
  register \<^verbatim>\<open>DNA\<close>, the size \<^verbatim>\<open>MD_TOTAL_REGS\<close> of the map table and the global
  \<^verbatim>\<open>sim_num_insn\<close>.
\<close>

record machine =
  DNA :: int
  MD_TOTAL_REGS :: int
  sim_num_insn :: int

text \<open>The static variables of the file, and the records the pointers refer to.\<close>

record state =
  doneCount :: int
  instr_queue :: "nat \<Rightarrow> instr_ptr option"
  instr_queue_size :: int
  ifq_head :: nat
  ifq_tail :: nat
  reservINT :: "nat \<Rightarrow> instr_ptr option"
  reservFP :: "nat \<Rightarrow> instr_ptr option"
  fuINT :: "nat \<Rightarrow> instr_ptr option"
  fuFP :: "nat \<Rightarrow> instr_ptr option"
  commonDataBus :: "instr_ptr option"
  map_table :: "int \<Rightarrow> instr_ptr option"
  fetch_index :: int
  instrs :: "instr_ptr \<Rightarrow> instruction_t"

datatype error = AssertFalse | BeyondTrace | RegOutOfRange | NullDeref

definition bind_err :: "error + 'a \<Rightarrow> ('a \<Rightarrow> error + 'b) \<Rightarrow> error + 'b" where
  "bind_err r f = (case r of Inl e \<Rightarrow> Inl e | Inr x \<Rightarrow> f x)"

fun fold_err :: "('i \<Rightarrow> 's \<Rightarrow> error + 's) \<Rightarrow> 'i list \<Rightarrow> 's \<Rightarrow> error + 's" where
  "fold_err f [] s = Inr s"
| "fold_err f (i # is) s = (case f i s of Inl e \<Rightarrow> Inl e | Inr s' \<Rightarrow> fold_err f is s')"

text \<open>An index into \<^verbatim>\<open>map_table[MD_TOTAL_REGS]\<close> outside the array is an error.\<close>

definition reg_ok :: "machine \<Rightarrow> int \<Rightarrow> bool" where
  "reg_ok m r = (0 \<le> r \<and> r < MD_TOTAL_REGS m)"

text \<open>
  Modelled from the spec: \<^verbatim>\<open>get_instr(trace, index)\<close>, whose code is not in the file.
  It yields the record at \<open>index\<close>; an index beyond the total instruction count must not
  be requested, which the model reports as \<open>BeyondTrace\<close>.
\<close>

definition get_instr :: "machine \<Rightarrow> int \<Rightarrow> error + instr_ptr" where
  "get_instr m i = (if 0 \<le> i \<and> i \<le> sim_num_insn m then Inr i else Inl BeyondTrace)"

section \<open>The stage transitions\<close>

definition is_simulation_done :: "machine \<Rightarrow> state \<Rightarrow> bool" where
  "is_simulation_done m s = (doneCount s = sim_num_insn m)"

subsection \<open>\<^verbatim>\<open>CDB_To_retire\<close>\<close>

definition retire_map :: "machine \<Rightarrow> instr_ptr \<Rightarrow> nat \<Rightarrow> state \<Rightarrow> error + state" where
  "retire_map m b i s =
     (let r = r_out (instrs s b) i in
      if \<not> reg_ok m r then Inl RegOutOfRange
      else if map_table s r = Some b then Inr (s\<lparr>map_table := (map_table s)(r := None)\<rparr>)
      else Inr s)"

definition retire_Q :: "instr_ptr \<Rightarrow> instr_ptr option \<Rightarrow> nat \<Rightarrow> state \<Rightarrow> state" where
  "retire_Q b slot j s =
     (case slot of
        None \<Rightarrow> s
      | Some p \<Rightarrow>
          if Q (instrs s p) j \<noteq> None \<and> Q (instrs s p) j = Some b
          then s\<lparr>instrs := (instrs s)(p := (instrs s p)\<lparr>Q := (Q (instrs s p))(j := None)\<rparr>)\<rparr>
          else s)"

definition CDB_To_retire :: "machine \<Rightarrow> int \<Rightarrow> state \<Rightarrow> error + state" where
  "CDB_To_retire m current_cycle s =
     (case commonDataBus s of
        None \<Rightarrow> Inr s
      | Some b \<Rightarrow>
          (case fold_err (retire_map m b) [0..<2] s of
             Inl e \<Rightarrow> Inl e
           | Inr s1 \<Rightarrow>
               let s2 = fold (\<lambda>i. fold (\<lambda>j t. retire_Q b (reservINT t i) j t) [0..<3])
                          [0..<RESERV_INT_SIZE] s1;
                   s3 = fold (\<lambda>i. fold (\<lambda>j t. retire_Q b (reservFP t i) j t) [0..<3])
                          [0..<RESERV_FP_SIZE] s2
               in Inr (s3\<lparr>commonDataBus := None, doneCount := doneCount s3 + 1\<rparr>)))"

subsection \<open>\<^verbatim>\<open>free_stations\<close>\<close>

text \<open>A loop that stops at the first matching slot is \<open>find\<close> over the positions.\<close>

definition free_stations :: "instr_ptr \<Rightarrow> state \<Rightarrow> error + state" where
  "free_stations instr s =
     (if USES_INT_FU (op (instrs s instr)) then
        let s1 = (case find (\<lambda>i. fuINT s i = Some instr) [0..<FU_INT_SIZE] of
                    None \<Rightarrow> s
                  | Some i \<Rightarrow> s\<lparr>fuINT := (fuINT s)(i := None)\<rparr>);
            s2 = (case find (\<lambda>i. reservINT s1 i = Some instr) [0..<RESERV_INT_SIZE] of
                    None \<Rightarrow> s1
                  | Some i \<Rightarrow> s1\<lparr>reservINT := (reservINT s1)(i := None)\<rparr>)
        in Inr s2
      else if USES_FP_FU (op (instrs s instr)) then
        let s1 = (case find (\<lambda>i. fuFP s i = Some instr) [0..<FU_FP_SIZE] of
                    None \<Rightarrow> s
                  | Some i \<Rightarrow> s\<lparr>fuFP := (fuFP s)(i := None)\<rparr>);
            s2 = (case find (\<lambda>i. reservFP s1 i = Some instr) [0..<RESERV_FP_SIZE] of
                    None \<Rightarrow> s1
                  | Some i \<Rightarrow> s1\<lparr>reservFP := (reservFP s1)(i := None)\<rparr>)
        in Inr s2
      else Inl AssertFalse)"

subsection \<open>\<^verbatim>\<open>execute_To_CDB\<close>\<close>

text \<open>
  The locals \<^verbatim>\<open>oldest\<close> and \<^verbatim>\<open>oldest_instr\<close> are threaded through the loop together
  with the state.
\<close>

type_synonym arb = "int \<times> instr_ptr option \<times> state"

definition arb_int :: "int \<Rightarrow> nat \<Rightarrow> arb \<Rightarrow> error + arb" where
  "arb_int current_cycle i a =
     (case a of (oldest, oldest_instr, s) \<Rightarrow>
        (case fuINT s i of
           None \<Rightarrow> Inr a
         | Some p \<Rightarrow>
             if current_cycle \<ge> tom_execute_cycle (instrs s p) + FU_INT_LATENCY then
               if IS_STORE (op (instrs s p)) then
                 (case free_stations p s of
                    Inl e \<Rightarrow> Inl e
                  | Inr s' \<Rightarrow> Inr (oldest, oldest_instr, s'\<lparr>doneCount := doneCount s' + 1\<rparr>))
               else if oldest = -1 \<or> index (instrs s p) < oldest
                 then Inr (index (instrs s p), Some p, s)
               else Inr a
             else Inr a))"

definition arb_fp :: "int \<Rightarrow> arb \<Rightarrow> arb" where
  "arb_fp current_cycle a =
     (case a of (oldest, oldest_instr, s) \<Rightarrow>
        (case fuFP s 0 of
           None \<Rightarrow> a
         | Some p \<Rightarrow>
             if current_cycle \<ge> tom_execute_cycle (instrs s p) + FU_FP_LATENCY then
               if oldest = -1 \<or> index (instrs s p) < oldest
               then (index (instrs s p), Some p, s)
               else a
             else a))"

definition execute_To_CDB :: "int \<Rightarrow> state \<Rightarrow> error + state" where
  "execute_To_CDB current_cycle s =
     (case fold_err (arb_int current_cycle) [0..<FU_INT_SIZE] (-1, None, s) of
        Inl e \<Rightarrow> Inl e
      | Inr a \<Rightarrow>
          (case arb_fp current_cycle a of (oldest, oldest_instr, s1) \<Rightarrow>
             (case oldest_instr of
                None \<Rightarrow> Inr s1
              | Some w \<Rightarrow>
                  (case free_stations w
                          (s1\<lparr>instrs := (instrs s1)
                                 (w := (instrs s1 w)\<lparr>tom_cdb_cycle := current_cycle\<rparr>)\<rparr>) of
                     Inl e \<Rightarrow> Inl e
                   | Inr s2 \<Rightarrow> Inr (s2\<lparr>commonDataBus := Some w\<rparr>)))))"

subsection \<open>\<^verbatim>\<open>issue_To_execute\<close>\<close>

definition ready :: "state \<Rightarrow> instr_ptr option \<Rightarrow> bool" where
  "ready s slot =
     (case slot of
        None \<Rightarrow> False
      | Some p \<Rightarrow> tom_execute_cycle (instrs s p) = 0 \<and> Q (instrs s p) 0 = None
                  \<and> Q (instrs s p) 1 = None \<and> Q (instrs s p) 2 = None)"

text \<open>
  The pair of locals \<^verbatim>\<open>found\<close> and \<^verbatim>\<open>oldest_rs_int\<close> is an optional position:
  \<open>None\<close> while \<^verbatim>\<open>found\<close> is false, when the position is never read.
\<close>

definition scan_int :: "state \<Rightarrow> nat \<Rightarrow> nat option \<Rightarrow> nat option" where
  "scan_int s j oldest_rs_int =
     (if ready s (reservINT s j) then
        (case oldest_rs_int of
           None \<Rightarrow> Some j
         | Some k \<Rightarrow>
             if index (instrs s (the (reservINT s j))) < index (instrs s (the (reservINT s k)))
             then Some j else Some k)
      else oldest_rs_int)"

definition scan_fp :: "state \<Rightarrow> nat \<Rightarrow> nat option \<Rightarrow> nat option" where
  "scan_fp s j oldest_rs_fp =
     (if ready s (reservFP s j) then
        (case oldest_rs_fp of
           None \<Rightarrow> Some j
         | Some k \<Rightarrow>
             if tom_dispatch_cycle (instrs s (the (reservFP s j)))
                  \<le> tom_dispatch_cycle (instrs s (the (reservFP s k)))
             then Some j else Some k)
      else oldest_rs_fp)"

definition issue_int :: "int \<Rightarrow> nat \<Rightarrow> state \<Rightarrow> state" where
  "issue_int current_cycle i s =
     (if fuINT s i = None then
        (case fold (scan_int s) [0..<RESERV_INT_SIZE] None of
           None \<Rightarrow> s
         | Some k \<Rightarrow>
             (case reservINT s k of
                None \<Rightarrow> s
              | Some p \<Rightarrow>
                  s\<lparr>instrs := (instrs s)(p := (instrs s p)\<lparr>tom_execute_cycle := current_cycle\<rparr>),
                    fuINT := (fuINT s)(i := Some p)\<rparr>))
      else s)"

definition issue_fp :: "int \<Rightarrow> nat \<Rightarrow> state \<Rightarrow> state" where
  "issue_fp current_cycle i s =
     (if fuFP s i = None then
        (case fold (scan_fp s) [0..<RESERV_FP_SIZE] None of
           None \<Rightarrow> s
         | Some k \<Rightarrow>
             (case reservFP s k of
                None \<Rightarrow> s
              | Some p \<Rightarrow>
                  s\<lparr>instrs := (instrs s)(p := (instrs s p)\<lparr>tom_execute_cycle := current_cycle\<rparr>),
                    fuFP := (fuFP s)(i := Some p)\<rparr>))
      else s)"

definition issue_To_execute :: "int \<Rightarrow> state \<Rightarrow> state" where
  "issue_To_execute current_cycle s =
     fold (issue_fp current_cycle) [0..<FU_FP_SIZE]
       (fold (issue_int current_cycle) [0..<FU_INT_SIZE] s)"

subsection \<open>\<^verbatim>\<open>map_operands\<close>\<close>

definition map_in :: "machine \<Rightarrow> instr_ptr \<Rightarrow> nat \<Rightarrow> state \<Rightarrow> error + state" where
  "map_in m instr i s =
     (let r = r_in (instrs s instr) i in
      if r \<noteq> DNA m then
        if reg_ok m r
        then Inr (s\<lparr>instrs := (instrs s)
                      (instr := (instrs s instr)\<lparr>Q := (Q (instrs s instr))(i := map_table s r)\<rparr>)\<rparr>)
        else Inl RegOutOfRange
      else Inr s)"

definition map_out :: "machine \<Rightarrow> instr_ptr \<Rightarrow> nat \<Rightarrow> state \<Rightarrow> error + state" where
  "map_out m instr i s =
     (let r = r_out (instrs s instr) i in
      if r \<noteq> DNA m then
        if reg_ok m r
        then Inr (s\<lparr>map_table := (map_table s)(r := Some instr)\<rparr>)
        else Inl RegOutOfRange
      else Inr s)"

definition map_operands :: "machine \<Rightarrow> instr_ptr \<Rightarrow> state \<Rightarrow> error + state" where
  "map_operands m instr s =
     bind_err (fold_err (map_in m instr) [0..<3] s) (fold_err (map_out m instr) [0..<2])"

subsection \<open>\<^verbatim>\<open>dispatch_To_issue\<close>\<close>

definition pop_head :: "state \<Rightarrow> state" where
  "pop_head s = s\<lparr>ifq_head := (ifq_head s + 1) mod INSTR_QUEUE_SIZE,
                  instr_queue_size := instr_queue_size s - 1\<rparr>"

definition set_issue_cycle :: "instr_ptr \<Rightarrow> int \<Rightarrow> state \<Rightarrow> state" where
  "set_issue_cycle p c s = s\<lparr>instrs := (instrs s)(p := (instrs s p)\<lparr>tom_issue_cycle := c\<rparr>)\<rparr>"

definition dispatch_To_issue :: "machine \<Rightarrow> int \<Rightarrow> state \<Rightarrow> error + state" where
  "dispatch_To_issue m current_cycle s =
     (if instr_queue_size s > 0 then
        (case instr_queue s (ifq_head s) of
           None \<Rightarrow> Inl NullDeref
         | Some head_instr \<Rightarrow>
             let opc = op (instrs s head_instr) in
             if IS_UNCOND_CTRL opc \<or> IS_COND_CTRL opc then
               Inr ((pop_head s)\<lparr>doneCount := doneCount s + 1\<rparr>)
             else if USES_FP_FU opc then
               (case find (\<lambda>i. reservFP s i = None) [0..<RESERV_FP_SIZE] of
                  None \<Rightarrow> Inr s
                | Some i \<Rightarrow>
                    map_operands m head_instr
                      (pop_head (set_issue_cycle head_instr current_cycle
                         (s\<lparr>reservFP := (reservFP s)(i := Some head_instr)\<rparr>))))
             else if USES_INT_FU opc then
               (case find (\<lambda>i. reservINT s i = None) [0..<RESERV_INT_SIZE] of
                  None \<Rightarrow> Inr s
                | Some i \<Rightarrow>
                    map_operands m head_instr
                      (pop_head (set_issue_cycle head_instr current_cycle
                         (s\<lparr>reservINT := (reservINT s)(i := Some head_instr)\<rparr>))))
             else Inl AssertFalse)
      else Inr s)"

subsection \<open>\<^verbatim>\<open>fetch\<close> and \<^verbatim>\<open>fetch_To_dispatch\<close>\<close>

text \<open>
  The do-while loop of \<^verbatim>\<open>fetch\<close>: it returns the state with the counters advanced and
  the first instruction that is not a trap. With \<open>get_instr\<close> as modelled the loop ends,
  at the latest with \<open>BeyondTrace\<close>.
\<close>

function fetch_loop :: "machine \<Rightarrow> state \<Rightarrow> error + (state \<times> instr_ptr)" where
  "fetch_loop m s =
     (let s1 = s\<lparr>fetch_index := fetch_index s + 1\<rparr> in
      case get_instr m (fetch_index s1) of
        Inl e \<Rightarrow> Inl e
      | Inr new_instr \<Rightarrow>
          if IS_TRAP (op (instrs s1 new_instr))
          then fetch_loop m (s1\<lparr>doneCount := doneCount s1 + 1\<rparr>)
          else Inr (s1, new_instr))"
  by pat_completeness auto
termination
  by (relation "measure (\<lambda>(m, s). nat (sim_num_insn m - fetch_index s))")
     (auto simp: get_instr_def split: if_splits)

declare fetch_loop.simps [simp del]

definition fetch :: "machine \<Rightarrow> state \<Rightarrow> error + state" where
  "fetch m s =
     (case fetch_loop m s of
        Inl e \<Rightarrow> Inl e
      | Inr (s1, new_instr) \<Rightarrow>
          Inr (s1\<lparr>instr_queue := (instr_queue s1)(ifq_tail s1 := Some new_instr)\<rparr>))"

definition fetch_To_dispatch :: "machine \<Rightarrow> int \<Rightarrow> state \<Rightarrow> error + state" where
  "fetch_To_dispatch m current_cycle s =
     (if instr_queue_size s < int INSTR_QUEUE_SIZE \<and> fetch_index s < sim_num_insn m then
        (case fetch m s of
           Inl e \<Rightarrow> Inl e
         | Inr s1 \<Rightarrow>
             (case instr_queue s1 (ifq_tail s1) of
                None \<Rightarrow> Inl NullDeref
              | Some p \<Rightarrow>
                  Inr (s1\<lparr>instrs := (instrs s1)
                              (p := (instrs s1 p)\<lparr>tom_dispatch_cycle := current_cycle\<rparr>),
                          ifq_tail := (ifq_tail s1 + 1) mod INSTR_QUEUE_SIZE,
                          instr_queue_size := instr_queue_size s1 + 1\<rparr>)))
      else Inr s)"

section \<open>The driver\<close>

text \<open>
  The state at the first cycle: the static initialisers, and the arrays as
  \<^verbatim>\<open>runTomasulo\<close> clears them. The argument is the table of the trace.
\<close>

definition init_state :: "(instr_ptr \<Rightarrow> instruction_t) \<Rightarrow> state" where
  "init_state tr =
     \<lparr>doneCount = 0, instr_queue = (\<lambda>_. None), instr_queue_size = 0, ifq_head = 0,
      ifq_tail = 0, reservINT = (\<lambda>_. None), reservFP = (\<lambda>_. None), fuINT = (\<lambda>_. None),
      fuFP = (\<lambda>_. None), commonDataBus = None, map_table = (\<lambda>_. None), fetch_index = 0,
      instrs = tr\<rparr>"

text \<open>One pass of the loop body before \<^verbatim>\<open>cycle++\<close>: the five stages, back to front.\<close>

definition cycle_step :: "machine \<Rightarrow> int \<Rightarrow> state \<Rightarrow> error + state" where
  "cycle_step m cycle s =
     bind_err (CDB_To_retire m cycle s) (\<lambda>s1.
     bind_err (execute_To_CDB cycle s1) (\<lambda>s2.
     bind_err (dispatch_To_issue m cycle (issue_To_execute cycle s2)) (\<lambda>s4.
     fetch_To_dispatch m cycle s4)))"

text \<open>
  The loop \<^verbatim>\<open>while (true)\<close> need not end: \<open>None\<close> is a run that never returns,
  \<open>Some (Inl e)\<close> one that is aborted.
\<close>

partial_function (option) run_loop :: "machine \<Rightarrow> int \<Rightarrow> state \<Rightarrow> (error + int) option" where
  "run_loop m cycle s =
     (case cycle_step m cycle s of
        Inl e \<Rightarrow> Some (Inl e)
      | Inr s' \<Rightarrow>
          if is_simulation_done m s' then Some (Inr (cycle + 1))
          else run_loop m (cycle + 1) s')"

declare run_loop.simps [code]

definition runTomasulo :: "machine \<Rightarrow> (instr_ptr \<Rightarrow> instruction_t) \<Rightarrow> (error + int) option" where
  "runTomasulo m tr = run_loop m 1 (init_state tr)"

text \<open>
  The points of a run: \<open>run_stages m tr n\<close> is the state after the first \<open>n\<close> stage
  transitions, five to a cycle, the cycle counter starting at 1.
\<close>

definition stage :: "machine \<Rightarrow> nat \<Rightarrow> int \<Rightarrow> state \<Rightarrow> error + state" where
  "stage m k cycle s =
     (if k = 0 then CDB_To_retire m cycle s
      else if k = 1 then execute_To_CDB cycle s
      else if k = 2 then Inr (issue_To_execute cycle s)
      else if k = 3 then dispatch_To_issue m cycle s
      else fetch_To_dispatch m cycle s)"

fun run_stages :: "machine \<Rightarrow> (instr_ptr \<Rightarrow> instruction_t) \<Rightarrow> nat \<Rightarrow> error + state" where
  "run_stages m tr 0 = Inr (init_state tr)"
| "run_stages m tr (Suc n) =
     bind_err (run_stages m tr n) (stage m (n mod 5) (1 + int (n div 5)))"

text \<open>
  \<open>iter m c k s\<close> runs \<open>k\<close> passes of the loop body from state \<open>s\<close> with the cycle
  counter at \<open>c\<close>; \<open>cycles m tr k\<close> is the state after the first \<open>k\<close> cycles of a run and
  \<open>retired_after m tr k\<close> the value of \<^verbatim>\<open>doneCount\<close> then.
\<close>

fun iter :: "machine \<Rightarrow> int \<Rightarrow> nat \<Rightarrow> state \<Rightarrow> error + state" where
  "iter m cycle 0 s = Inr s"
| "iter m cycle (Suc k) s = bind_err (cycle_step m cycle s) (iter m (cycle + 1) k)"

definition cycles :: "machine \<Rightarrow> (instr_ptr \<Rightarrow> instruction_t) \<Rightarrow> nat \<Rightarrow> error + state" where
  "cycles m tr k = iter m 1 k (init_state tr)"

definition retired_after :: "machine \<Rightarrow> (instr_ptr \<Rightarrow> instruction_t) \<Rightarrow> nat \<Rightarrow> int option" where
  "retired_after m tr k = (case cycles m tr k of Inl e \<Rightarrow> None | Inr s \<Rightarrow> Some (doneCount s))"

section \<open>Predicates used in the statements\<close>

text \<open>Position \<open>k\<close> is the first of the \<open>n\<close> slots of \<open>f\<close> that holds \<open>p\<close>.\<close>

definition first_at :: "(nat \<Rightarrow> instr_ptr option) \<Rightarrow> nat \<Rightarrow> instr_ptr \<Rightarrow> nat \<Rightarrow> bool" where
  "first_at f n p k = (k < n \<and> f k = Some p \<and> (\<forall>j<k. f j \<noteq> Some p))"

text \<open>
  The contenders for the bus at cycle \<open>c\<close>: the occupant of a functional-unit slot whose
  latency has elapsed and which is not a store. An occupant has not broadcast yet, since
  the broadcast vacates the slot.
\<close>

definition eligible :: "int \<Rightarrow> state \<Rightarrow> instr_ptr \<Rightarrow> bool" where
  "eligible c s p =
     (\<not> IS_STORE (op (instrs s p)) \<and>
      ((\<exists>i<FU_INT_SIZE. fuINT s i = Some p
            \<and> c \<ge> tom_execute_cycle (instrs s p) + FU_INT_LATENCY) \<or>
       (\<exists>i<FU_FP_SIZE. fuFP s i = Some p
            \<and> c \<ge> tom_execute_cycle (instrs s p) + FU_FP_LATENCY)))"

text \<open>
  The locals \<^verbatim>\<open>oldest\<close> and \<^verbatim>\<open>oldest_instr\<close> after the contenders \<open>S\<close> have been
  seen: the sentinel and \<^verbatim>\<open>NULL\<close> when there are none, else a contender of least index.
\<close>

definition acc_ok :: "(instr_ptr \<Rightarrow> int) \<Rightarrow> instr_ptr set \<Rightarrow> int \<times> instr_ptr option \<Rightarrow> bool" where
  "acc_ok idx S a =
     (case a of (oldest, oi) \<Rightarrow>
        (\<forall>p\<in>S. 0 \<le> idx p) \<and>
        (case oi of None \<Rightarrow> oldest = -1 \<and> S = {}
         | Some w \<Rightarrow> oldest = idx w \<and> w \<in> S \<and> (\<forall>p\<in>S. idx w \<le> idx p)))"

text \<open>The instructions held in the first \<open>n\<close> slots of an array.\<close>

definition occ :: "nat \<Rightarrow> (nat \<Rightarrow> instr_ptr option) \<Rightarrow> instr_ptr set" where
  "occ n f = {p. \<exists>k<n. f k = Some p}"

text \<open>No instruction is held in two of the first \<open>n\<close> slots.\<close>

definition uniq :: "nat \<Rightarrow> (nat \<Rightarrow> instr_ptr option) \<Rightarrow> bool" where
  "uniq n f = (\<forall>j<n. \<forall>k<n. f j = f k \<and> f j \<noteq> None \<longrightarrow> j = k)"

text \<open>The array with every slot that holds an instruction of \<open>R\<close> emptied.\<close>

definition vacate :: "nat \<Rightarrow> instr_ptr set \<Rightarrow> (nat \<Rightarrow> instr_ptr option) \<Rightarrow> nat \<Rightarrow> instr_ptr option" where
  "vacate n R f k = (if k < n \<and> (\<exists>p\<in>R. f k = Some p) then None else f k)"

text \<open>The stations and units of \<open>s'\<close> are those of \<open>s\<close> with the instructions \<open>R\<close> freed.\<close>

definition released :: "instr_ptr set \<Rightarrow> state \<Rightarrow> state \<Rightarrow> bool" where
  "released R s s' =
     (fuINT s' = vacate FU_INT_SIZE R (fuINT s) \<and>
      reservINT s' = vacate RESERV_INT_SIZE R (reservINT s) \<and>
      fuFP s' = vacate FU_FP_SIZE R (fuFP s) \<and>
      reservFP s' = vacate RESERV_FP_SIZE R (reservFP s))"

text \<open>
  The stations and units are well formed: no instruction fills two slots of an array, the
  integer arrays hold instructions that use an integer unit, the floating-point arrays
  instructions that use a floating-point unit and no integer unit.
\<close>

definition slots_ok :: "state \<Rightarrow> bool" where
  "slots_ok s =
     (uniq FU_INT_SIZE (fuINT s) \<and> uniq RESERV_INT_SIZE (reservINT s) \<and>
      uniq FU_FP_SIZE (fuFP s) \<and> uniq RESERV_FP_SIZE (reservFP s) \<and>
      (\<forall>p \<in> occ FU_INT_SIZE (fuINT s) \<union> occ RESERV_INT_SIZE (reservINT s).
          USES_INT_FU (op (instrs s p))) \<and>
      (\<forall>p \<in> occ FU_FP_SIZE (fuFP s) \<union> occ RESERV_FP_SIZE (reservFP s).
          USES_FP_FU (op (instrs s p)) \<and> \<not> USES_INT_FU (op (instrs s p))))"

text \<open>A store whose integer latency has elapsed at cycle \<open>c\<close>.\<close>

definition cstore :: "int \<Rightarrow> state \<Rightarrow> instr_ptr \<Rightarrow> bool" where
  "cstore c s p = (IS_STORE (op (instrs s p))
      \<and> c \<ge> tom_execute_cycle (instrs s p) + FU_INT_LATENCY)"

text \<open>
  \<open>t\<close> differs from \<open>s\<close> at most in the map table and in await-slots of instructions.
\<close>

definition waits_only :: "state \<Rightarrow> state \<Rightarrow> bool" where
  "waits_only s t =
     (fuINT t = fuINT s \<and> reservINT t = reservINT s \<and> fuFP t = fuFP s \<and>
      reservFP t = reservFP s \<and> instr_queue t = instr_queue s \<and>
      instr_queue_size t = instr_queue_size s \<and> ifq_head t = ifq_head s \<and>
      ifq_tail t = ifq_tail s \<and> fetch_index t = fetch_index s \<and>
      commonDataBus t = commonDataBus s \<and> doneCount t = doneCount s \<and>
      (\<forall>p. \<exists>q. instrs t p = (instrs s p)\<lparr>Q := q\<rparr>))"

text \<open>
  Where an instruction is: \<open>queue_at s k\<close> is the \<open>k\<close>-th entry of the instruction queue
  counted from its head; the queue holds the first \<^verbatim>\<open>instr_queue_size\<close> of them.
\<close>

definition queue_at :: "state \<Rightarrow> nat \<Rightarrow> instr_ptr option" where
  "queue_at s k = instr_queue s ((ifq_head s + k) mod INSTR_QUEUE_SIZE)"

definition in_queue :: "state \<Rightarrow> instr_ptr \<Rightarrow> bool" where
  "in_queue s p = (\<exists>k. int k < instr_queue_size s \<and> queue_at s k = Some p)"

definition in_rs :: "state \<Rightarrow> instr_ptr \<Rightarrow> bool" where
  "in_rs s p = (p \<in> occ RESERV_INT_SIZE (reservINT s) \<union> occ RESERV_FP_SIZE (reservFP s))"

definition in_fu :: "state \<Rightarrow> instr_ptr \<Rightarrow> bool" where
  "in_fu s p = (p \<in> occ FU_INT_SIZE (fuINT s) \<union> occ FU_FP_SIZE (fuFP s))"

definition on_bus :: "state \<Rightarrow> instr_ptr \<Rightarrow> bool" where
  "on_bus s p = (commonDataBus s = Some p)"

text \<open>The circular buffer is consistent and holds distinct instructions.\<close>

definition queue_ok :: "state \<Rightarrow> bool" where
  "queue_ok s =
     (0 \<le> instr_queue_size s \<and> instr_queue_size s \<le> int INSTR_QUEUE_SIZE \<and>
      ifq_head s < INSTR_QUEUE_SIZE \<and>
      ifq_tail s = (ifq_head s + nat (instr_queue_size s)) mod INSTR_QUEUE_SIZE \<and>
      (\<forall>k. int k < instr_queue_size s \<longrightarrow> queue_at s k \<noteq> None) \<and>
      (\<forall>j k. int j < instr_queue_size s \<and> int k < instr_queue_size s
               \<and> queue_at s j = queue_at s k \<longrightarrow> j = k))"

text \<open>
  A well-formed trace: no instruction of the trace is classified both as using an integer
  unit and as using a floating-point unit.
\<close>

definition wf_ops :: "machine \<Rightarrow> (instr_ptr \<Rightarrow> instruction_t) \<Rightarrow> bool" where
  "wf_ops m tr =
     (\<forall>p. 1 \<le> p \<and> p \<le> sim_num_insn m \<longrightarrow>
          \<not> (USES_INT_FU (op (tr p)) \<and> USES_FP_FU (op (tr p))))"

text \<open>
  The invariant of a run: well-formed stations, units and queue; every instruction held
  anywhere has been fetched from inside the trace; a functional unit holds an instruction
  of the reservation station of its class, whose execution has started; the queue, the
  reservation stations and the bus hold different instructions.
\<close>

definition inv :: "machine \<Rightarrow> state \<Rightarrow> bool" where
  "inv m s =
     (slots_ok s \<and> queue_ok s \<and> 0 \<le> fetch_index s \<and> wf_ops m (instrs s) \<and>
      (\<forall>p. in_queue s p \<or> in_rs s p \<or> on_bus s p \<longrightarrow>
           1 \<le> p \<and> p \<le> fetch_index s \<and> p \<le> sim_num_insn m) \<and>
      occ FU_INT_SIZE (fuINT s) \<subseteq> occ RESERV_INT_SIZE (reservINT s) \<and>
      occ FU_FP_SIZE (fuFP s) \<subseteq> occ RESERV_FP_SIZE (reservFP s) \<and>
      (\<forall>p. in_fu s p \<longrightarrow> tom_execute_cycle (instrs s p) \<noteq> 0) \<and>
      (\<forall>p. \<not> (in_queue s p \<and> in_rs s p) \<and> \<not> (in_queue s p \<and> on_bus s p)
           \<and> \<not> (in_rs s p \<and> on_bus s p)))"

text \<open>
  What each stage adds to \<^verbatim>\<open>doneCount\<close>: \<^verbatim>\<open>CDB_To_retire\<close> the instruction on the bus,
  \<^verbatim>\<open>execute_To_CDB\<close> the stores in an integer unit whose latency has elapsed,
  \<^verbatim>\<open>dispatch_To_issue\<close> a control instruction at the head of the queue, and
  \<^verbatim>\<open>fetch_To_dispatch\<close> the traps among the instructions it has read, which are those
  after the old fetch index up to the new one.
\<close>

definition stores_done :: "int \<Rightarrow> state \<Rightarrow> int" where
  "stores_done c s =
     int (length (filter (\<lambda>i. case fuINT s i of None \<Rightarrow> False | Some p \<Rightarrow> cstore c s p)
                    [0..<FU_INT_SIZE]))"

definition ctrl_at_head :: "state \<Rightarrow> bool" where
  "ctrl_at_head s =
     (instr_queue_size s > 0 \<and>
      (case instr_queue s (ifq_head s) of
         None \<Rightarrow> False
       | Some p \<Rightarrow> IS_UNCOND_CTRL (op (instrs s p)) \<or> IS_COND_CTRL (op (instrs s p))))"

definition traps_fetched :: "state \<Rightarrow> state \<Rightarrow> int" where
  "traps_fetched s s' =
     int (length (filter (\<lambda>p. IS_TRAP (op (instrs s p))) [fetch_index s + 1..fetch_index s']))"

definition counted :: "nat \<Rightarrow> int \<Rightarrow> state \<Rightarrow> state \<Rightarrow> int" where
  "counted k c s s' =
     (if k = 0 then (if commonDataBus s = None then 0 else 1)
      else if k = 1 then stores_done c s
      else if k = 2 then 0
      else if k = 3 then (if ctrl_at_head s then 1 else 0)
      else traps_fetched s s')"

text \<open>
  The kinds of instruction each structure holds: no trap is queued, no trap or control
  instruction is in a reservation station, and the instruction on the bus is neither a
  trap, a control instruction nor a store.
\<close>

definition kinds_ok :: "state \<Rightarrow> bool" where
  "kinds_ok s =
     ((\<forall>p. in_queue s p \<longrightarrow> \<not> IS_TRAP (op (instrs s p))) \<and>
      (\<forall>p. in_rs s p \<longrightarrow> \<not> IS_TRAP (op (instrs s p)) \<and> \<not> IS_UNCOND_CTRL (op (instrs s p))
                         \<and> \<not> IS_COND_CTRL (op (instrs s p))) \<and>
      (\<forall>p. on_bus s p \<longrightarrow> \<not> IS_TRAP (op (instrs s p)) \<and> \<not> IS_UNCOND_CTRL (op (instrs s p))
                         \<and> \<not> IS_COND_CTRL (op (instrs s p)) \<and> \<not> IS_STORE (op (instrs s p))))"

text \<open>The instructions in flight: fetched into the queue and not yet counted.\<close>

definition in_flight :: "state \<Rightarrow> instr_ptr set" where
  "in_flight s = {p. in_queue s p \<or> in_rs s p \<or> on_bus s p}"

text \<open>
  \<open>p\<close> has been broadcast by stage \<open>n\<close> of the run: it is on the bus at one of the points
  \<open>0, \<dots>, n\<close>.
\<close>

definition broadcast_before :: "machine \<Rightarrow> (instr_ptr \<Rightarrow> instruction_t) \<Rightarrow> nat \<Rightarrow> instr_ptr \<Rightarrow> bool" where
  "broadcast_before m tr n p =
     (\<exists>j\<in>{..n}. case run_stages m tr j of Inl e \<Rightarrow> False | Inr t \<Rightarrow> commonDataBus t = Some p)"

text \<open>
  The candidates for execution in each class: an instruction in an occupied
  reservation-station slot with no execution-start cycle recorded and three empty
  await-slots.
\<close>

definition cand_int :: "state \<Rightarrow> instr_ptr \<Rightarrow> bool" where
  "cand_int s p = (\<exists>j<RESERV_INT_SIZE. reservINT s j = Some p \<and> ready s (Some p))"

definition cand_fp :: "state \<Rightarrow> instr_ptr \<Rightarrow> bool" where
  "cand_fp s p = (\<exists>j<RESERV_FP_SIZE. reservFP s j = Some p \<and> ready s (Some p))"

text \<open>
  \<open>q\<close> has been given to a unit before unit \<open>i\<close> in the pass that takes \<open>s\<close> to \<open>s'\<close>:
  a unit of lower position was free in \<open>s\<close> and holds \<open>q\<close> in \<open>s'\<close>.
\<close>

definition taken_int :: "state \<Rightarrow> state \<Rightarrow> nat \<Rightarrow> instr_ptr \<Rightarrow> bool" where
  "taken_int s s' i q = (\<exists>j<i. fuINT s j = None \<and> fuINT s' j = Some q)"

definition taken_fp :: "state \<Rightarrow> state \<Rightarrow> nat \<Rightarrow> instr_ptr \<Rightarrow> bool" where
  "taken_fp s s' i q = (\<exists>j<i. fuFP s j = None \<and> fuFP s' j = Some q)"

text \<open>
  What the pass from \<open>s\<close> to \<open>s'\<close> at cycle \<open>c\<close> does with integer unit \<open>i\<close>: a unit in
  use keeps its instruction; a free unit receives a candidate of \<open>s\<close> not yet taken whose
  program index is least among those, with its execution-start cycle set to \<open>c\<close>, and
  stays free only when no such candidate is left. For a floating-point unit the order is
  that of the dispatch cycle.
\<close>

definition int_choice :: "int \<Rightarrow> state \<Rightarrow> state \<Rightarrow> nat \<Rightarrow> bool" where
  "int_choice c s s' i =
     (case fuINT s i of
        Some p \<Rightarrow> fuINT s' i = Some p
      | None \<Rightarrow>
          (case fuINT s' i of
             None \<Rightarrow> (\<forall>q. cand_int s q \<longrightarrow> taken_int s s' i q)
           | Some w \<Rightarrow>
               cand_int s w \<and> \<not> taken_int s s' i w \<and>
               tom_execute_cycle (instrs s' w) = c \<and>
               (\<forall>q. cand_int s q \<and> \<not> taken_int s s' i q \<longrightarrow>
                    index (instrs s w) \<le> index (instrs s q))))"

definition fp_choice :: "int \<Rightarrow> state \<Rightarrow> state \<Rightarrow> nat \<Rightarrow> bool" where
  "fp_choice c s s' i =
     (case fuFP s i of
        Some p \<Rightarrow> fuFP s' i = Some p
      | None \<Rightarrow>
          (case fuFP s' i of
             None \<Rightarrow> (\<forall>q. cand_fp s q \<longrightarrow> taken_fp s s' i q)
           | Some w \<Rightarrow>
               cand_fp s w \<and> \<not> taken_fp s s' i w \<and>
               tom_execute_cycle (instrs s' w) = c \<and>
               (\<forall>q. cand_fp s q \<and> \<not> taken_fp s s' i q \<longrightarrow>
                    tom_dispatch_cycle (instrs s w) \<le> tom_dispatch_cycle (instrs s q))))"

section \<open>Example inputs\<close>

definition mk_instr :: "md_opcode \<Rightarrow> int \<Rightarrow> int \<times> int \<Rightarrow> int \<times> int \<times> int \<Rightarrow> instruction_t" where
  "mk_instr opc ix outs ins =
     \<lparr>op = opc,
      r_out = (\<lambda>k. if k = 0 then fst outs else snd outs),
      r_in = (\<lambda>k. if k = 0 then fst ins else if k = 1 then fst (snd ins) else snd (snd ins)),
      index = ix, Q = (\<lambda>_. None),
      tom_dispatch_cycle = 0, tom_issue_cycle = 0, tom_execute_cycle = 0, tom_cdb_cycle = 0\<rparr>"

definition ex_machine :: "int \<Rightarrow> machine" where
  "ex_machine n = \<lparr>DNA = 0, MD_TOTAL_REGS = 70, sim_num_insn = n\<rparr>"

text \<open>A trace of integer computations that read and write register 3.\<close>

definition ex_icomp :: "instr_ptr \<Rightarrow> instruction_t" where
  "ex_icomp i = mk_instr {F_ICOMP} i (3, 0) (3, 0, 0)"

definition ex_map_state :: state where
  "ex_map_state = (init_state ex_icomp)\<lparr>map_table := (\<lambda>_. None)(3 := Some 7)\<rparr>"


text \<open>A trace of conditional branches, and a trace of traps.\<close>

definition ex_cond :: "instr_ptr \<Rightarrow> instruction_t" where
  "ex_cond i = mk_instr {F_COND} i (0, 0) (3, 0, 0)"

definition ex_trap :: "instr_ptr \<Rightarrow> instruction_t" where
  "ex_trap i = mk_instr {F_TRAP} i (0, 0) (0, 0, 0)"

text \<open>
  A floating-point computation with program index \<open>a\<close>, four conditional branches and an
  integer computation with program index \<open>b\<close>: the first and the last complete in cycle 12.
\<close>

definition ex_tie :: "int \<Rightarrow> int \<Rightarrow> instr_ptr \<Rightarrow> instruction_t" where
  "ex_tie a b i = (if i = 1 then mk_instr {F_FCOMP} a (0, 0) (0, 0, 0)
                   else if i = 6 then mk_instr {F_ICOMP} b (0, 0) (0, 0, 0)
                   else mk_instr {F_COND} i (0, 0) (0, 0, 0))"

text \<open>An instruction classified both as integer and as floating-point computation.\<close>

definition ex_dual :: "instr_ptr \<Rightarrow> instruction_t" where
  "ex_dual i = mk_instr {F_ICOMP, F_FCOMP} i (0, 0) (0, 0, 0)"

text \<open>
  Four integer computations on different registers: the third and the fourth wait in the
  reservation station while the first two execute.
\<close>

definition ex_four :: "instr_ptr \<Rightarrow> instruction_t" where
  "ex_four i = mk_instr {F_ICOMP} i (i, 0) (0, 0, 0)"

text \<open>
  An integer computation that writes register 5, followed by floating-point computations
  that read it.
\<close>

definition ex_fcomp :: "instr_ptr \<Rightarrow> instruction_t" where
  "ex_fcomp i = (if i = 1 then mk_instr {F_ICOMP} i (5, 0) (0, 0, 0)
                 else mk_instr {F_FCOMP} i (0, 0) (5, 0, 0))"

section \<open>Properties\<close>

subsection \<open>Small facts about positions\<close>

lemma less_2_iff: "(i::nat) < 2 \<longleftrightarrow> i = 0 \<or> i = Suc 0" by arith
lemma less_3_iff: "(i::nat) < 3 \<longleftrightarrow> i = 0 \<or> i = Suc 0 \<or> i = 2" by arith
lemma less_4_iff: "(i::nat) < 4 \<longleftrightarrow> i = 0 \<or> i = Suc 0 \<or> i = 2 \<or> i = 3" by arith
lemma ex_less_2: "(\<exists>i<2::nat. P i) = (P 0 \<or> P (Suc 0))"
  by (auto simp: less_2_iff)
lemma all_less_2: "(\<forall>i<2::nat. P i) = (P 0 \<and> P (Suc 0))"
  by (auto simp: less_2_iff)
lemma all_less_3: "(\<forall>i<3::nat. P i) = (P 0 \<and> P (Suc 0) \<and> P 2)"
  by (auto simp: less_3_iff)
lemma all_less_4: "(\<forall>i<4::nat. P i) = (P 0 \<and> P (Suc 0) \<and> P 2 \<and> P 3)"
  by (auto simp: less_4_iff)
lemma ex_less_4: "(\<exists>i<4::nat. P i) = (P 0 \<or> P (Suc 0) \<or> P 2 \<or> P 3)"
  by (auto simp: less_4_iff)

lemma upt_2: "[0..<2] = [0, Suc 0]" by (simp add: upt_rec)
lemma upt_3: "[0..<3] = [0, Suc 0, 2]" by (simp add: upt_rec)

lemma find_upt_Some: "find P [0..<n] = Some i \<longleftrightarrow> i < n \<and> P i \<and> (\<forall>j<i. \<not> P j)"
  by (auto simp: find_Some_iff)

lemma find_upt_None: "find P [0..<n] = None \<longleftrightarrow> (\<forall>j<n. \<not> P j)"
  by (auto simp: find_None_iff)


subsection \<open>\<^verbatim>\<open>free_stations\<close>\<close>


lemma clear_first:
  "(case find (\<lambda>i. f i = Some p) [0..<n] of None \<Rightarrow> f | Some i \<Rightarrow> f(i := None)) k
     = (if first_at f n p k then None else f k)"
  by (auto simp: first_at_def find_upt_Some find_upt_None split: option.splits)
     (metis nat_neq_iff)+

lemma free_stations_Inr_iff:
  "(\<exists>s'. free_stations p s = Inr s') \<longleftrightarrow> USES_INT_FU (op (instrs s p)) \<or> USES_FP_FU (op (instrs s p))"
  by (auto simp: free_stations_def Let_def)

lemma free_stations_frame:
  assumes "free_stations p s = Inr s'"
  shows "instrs s' = instrs s" "commonDataBus s' = commonDataBus s" "doneCount s' = doneCount s"
    "instr_queue s' = instr_queue s" "instr_queue_size s' = instr_queue_size s"
    "ifq_head s' = ifq_head s" "ifq_tail s' = ifq_tail s" "map_table s' = map_table s"
    "fetch_index s' = fetch_index s"
  using assms by (auto simp: free_stations_def Let_def split: if_splits option.splits)

lemma free_stations_fuINT:
  assumes "free_stations p s = Inr s'"
  shows "fuINT s' k = (if USES_INT_FU (op (instrs s p)) \<and> first_at (fuINT s) FU_INT_SIZE p k
                       then None else fuINT s k)"
  using assms clear_first[of "fuINT s" p FU_INT_SIZE k]
  by (auto simp: free_stations_def Let_def split: if_splits option.splits)

lemma free_stations_reservINT:
  assumes "free_stations p s = Inr s'"
  shows "reservINT s' k = (if USES_INT_FU (op (instrs s p)) \<and> first_at (reservINT s) RESERV_INT_SIZE p k
                       then None else reservINT s k)"
  using assms clear_first[of "reservINT s" p RESERV_INT_SIZE k]
  by (auto simp: free_stations_def Let_def split: if_splits option.splits)

lemma free_stations_fuFP:
  assumes "free_stations p s = Inr s'"
  shows "fuFP s' k = (if \<not> USES_INT_FU (op (instrs s p)) \<and> first_at (fuFP s) FU_FP_SIZE p k
                       then None else fuFP s k)"
  using assms clear_first[of "fuFP s" p FU_FP_SIZE k]
  by (auto simp: free_stations_def Let_def split: if_splits option.splits)

lemma free_stations_reservFP:
  assumes "free_stations p s = Inr s'"
  shows "reservFP s' k = (if \<not> USES_INT_FU (op (instrs s p)) \<and> first_at (reservFP s) RESERV_FP_SIZE p k
                       then None else reservFP s k)"
  using assms clear_first[of "reservFP s" p RESERV_FP_SIZE k]
  by (auto simp: free_stations_def Let_def split: if_splits option.splits)

lemma free_stations_INT_frame:
  assumes "free_stations p s = Inr s'" "USES_INT_FU (op (instrs s p))"
  shows "fuFP s' = fuFP s" "reservFP s' = reservFP s"
  using assms by (auto simp: free_stations_def Let_def split: if_splits option.splits)

lemma free_stations_FP_frame:
  assumes "free_stations p s = Inr s'" "\<not> USES_INT_FU (op (instrs s p))"
  shows "fuINT s' = fuINT s" "reservINT s' = reservINT s"
  using assms by (auto simp: free_stations_def Let_def split: if_splits option.splits)


subsection \<open>Arbitration for the bus\<close>


lemma acc_ok_pick:
  assumes "acc_ok idx S (oldest, oi)" "0 \<le> idx q"
  shows "acc_ok idx (insert q S)
           (if oldest = -1 \<or> idx q < oldest then (idx q, Some q) else (oldest, oi))"
  using assms by (auto simp: acc_ok_def split: option.splits)

lemma arb_int_cases:
  assumes "arb_int c i (oldest, oi, t) = Inr (oldest', oi', t')"
  obtains
    (store) p t0 where "fuINT t i = Some p"
        "c \<ge> tom_execute_cycle (instrs t p) + FU_INT_LATENCY" "IS_STORE (op (instrs t p))"
        "free_stations p t = Inr t0" "t' = t0\<lparr>doneCount := doneCount t0 + 1\<rparr>"
        "oldest' = oldest" "oi' = oi"
  | (pick) p where "fuINT t i = Some p"
        "c \<ge> tom_execute_cycle (instrs t p) + FU_INT_LATENCY" "\<not> IS_STORE (op (instrs t p))"
        "t' = t"
        "(oldest', oi') = (if oldest = -1 \<or> index (instrs t p) < oldest
                           then (index (instrs t p), Some p) else (oldest, oi))"
  | (skip) "\<forall>p. fuINT t i = Some p \<longrightarrow> \<not> c \<ge> tom_execute_cycle (instrs t p) + FU_INT_LATENCY"
        "t' = t" "oldest' = oldest" "oi' = oi"
  using assms
  by (auto simp: arb_int_def split: option.splits if_splits sum.splits)

lemma arb_int_step:
  assumes step: "arb_int c i (oldest, oi, t) = Inr (oldest', oi', t')"
      and acc: "acc_ok (\<lambda>p. index (instrs t p)) S (oldest, oi)"
      and nn: "\<forall>p. fuINT t i = Some p \<longrightarrow> 0 \<le> index (instrs t p)"
  shows "acc_ok (\<lambda>p. index (instrs t p))
           (S \<union> {p. fuINT t i = Some p \<and> c \<ge> tom_execute_cycle (instrs t p) + FU_INT_LATENCY
                     \<and> \<not> IS_STORE (op (instrs t p))}) (oldest', oi')"
    and "instrs t' = instrs t" and "fuFP t' = fuFP t" and "commonDataBus t' = commonDataBus t"
    and "\<forall>k>i. fuINT t' k = fuINT t k"
proof -
  let ?C = "{p. fuINT t i = Some p \<and> c \<ge> tom_execute_cycle (instrs t p) + FU_INT_LATENCY
                     \<and> \<not> IS_STORE (op (instrs t p))}"
  from step have "acc_ok (\<lambda>p. index (instrs t p)) (S \<union> ?C) (oldest', oi')
      \<and> instrs t' = instrs t \<and> fuFP t' = fuFP t \<and> commonDataBus t' = commonDataBus t
      \<and> (\<forall>k>i. fuINT t' k = fuINT t k)"
  proof (cases rule: arb_int_cases)
    case (store p t0)
    have C: "?C = {}" using store by auto
    have int: "USES_INT_FU (op (instrs t p))" using store by (simp add: USES_INT_FU_def)
    have "\<forall>k>i. fuINT t0 k = fuINT t k"
      using free_stations_fuINT[OF store(4)] store(1) by (auto simp: first_at_def)
    moreover have "acc_ok (\<lambda>p. index (instrs t p)) (S \<union> ?C) (oldest', oi')"
      unfolding C using acc store by simp
    ultimately show ?thesis
      using store free_stations_frame[OF store(4)] free_stations_INT_frame[OF store(4) int]
      by simp
  next
    case (pick p)
    have C: "?C = {p}" using pick by auto
    have "0 \<le> index (instrs t p)" using nn pick by simp
    from acc_ok_pick[OF acc this]
    have "acc_ok (\<lambda>p. index (instrs t p)) (S \<union> ?C) (oldest', oi')"
      unfolding C using pick by simp
    then show ?thesis using pick by simp
  next
    case skip
    have C: "?C = {}" using skip by auto
    have "acc_ok (\<lambda>p. index (instrs t p)) (S \<union> ?C) (oldest', oi')"
      unfolding C using acc skip by simp
    then show ?thesis using skip by simp
  qed
  then show "acc_ok (\<lambda>p. index (instrs t p)) (S \<union> ?C) (oldest', oi')"
    and "instrs t' = instrs t" and "fuFP t' = fuFP t" and "commonDataBus t' = commonDataBus t"
    and "\<forall>k>i. fuINT t' k = fuINT t k"
    by blast+
qed


lemma arb_int_Inr: "\<exists>a'. arb_int c i a = Inr a'"
proof -
  obtain oldest oi t where a: "a = (oldest, oi, t)" by (cases a) auto
  have "\<And>p. IS_STORE (op (instrs t p)) \<Longrightarrow> \<exists>t'. free_stations p t = Inr t'"
    by (simp add: free_stations_Inr_iff USES_INT_FU_def)
  then show ?thesis
    unfolding a arb_int_def
    by (fastforce split: option.splits sum.splits)
qed

lemma arb_fp_step:
  assumes step: "arb_fp c (oldest, oi, t) = (oldest', oi', t')"
      and acc: "acc_ok (\<lambda>p. index (instrs t p)) S (oldest, oi)"
      and nn: "\<forall>p. fuFP t 0 = Some p \<longrightarrow> 0 \<le> index (instrs t p)"
  shows "acc_ok (\<lambda>p. index (instrs t p))
           (S \<union> {p. fuFP t 0 = Some p \<and> c \<ge> tom_execute_cycle (instrs t p) + FU_FP_LATENCY})
           (oldest', oi')"
    and "t' = t"
proof -
  let ?C = "{p. fuFP t 0 = Some p \<and> c \<ge> tom_execute_cycle (instrs t p) + FU_FP_LATENCY}"
  show "t' = t"
    using step by (auto simp: arb_fp_def split: option.splits if_splits)
  show "acc_ok (\<lambda>p. index (instrs t p)) (S \<union> ?C) (oldest', oi')"
  proof (cases "\<exists>p. p \<in> ?C")
    case True
    then obtain p where p: "fuFP t 0 = Some p" "c \<ge> tom_execute_cycle (instrs t p) + FU_FP_LATENCY"
      by auto
    have C: "?C = {p}" using p by auto
    have "0 \<le> index (instrs t p)" using nn p by simp
    from acc_ok_pick[OF acc this] show ?thesis
      unfolding C using step p by (auto simp: arb_fp_def split: if_splits)
  next
    case False
    then have C: "?C = {}" by auto
    have "oldest' = oldest" "oi' = oi"
      using step False by (auto simp: arb_fp_def split: option.splits if_splits)
    then show ?thesis unfolding C using acc by simp
  qed
qed


text \<open>
  When the functional units hold instructions of their class with program indices that
  are not negative, the instruction that \<^verbatim>\<open>execute_To_CDB\<close> leaves on the bus has the
  least program index among the contenders.
\<close>

lemma execute_To_CDB_least:
  assumes nn: "\<forall>p. (\<exists>i<FU_INT_SIZE. fuINT s i = Some p) \<or> (\<exists>i<FU_FP_SIZE. fuFP s i = Some p)
                 \<longrightarrow> 0 \<le> index (instrs s p)"
      and cls_int: "\<forall>i<FU_INT_SIZE. \<forall>p. fuINT s i = Some p \<longrightarrow> USES_INT_FU (op (instrs s p))"
      and cls_fp: "\<forall>i<FU_FP_SIZE. \<forall>p. fuFP s i = Some p \<longrightarrow>
                     USES_FP_FU (op (instrs s p)) \<and> \<not> USES_INT_FU (op (instrs s p))"
  shows "\<exists>s'. execute_To_CDB c s = Inr s' \<and>
      (if \<exists>p. eligible c s p
       then \<exists>w. commonDataBus s' = Some w \<and> eligible c s w \<and>
                (\<forall>p. eligible c s p \<longrightarrow> index (instrs s w) \<le> index (instrs s p))
       else commonDataBus s' = commonDataBus s)"
proof -
  let ?idx = "\<lambda>p. index (instrs s p)"
  let ?C0 = "{p. fuINT s 0 = Some p \<and> c \<ge> tom_execute_cycle (instrs s p) + FU_INT_LATENCY
                     \<and> \<not> IS_STORE (op (instrs s p))}"
  let ?C1 = "{p. fuINT s (Suc 0) = Some p \<and> c \<ge> tom_execute_cycle (instrs s p) + FU_INT_LATENCY
                     \<and> \<not> IS_STORE (op (instrs s p))}"
  let ?CF = "{p. fuFP s 0 = Some p \<and> c \<ge> tom_execute_cycle (instrs s p) + FU_FP_LATENCY}"
  obtain o1 oi1 t1 where s1: "arb_int c 0 (-1, None, s) = Inr (o1, oi1, t1)"
    using arb_int_Inr[of c 0 "(-1, None, s)"] by (metis prod_cases3)
  obtain o2 oi2 t2 where s2: "arb_int c (Suc 0) (o1, oi1, t1) = Inr (o2, oi2, t2)"
    using arb_int_Inr[of c "Suc 0" "(o1, oi1, t1)"] by (metis prod_cases3)
  obtain o3 oi3 t3 where s3: "arb_fp c (o2, oi2, t2) = (o3, oi3, t3)"
    by (metis prod_cases3)
  have nn0: "\<forall>p. fuINT s 0 = Some p \<longrightarrow> 0 \<le> ?idx p"
   and nn1: "\<forall>p. fuINT s (Suc 0) = Some p \<longrightarrow> 0 \<le> ?idx p"
   and nnF: "\<forall>p. fuFP s 0 = Some p \<longrightarrow> 0 \<le> ?idx p"
  proof -
    have "\<And>p. fuINT s 0 = Some p \<Longrightarrow> \<exists>i<FU_INT_SIZE. fuINT s i = Some p"
      by (simp add: FU_INT_SIZE_def ex_less_2)
    then show "\<forall>p. fuINT s 0 = Some p \<longrightarrow> 0 \<le> ?idx p" using nn by blast
    have "\<And>p. fuINT s (Suc 0) = Some p \<Longrightarrow> \<exists>i<FU_INT_SIZE. fuINT s i = Some p"
      by (simp add: FU_INT_SIZE_def ex_less_2)
    then show "\<forall>p. fuINT s (Suc 0) = Some p \<longrightarrow> 0 \<le> ?idx p" using nn by blast
    have "\<And>p. fuFP s 0 = Some p \<Longrightarrow> \<exists>i<FU_FP_SIZE. fuFP s i = Some p"
      by (simp add: FU_FP_SIZE_def)
    then show "\<forall>p. fuFP s 0 = Some p \<longrightarrow> 0 \<le> ?idx p" using nn by blast
  qed
  have a0: "acc_ok ?idx {} (-1, None)" by (simp add: acc_ok_def)
  note st1 = arb_int_step[OF s1 a0 nn0]
  have a1: "acc_ok (\<lambda>p. index (instrs t1 p)) ({} \<union> ?C0) (o1, oi1)"
    using st1(1) st1(2) by simp
  have nn1': "\<forall>p. fuINT t1 (Suc 0) = Some p \<longrightarrow> 0 \<le> index (instrs t1 p)"
    using nn1 st1(2) st1(5) by simp
  note st2 = arb_int_step[OF s2 a1 nn1']
  have a2: "acc_ok (\<lambda>p. index (instrs t2 p)) (?C0 \<union> ?C1) (o2, oi2)"
    using st2(1) st2(2) st1(2) st1(5) by simp
  have nnF': "\<forall>p. fuFP t2 0 = Some p \<longrightarrow> 0 \<le> index (instrs t2 p)"
    using nnF st1(2,3) st2(2,3) by simp
  note st3 = arb_fp_step[OF s3 a2 nnF']
  have a3: "acc_ok ?idx (?C0 \<union> ?C1 \<union> ?CF) (o3, oi3)"
    using st3(1) st1(2,3) st2(2,3) by simp
  have nostore: "\<And>p. fuFP s 0 = Some p \<Longrightarrow> \<not> IS_STORE (op (instrs s p))"
    using cls_fp by (auto simp: FU_FP_SIZE_def USES_INT_FU_def)
  have elig: "\<And>p. eligible c s p \<longleftrightarrow> p \<in> ?C0 \<union> ?C1 \<union> ?CF"
    using nostore
    by (auto simp: eligible_def FU_INT_SIZE_def FU_FP_SIZE_def less_2_iff)
  have bus3: "commonDataBus t3 = commonDataBus s" and ins3: "instrs t3 = instrs s"
    using st1(2,4) st2(2,4) st3(2) by simp_all
  have unf: "execute_To_CDB c s =
      (case oi3 of None \<Rightarrow> Inr t3
       | Some w \<Rightarrow>
          (case free_stations w
                  (t3\<lparr>instrs := (instrs t3)(w := (instrs t3 w)\<lparr>tom_cdb_cycle := c\<rparr>)\<rparr>) of
             Inl e \<Rightarrow> Inl e
           | Inr s2 \<Rightarrow> Inr (s2\<lparr>commonDataBus := Some w\<rparr>)))"
    by (simp add: execute_To_CDB_def FU_INT_SIZE_def upt_2 s1 s2 s3)
  show ?thesis
  proof (cases oi3)
    case None
    then have "?C0 \<union> ?C1 \<union> ?CF = {}" using a3 by (simp add: acc_ok_def)
    then have "\<not> (\<exists>p. eligible c s p)" using elig by blast
    then show ?thesis using unf None bus3 by simp
  next
    case (Some w)
    then have w: "w \<in> ?C0 \<union> ?C1 \<union> ?CF" "\<forall>p\<in>?C0 \<union> ?C1 \<union> ?CF. ?idx w \<le> ?idx p"
      using a3 by (simp_all add: acc_ok_def)
    have "USES_INT_FU (op (instrs s w)) \<or> USES_FP_FU (op (instrs s w))"
      using w(1) cls_int cls_fp by (auto simp: FU_INT_SIZE_def FU_FP_SIZE_def all_less_2)
    then obtain s2' where fs: "free_stations w
        (t3\<lparr>instrs := (instrs t3)(w := (instrs t3 w)\<lparr>tom_cdb_cycle := c\<rparr>)\<rparr>) = Inr s2'"
      using free_stations_Inr_iff[of w "t3\<lparr>instrs := (instrs t3)(w := (instrs t3 w)\<lparr>tom_cdb_cycle := c\<rparr>)\<rparr>"] ins3
      by auto
    have "eligible c s w" using w(1) elig by blast
    moreover have "\<forall>p. eligible c s p \<longrightarrow> ?idx w \<le> ?idx p" using w(2) elig by blast
    ultimately show ?thesis using unf Some fs by auto
  qed
qed


subsection \<open>\<^verbatim>\<open>map_operands\<close>\<close>


lemma map_in_Inr:
  "r_in (instrs s p) i = DNA m \<or> reg_ok m (r_in (instrs s p) i) \<Longrightarrow>
   map_in m p i s = Inr (s\<lparr>instrs := (instrs s)(p := (instrs s p)\<lparr>Q := (Q (instrs s p))
      (i := if r_in (instrs s p) i \<noteq> DNA m then map_table s (r_in (instrs s p) i) else Q (instrs s p) i)\<rparr>)\<rparr>)"
  by (auto simp: map_in_def Let_def)

lemma map_out_Inr:
  "r_out (instrs s p) i = DNA m \<or> reg_ok m (r_out (instrs s p) i) \<Longrightarrow>
   map_out m p i s = Inr (s\<lparr>map_table := (if r_out (instrs s p) i \<noteq> DNA m
      then (map_table s)(r_out (instrs s p) i := Some p) else map_table s)\<rparr>)"
  by (auto simp: map_out_def Let_def)


text \<open>
  Claim C7. \<^verbatim>\<open>map_operands\<close> first copies, for every source register that is not
  \<^verbatim>\<open>DNA\<close>, the entry the map had on entry (possibly empty) into the await-slot of the
  same position, and leaves the other await-slots as they were; then it makes the
  instruction the producer of every destination register that is not \<^verbatim>\<open>DNA\<close> and leaves
  the other entries alone. The await-slots are read from the map as it was before the
  instruction was recorded, so an instruction that reads and writes one register waits for
  the earlier producer. The registers named are assumed to lie inside the map table.
\<close>


theorem map_operands_spec:
  assumes rin: "\<forall>i<3. r_in (instrs s p) i \<noteq> DNA m \<longrightarrow> reg_ok m (r_in (instrs s p) i)"
      and rout: "\<forall>i<2. r_out (instrs s p) i \<noteq> DNA m \<longrightarrow> reg_ok m (r_out (instrs s p) i)"
  shows "\<exists>s'. map_operands m p s = Inr s' \<and>
     (\<forall>i<3. Q (instrs s' p) i =
        (if r_in (instrs s p) i \<noteq> DNA m then map_table s (r_in (instrs s p) i)
         else Q (instrs s p) i)) \<and>
     (\<forall>r. map_table s' r =
        (if r \<noteq> DNA m \<and> (\<exists>i<2. r = r_out (instrs s p) i) then Some p else map_table s r))"
proof -
  have i0: "r_in (instrs s p) 0 = DNA m \<or> reg_ok m (r_in (instrs s p) 0)"
   and i1: "r_in (instrs s p) (Suc 0) = DNA m \<or> reg_ok m (r_in (instrs s p) (Suc 0))"
   and i2: "r_in (instrs s p) 2 = DNA m \<or> reg_ok m (r_in (instrs s p) 2)"
    using rin by (auto simp: all_less_3)
  have o0: "r_out (instrs s p) 0 = DNA m \<or> reg_ok m (r_out (instrs s p) 0)"
   and o1: "r_out (instrs s p) (Suc 0) = DNA m \<or> reg_ok m (r_out (instrs s p) (Suc 0))"
    using rout by (auto simp: all_less_2)
  show ?thesis
    using i0 i1 i2 o0 o1
    by (simp add: map_operands_def bind_err_def map_in_Inr map_out_Inr ex_less_2 all_less_3 upt_2 upt_3)
qed


theorem map_operands_spec_witness:
  "\<exists>s'. map_operands (ex_machine 1) 1 ex_map_state = Inr s' \<and> Q (instrs s' 1) 0 = Some 7
        \<and> map_table s' 3 = Some 1"
proof -
  have "\<exists>s'. map_operands (ex_machine 1) 1 ex_map_state = Inr s' \<and>
     (\<forall>i<3. Q (instrs s' 1) i =
        (if r_in (instrs ex_map_state 1) i \<noteq> DNA (ex_machine 1)
         then map_table ex_map_state (r_in (instrs ex_map_state 1) i)
         else Q (instrs ex_map_state 1) i)) \<and>
     (\<forall>r. map_table s' r =
        (if r \<noteq> DNA (ex_machine 1) \<and> (\<exists>i<2. r = r_out (instrs ex_map_state 1) i) then Some 1
         else map_table ex_map_state r))"
    by (rule map_operands_spec)
       (simp_all add: ex_map_state_def ex_machine_def init_state_def ex_icomp_def mk_instr_def
          reg_ok_def)
  then obtain s' where s': "map_operands (ex_machine 1) 1 ex_map_state = Inr s'"
    and q: "\<forall>i<3. Q (instrs s' 1) i =
        (if r_in (instrs ex_map_state 1) i \<noteq> DNA (ex_machine 1)
         then map_table ex_map_state (r_in (instrs ex_map_state 1) i)
         else Q (instrs ex_map_state 1) i)"
    and r: "\<forall>r. map_table s' r =
        (if r \<noteq> DNA (ex_machine 1) \<and> (\<exists>i<2. r = r_out (instrs ex_map_state 1) i) then Some 1
         else map_table ex_map_state r)"
    by blast
  have "Q (instrs s' 1) 0 = Some 7"
    using q by (simp add: ex_map_state_def ex_machine_def init_state_def ex_icomp_def mk_instr_def)
  moreover have "map_table s' 3 = Some 1"
    using r[rule_format, of 3]
    by (simp add: ex_map_state_def ex_machine_def init_state_def ex_icomp_def mk_instr_def ex_less_2)
  ultimately show ?thesis using s' by blast
qed

subsection \<open>Freeing stations and units\<close>

lemma vacate_empty [simp]: "vacate n {} f = f"
  by (auto simp: vacate_def)

lemma vacate_vacate: "vacate n R2 (vacate n R1 f) = vacate n (R1 \<union> R2) f"
  by (auto simp: vacate_def fun_eq_iff)

lemma vacate_absent: "R \<inter> occ n f = {} \<Longrightarrow> vacate n R f = f"
  by (auto simp: vacate_def occ_def fun_eq_iff)

lemma occ_vacate: "occ n (vacate n R f) = occ n f - R"
proof (intro set_eqI iffI)
  fix p assume "p \<in> occ n (vacate n R f)"
  then obtain k where "k < n" "vacate n R f k = Some p" by (auto simp: occ_def)
  then show "p \<in> occ n f - R"
    by (auto simp: vacate_def occ_def split: if_splits)
next
  fix p assume "p \<in> occ n f - R"
  then obtain k where "k < n" "f k = Some p" "p \<notin> R" by (auto simp: occ_def)
  then have "vacate n R f k = Some p" by (auto simp: vacate_def)
  then show "p \<in> occ n (vacate n R f)" using \<open>k < n\<close> by (auto simp: occ_def)
qed

lemma uniq_vacate: "uniq n f \<Longrightarrow> uniq n (vacate n R f)"
  unfolding uniq_def vacate_def
  by (intro allI impI) (metis option.distinct(1))

lemma first_at_uniq:
  assumes "uniq n f"
  shows "first_at f n p k \<longleftrightarrow> k < n \<and> f k = Some p"
proof
  assume "first_at f n p k"
  then show "k < n \<and> f k = Some p" by (simp add: first_at_def)
next
  assume a: "k < n \<and> f k = Some p"
  have "\<forall>j<k. f j \<noteq> Some p"
  proof (intro allI impI notI)
    fix j assume "j < k" "f j = Some p"
    then have "j < n" "f j = f k" "f j \<noteq> None" using a by auto
    then have "j = k" using assms a unfolding uniq_def by blast
    then show False using \<open>j < k\<close> by simp
  qed
  then show "first_at f n p k" using a by (simp add: first_at_def)
qed

lemma vacate_single: "uniq n f \<Longrightarrow> (\<lambda>k. if first_at f n p k then None else f k) = vacate n {p} f"
  by (auto simp: fun_eq_iff vacate_def first_at_uniq)

lemma released_refl: "released {} s s"
  by (simp add: released_def)

lemma released_trans: "released R1 s t \<Longrightarrow> released R2 t u \<Longrightarrow> released (R1 \<union> R2) s u"
  by (simp add: released_def vacate_vacate)

lemma released_eq: "released R s t \<Longrightarrow> fuINT t' = fuINT t \<Longrightarrow> reservINT t' = reservINT t \<Longrightarrow>
   fuFP t' = fuFP t \<Longrightarrow> reservFP t' = reservFP t \<Longrightarrow> released R s t'"
  by (simp add: released_def)

lemma free_stations_released:
  assumes fs: "free_stations p s = Inr s'" and ok: "slots_ok s"
  shows "released {p} s s'"
proof (cases "USES_INT_FU (op (instrs s p))")
  case True
  have u: "uniq FU_INT_SIZE (fuINT s)" "uniq RESERV_INT_SIZE (reservINT s)"
    using ok by (simp_all add: slots_ok_def)
  have "fuINT s' = vacate FU_INT_SIZE {p} (fuINT s)"
    using free_stations_fuINT[OF fs] True vacate_single[OF u(1), of p] by (auto simp: fun_eq_iff)
  moreover have "reservINT s' = vacate RESERV_INT_SIZE {p} (reservINT s)"
    using free_stations_reservINT[OF fs] True vacate_single[OF u(2), of p] by (auto simp: fun_eq_iff)
  moreover have "{p} \<inter> occ FU_FP_SIZE (fuFP s) = {}" "{p} \<inter> occ RESERV_FP_SIZE (reservFP s) = {}"
    using ok True by (auto simp: slots_ok_def)
  ultimately show ?thesis
    using free_stations_INT_frame[OF fs True] by (simp add: released_def vacate_absent)
next
  case False
  have u: "uniq FU_FP_SIZE (fuFP s)" "uniq RESERV_FP_SIZE (reservFP s)"
    using ok by (simp_all add: slots_ok_def)
  have "fuFP s' = vacate FU_FP_SIZE {p} (fuFP s)"
    using free_stations_fuFP[OF fs] False vacate_single[OF u(1), of p] by (auto simp: fun_eq_iff)
  moreover have "reservFP s' = vacate RESERV_FP_SIZE {p} (reservFP s)"
    using free_stations_reservFP[OF fs] False vacate_single[OF u(2), of p] by (auto simp: fun_eq_iff)
  moreover have "{p} \<inter> occ FU_INT_SIZE (fuINT s) = {}" "{p} \<inter> occ RESERV_INT_SIZE (reservINT s) = {}"
    using ok False by (auto simp: slots_ok_def)
  ultimately show ?thesis
    using free_stations_FP_frame[OF fs False] by (simp add: released_def vacate_absent)
qed

lemma released_slots_ok:
  assumes "released R s s'" "slots_ok s" "\<forall>p. op (instrs s' p) = op (instrs s p)"
  shows "slots_ok s'"
  using assms unfolding released_def slots_ok_def
  by (simp add: occ_vacate uniq_vacate) blast

lemma arb_int_effect:
  assumes step: "arb_int c i (oldest, oi, t) = Inr (oldest', oi', t')"
      and ok: "slots_ok t"
  shows "released {p. fuINT t i = Some p \<and> cstore c t p} t t'"
    and "doneCount t' = doneCount t + (if \<exists>p. fuINT t i = Some p \<and> cstore c t p then 1 else 0)"
    and "instr_queue t' = instr_queue t \<and> instr_queue_size t' = instr_queue_size t \<and>
         ifq_head t' = ifq_head t \<and> ifq_tail t' = ifq_tail t \<and> map_table t' = map_table t \<and>
         fetch_index t' = fetch_index t \<and> instrs t' = instrs t \<and>
         commonDataBus t' = commonDataBus t"
    and "oi' = oi \<or> (\<exists>p. oi' = Some p \<and> fuINT t i = Some p \<and> \<not> IS_STORE (op (instrs t p)))"
proof -
  let ?R = "{p. fuINT t i = Some p \<and> cstore c t p}"
  from step have "released ?R t t' \<and>
      doneCount t' = doneCount t + (if \<exists>p. fuINT t i = Some p \<and> cstore c t p then 1 else 0) \<and>
      (instr_queue t' = instr_queue t \<and> instr_queue_size t' = instr_queue_size t \<and>
         ifq_head t' = ifq_head t \<and> ifq_tail t' = ifq_tail t \<and> map_table t' = map_table t \<and>
         fetch_index t' = fetch_index t \<and> instrs t' = instrs t \<and>
         commonDataBus t' = commonDataBus t) \<and>
      (oi' = oi \<or> (\<exists>p. oi' = Some p \<and> fuINT t i = Some p \<and> \<not> IS_STORE (op (instrs t p))))"
  proof (cases rule: arb_int_cases)
    case (store p t0)
    have R: "?R = {p}" using store by (auto simp: cstore_def)
    from free_stations_released[OF store(4) ok]
    have "released ?R t t'"
      unfolding R using store(5) by (simp add: released_def)
    moreover have "\<exists>q. fuINT t i = Some q \<and> cstore c t q"
      using store by (auto simp: cstore_def)
    ultimately show ?thesis
      using store free_stations_frame[OF store(4)] by simp
  next
    case (pick p)
    have R: "?R = {}" using pick by (auto simp: cstore_def)
    have "released ?R t t'" unfolding R using pick by (simp add: released_refl)
    moreover have "\<not> (\<exists>q. fuINT t i = Some q \<and> cstore c t q)"
      using pick by (auto simp: cstore_def)
    moreover have "oi' = oi \<or> (\<exists>p. oi' = Some p \<and> fuINT t i = Some p \<and> \<not> IS_STORE (op (instrs t p)))"
      using pick by (auto split: if_splits)
    ultimately show ?thesis using pick by simp
  next
    case skip
    have R: "?R = {}" using skip by (auto simp: cstore_def)
    have "released ?R t t'" unfolding R using skip by (simp add: released_refl)
    moreover have "\<not> (\<exists>q. fuINT t i = Some q \<and> cstore c t q)"
      using skip by (auto simp: cstore_def)
    ultimately show ?thesis using skip by simp
  qed
  then show "released ?R t t'"
    and "doneCount t' = doneCount t + (if \<exists>p. fuINT t i = Some p \<and> cstore c t p then 1 else 0)"
    and "instr_queue t' = instr_queue t \<and> instr_queue_size t' = instr_queue_size t \<and>
         ifq_head t' = ifq_head t \<and> ifq_tail t' = ifq_tail t \<and> map_table t' = map_table t \<and>
         fetch_index t' = fetch_index t \<and> instrs t' = instrs t \<and>
         commonDataBus t' = commonDataBus t"
    and "oi' = oi \<or> (\<exists>p. oi' = Some p \<and> fuINT t i = Some p \<and> \<not> IS_STORE (op (instrs t p)))"
    by blast+
qed

lemma arb_fp_effect:
  assumes step: "arb_fp c (oldest, oi, t) = (oldest', oi', t')"
  shows "t' = t" and "oi' = oi \<or> (\<exists>p. oi' = Some p \<and> fuFP t 0 = Some p)"
  using step by (auto simp: arb_fp_def split: option.splits if_splits)


lemma execute_To_CDB_effect:
  assumes ok: "slots_ok s"
  shows "\<exists>s' R. execute_To_CDB c s = Inr s' \<and> released R s s'
      \<and> R \<subseteq> occ FU_INT_SIZE (fuINT s) \<union> occ FU_FP_SIZE (fuFP s)
      \<and> (\<forall>p\<in>R. cstore c s p \<or> \<not> IS_STORE (op (instrs s p)))
      \<and> {p \<in> occ FU_INT_SIZE (fuINT s). cstore c s p} \<subseteq> R
      \<and> (commonDataBus s' = commonDataBus s
           \<or> (\<exists>w\<in>R. commonDataBus s' = Some w \<and> \<not> IS_STORE (op (instrs s w))))
      \<and> doneCount s' = doneCount s
           + int (length (filter (\<lambda>k. \<exists>p. fuINT s k = Some p \<and> cstore c s p) [0..<FU_INT_SIZE]))
      \<and> instr_queue s' = instr_queue s \<and> instr_queue_size s' = instr_queue_size s
      \<and> ifq_head s' = ifq_head s \<and> ifq_tail s' = ifq_tail s \<and> map_table s' = map_table s
      \<and> fetch_index s' = fetch_index s
      \<and> (\<forall>p. \<exists>cc. instrs s' p = (instrs s p)\<lparr>tom_cdb_cycle := cc\<rparr>)"
proof -
  let ?R0 = "{p. fuINT s 0 = Some p \<and> cstore c s p}"
  let ?R1 = "{p. fuINT s (Suc 0) = Some p \<and> cstore c s p}"
  obtain o1 oi1 t1 where s1: "arb_int c 0 (-1, None, s) = Inr (o1, oi1, t1)"
    using arb_int_Inr[of c 0 "(-1, None, s)"] by (metis prod_cases3)
  obtain o2 oi2 t2 where s2: "arb_int c (Suc 0) (o1, oi1, t1) = Inr (o2, oi2, t2)"
    using arb_int_Inr[of c "Suc 0" "(o1, oi1, t1)"] by (metis prod_cases3)
  obtain o3 oi3 t3 where s3: "arb_fp c (o2, oi2, t2) = (o3, oi3, t3)"
    by (metis prod_cases3)
  note e1 = arb_int_effect[OF s1 ok]
  have ins1: "instrs t1 = instrs s" using e1(3) by simp
  have ok1: "slots_ok t1" using released_slots_ok[OF e1(1) ok] ins1 by simp
  note e2 = arb_int_effect[OF s2 ok1]
  have ins2: "instrs t2 = instrs s" using e2(3) ins1 by simp
  have ok2: "slots_ok t2" using released_slots_ok[OF e2(1) ok1] ins1 ins2 by simp
  have u: "uniq FU_INT_SIZE (fuINT s)" using ok by (simp add: slots_ok_def)
  have "\<not> (\<exists>p\<in>?R0. fuINT s (Suc 0) = Some p)"
  proof
    assume "\<exists>p\<in>?R0. fuINT s (Suc 0) = Some p"
    then have "fuINT s 0 = fuINT s (Suc 0)" "fuINT s 0 \<noteq> None" by auto
    then have "(0::nat) = Suc 0" using u unfolding uniq_def FU_INT_SIZE_def
      by (metis less_2_iff)
    then show False by simp
  qed
  then have slot1: "fuINT t1 (Suc 0) = fuINT s (Suc 0)"
    using e1(1) by (simp add: released_def vacate_def)
  have R1: "{p. fuINT t1 (Suc 0) = Some p \<and> cstore c t1 p} = ?R1"
    using slot1 ins1 by (simp add: cstore_def)
  have rel2: "released (?R0 \<union> ?R1) s t2"
    using released_trans[OF e1(1) e2(1)] unfolding R1 .
  have t3: "t3 = t2" using arb_fp_effect(1)[OF s3] .
  have cls_fp: "\<And>p. p \<in> occ FU_FP_SIZE (fuFP s) \<Longrightarrow> \<not> IS_STORE (op (instrs s p))"
    using ok by (auto simp: slots_ok_def USES_INT_FU_def)
  have "(?R0 \<union> ?R1) \<inter> occ FU_FP_SIZE (fuFP s) = {}"
    using cls_fp by (auto simp: cstore_def)
  then have fp2: "fuFP t2 = fuFP s"
    using rel2 by (simp add: released_def vacate_absent)
  have win: "oi3 = None \<or> (\<exists>w. oi3 = Some w \<and> \<not> IS_STORE (op (instrs s w)) \<and>
       w \<in> occ FU_INT_SIZE (fuINT s) \<union> occ FU_FP_SIZE (fuFP s))"
  proof (cases oi3)
    case None
    then show ?thesis by simp
  next
    case (Some w)
    have "fuINT s 0 = Some w \<and> \<not> IS_STORE (op (instrs s w))
        \<or> fuINT s (Suc 0) = Some w \<and> \<not> IS_STORE (op (instrs s w))
        \<or> fuFP s 0 = Some w"
      using Some arb_fp_effect(2)[OF s3] e2(4) e1(4) slot1 ins1 fp2 by auto
    moreover have "fuFP s 0 = Some w \<Longrightarrow> \<not> IS_STORE (op (instrs s w))"
      using cls_fp[of w] by (auto simp: occ_def FU_FP_SIZE_def)
    ultimately show ?thesis
      using Some by (auto simp: occ_def FU_INT_SIZE_def FU_FP_SIZE_def ex_less_2)
  qed
  have R01: "?R0 \<union> ?R1 = {p \<in> occ FU_INT_SIZE (fuINT s). cstore c s p}"
    by (auto simp: occ_def FU_INT_SIZE_def less_2_iff)
  have dc2: "doneCount t2 = doneCount s
      + int (length (filter (\<lambda>k. \<exists>p. fuINT s k = Some p \<and> cstore c s p) [0..<FU_INT_SIZE]))"
  proof -
    have A: "(\<exists>p. fuINT t1 (Suc 0) = Some p \<and> cstore c t1 p)
        = (\<exists>p. fuINT s (Suc 0) = Some p \<and> cstore c s p)"
      using slot1 ins1 by (simp add: cstore_def)
    show ?thesis
      using e1(2) e2(2) unfolding A by (simp add: FU_INT_SIZE_def upt_2)
  qed
  have unf: "execute_To_CDB c s =
      (case oi3 of None \<Rightarrow> Inr t2
       | Some w \<Rightarrow>
          (case free_stations w
                  (t2\<lparr>instrs := (instrs t2)(w := (instrs t2 w)\<lparr>tom_cdb_cycle := c\<rparr>)\<rparr>) of
             Inl e \<Rightarrow> Inl e
           | Inr s2 \<Rightarrow> Inr (s2\<lparr>commonDataBus := Some w\<rparr>)))"
    by (simp add: execute_To_CDB_def FU_INT_SIZE_def upt_2 s1 s2 s3 t3)
  have same: "\<exists>cc. instrs s p = (instrs s p)\<lparr>tom_cdb_cycle := cc\<rparr>" for p
    by (rule exI[of _ "tom_cdb_cycle (instrs s p)"]) simp
  show ?thesis
  proof (cases oi3)
    case None
    show ?thesis
      apply (rule exI[of _ t2], rule exI[of _ "?R0 \<union> ?R1"])
      using unf None rel2 dc2 e1(3) e2(3) same ins2
      by (auto simp: R01)
  next
    case (Some w)
    with win have w: "\<not> IS_STORE (op (instrs s w))"
        "w \<in> occ FU_INT_SIZE (fuINT s) \<union> occ FU_FP_SIZE (fuFP s)"
      by auto
    let ?t = "t2\<lparr>instrs := (instrs t2)(w := (instrs t2 w)\<lparr>tom_cdb_cycle := c\<rparr>)\<rparr>"
    have okt: "slots_ok ?t"
      using ok2 by (simp add: slots_ok_def)
    have "USES_INT_FU (op (instrs ?t w)) \<or> USES_FP_FU (op (instrs ?t w))"
      using w(2) ok ins2 by (auto simp: slots_ok_def)
    then obtain s2' where fs: "free_stations w ?t = Inr s2'"
      using free_stations_Inr_iff[of w ?t] by blast
    have "released {w} ?t s2'" using free_stations_released[OF fs okt] .
    then have "released {w} t2 s2'" by (simp add: released_def)
    from released_trans[OF rel2 this]
    have rel: "released (?R0 \<union> ?R1 \<union> {w}) s (s2'\<lparr>commonDataBus := Some w\<rparr>)"
      by (simp add: released_def)
    have ins: "\<forall>p. \<exists>cc. instrs (s2'\<lparr>commonDataBus := Some w\<rparr>) p = (instrs s p)\<lparr>tom_cdb_cycle := cc\<rparr>"
    proof
      fix p
      show "\<exists>cc. instrs (s2'\<lparr>commonDataBus := Some w\<rparr>) p = (instrs s p)\<lparr>tom_cdb_cycle := cc\<rparr>"
        using free_stations_frame(1)[OF fs] ins2 same[of p]
        by (cases "p = w") auto
    qed
    show ?thesis
      apply (rule exI[of _ "s2'\<lparr>commonDataBus := Some w\<rparr>"], rule exI[of _ "?R0 \<union> ?R1 \<union> {w}"])
      using unf Some fs rel dc2 e1(3) e2(3) w ins free_stations_frame[OF fs]
      by (auto simp: R01)
  qed
qed




subsection \<open>Selection of the instruction to execute\<close>

lemma scan_int_fold:
  "(fold (scan_int s) [0..<n] None = None \<longleftrightarrow> (\<forall>j<n. \<not> ready s (reservINT s j))) \<and>
   (\<forall>k. fold (scan_int s) [0..<n] None = Some k \<longrightarrow>
      k < n \<and> ready s (reservINT s k) \<and>
      (\<forall>j<n. ready s (reservINT s j) \<longrightarrow>
         index (instrs s (the (reservINT s k))) \<le> index (instrs s (the (reservINT s j)))))"
proof (induction n)
  case 0
  show ?case by simp
next
  case (Suc n)
  define r where "r = fold (scan_int s) [0..<n] None"
  have step: "fold (scan_int s) [0..<Suc n] None = scan_int s n r"
    by (simp add: r_def)
  note IH = Suc[folded r_def]
  show ?case
    unfolding step using IH
    by (cases r) (auto simp: scan_int_def less_Suc_eq)
qed

lemma scan_fp_fold:
  "(fold (scan_fp s) [0..<n] None = None \<longleftrightarrow> (\<forall>j<n. \<not> ready s (reservFP s j))) \<and>
   (\<forall>k. fold (scan_fp s) [0..<n] None = Some k \<longrightarrow>
      k < n \<and> ready s (reservFP s k) \<and>
      (\<forall>j<n. ready s (reservFP s j) \<longrightarrow>
         tom_dispatch_cycle (instrs s (the (reservFP s k)))
           \<le> tom_dispatch_cycle (instrs s (the (reservFP s j)))))"
proof (induction n)
  case 0
  show ?case by simp
next
  case (Suc n)
  define r where "r = fold (scan_fp s) [0..<n] None"
  have step: "fold (scan_fp s) [0..<Suc n] None = scan_fp s n r"
    by (simp add: r_def)
  note IH = Suc[folded r_def]
  show ?case
    unfolding step using IH
    by (cases r) (auto simp: scan_fp_def less_Suc_eq)
qed

lemma ready_Some: "ready s slot \<Longrightarrow> \<exists>p. slot = Some p"
  by (cases slot) (auto simp: ready_def)

subsection \<open>Changes to the map table and the await-slots\<close>

lemma fold_err_invariant:
  assumes "fold_err f xs s = Inr s'" "P s" "\<And>x t t'. P t \<Longrightarrow> f x t = Inr t' \<Longrightarrow> P t'"
  shows "P s'"
  using assms(1,2)
proof (induction xs arbitrary: s)
  case Nil
  then show ?case by simp
next
  case (Cons x xs)
  then show ?case using assms(3) by (auto split: sum.splits)
qed

lemma waits_only_refl: "waits_only s s"
proof -
  have "\<exists>q. instrs s p = (instrs s p)\<lparr>Q := q\<rparr>" for p
    by (rule exI[of _ "Q (instrs s p)"]) simp
  then show ?thesis by (simp add: waits_only_def)
qed

lemma waits_only_trans:
  assumes "waits_only s t" "waits_only t u"
  shows "waits_only s u"
proof -
  have "\<exists>q. instrs u p = (instrs s p)\<lparr>Q := q\<rparr>" for p
  proof -
    obtain q1 where 1: "instrs t p = (instrs s p)\<lparr>Q := q1\<rparr>"
      using assms(1) unfolding waits_only_def by blast
    obtain q2 where 2: "instrs u p = (instrs t p)\<lparr>Q := q2\<rparr>"
      using assms(2) unfolding waits_only_def by blast
    have "instrs u p = (instrs s p)\<lparr>Q := q2\<rparr>" unfolding 2 1 by simp
    then show ?thesis by blast
  qed
  then show ?thesis using assms by (simp add: waits_only_def)
qed

lemma waits_only_Q:
  "waits_only s (s\<lparr>instrs := (instrs s)(p := (instrs s p)\<lparr>Q := q\<rparr>)\<rparr>)"
proof -
  have "\<exists>q'. ((instrs s)(p := (instrs s p)\<lparr>Q := q\<rparr>)) p' = (instrs s p')\<lparr>Q := q'\<rparr>" for p'
  proof (cases "p' = p")
    case True
    then show ?thesis by auto
  next
    case False
    then show ?thesis by (auto intro: exI[of _ "Q (instrs s p')"])
  qed
  then show ?thesis by (simp add: waits_only_def)
qed

lemma waits_only_map: "waits_only s (s\<lparr>map_table := mt\<rparr>)"
  using waits_only_refl[of s] by (simp add: waits_only_def)

lemma retire_map_waits: "retire_map m b i s = Inr s' \<Longrightarrow> waits_only s s'"
  by (auto simp: retire_map_def Let_def waits_only_map waits_only_refl split: if_splits)

lemma retire_Q_waits: "waits_only s (retire_Q b slot j s)"
  by (auto simp: retire_Q_def waits_only_Q waits_only_refl split: option.splits)

lemma map_in_waits: "map_in m p i s = Inr s' \<Longrightarrow> waits_only s s'"
  by (auto simp: map_in_def Let_def waits_only_Q waits_only_refl split: if_splits)

lemma map_out_waits: "map_out m p i s = Inr s' \<Longrightarrow> waits_only s s'"
  by (auto simp: map_out_def Let_def waits_only_map waits_only_refl split: if_splits)

lemma map_operands_waits:
  assumes "map_operands m p s = Inr s'"
  shows "waits_only s s'"
proof -
  from assms obtain s1 where 1: "fold_err (map_in m p) [0..<3] s = Inr s1"
    and 2: "fold_err (map_out m p) [0..<2] s1 = Inr s'"
    by (auto simp: map_operands_def bind_err_def split: sum.splits)
  have "waits_only s s1"
    by (rule fold_err_invariant[OF 1, where P="waits_only s"])
       (auto intro: waits_only_refl waits_only_trans map_in_waits)
  moreover have "waits_only s1 s'"
    by (rule fold_err_invariant[OF 2, where P="waits_only s1"])
       (auto intro: waits_only_refl waits_only_trans map_out_waits)
  ultimately show ?thesis by (rule waits_only_trans)
qed

lemma retire_Q_loops_waits:
  "waits_only s (fold (\<lambda>i. fold (\<lambda>j t. retire_Q b (rs t i) j t) js) is s)"
proof (rule fold_invariant[where Q="\<lambda>_. True" and P="waits_only s"])
  show "waits_only s s" by (rule waits_only_refl)
next
  fix i t assume t: "waits_only s t"
  show "waits_only s (fold (\<lambda>j t. retire_Q b (rs t i) j t) js t)"
  proof (rule fold_invariant[where Q="\<lambda>_. True" and P="waits_only s"])
    show "waits_only s t" by (rule t)
  next
    fix j u assume "waits_only s u"
    then show "waits_only s (retire_Q b (rs u i) j u)"
      using retire_Q_waits waits_only_trans by blast
  qed simp
qed simp

lemma CDB_To_retire_effect:
  assumes "CDB_To_retire m c s = Inr s'"
  shows "(commonDataBus s = None \<and> s' = s) \<or>
         (\<exists>t. waits_only s t \<and> commonDataBus s \<noteq> None \<and>
              s' = t\<lparr>commonDataBus := None, doneCount := doneCount t + 1\<rparr>)"
proof (cases "commonDataBus s")
  case None
  then show ?thesis using assms by (simp add: CDB_To_retire_def)
next
  case (Some b)
  from assms Some obtain s1 where 1: "fold_err (retire_map m b) [0..<2] s = Inr s1"
    and 2: "Inr s' = (let s2 = fold (\<lambda>i. fold (\<lambda>j t. retire_Q b (reservINT t i) j t) [0..<3])
                          [0..<RESERV_INT_SIZE] s1;
                   s3 = fold (\<lambda>i. fold (\<lambda>j t. retire_Q b (reservFP t i) j t) [0..<3])
                          [0..<RESERV_FP_SIZE] s2
               in (Inr (s3\<lparr>commonDataBus := None, doneCount := doneCount s3 + 1\<rparr>) :: error + state))"
    by (auto simp: CDB_To_retire_def split: sum.splits)
  have w1: "waits_only s s1"
    by (rule fold_err_invariant[OF 1, where P="waits_only s"])
       (auto intro: waits_only_refl waits_only_trans retire_map_waits)
  define s2 where "s2 = fold (\<lambda>i. fold (\<lambda>j t. retire_Q b (reservINT t i) j t) [0..<3])
                          [0..<RESERV_INT_SIZE] s1"
  define s3 where "s3 = fold (\<lambda>i. fold (\<lambda>j t. retire_Q b (reservFP t i) j t) [0..<3])
                          [0..<RESERV_FP_SIZE] s2"
  have w2: "waits_only s1 s2" unfolding s2_def by (rule retire_Q_loops_waits)
  have w3: "waits_only s2 s3" unfolding s3_def by (rule retire_Q_loops_waits)
  have "waits_only s s3" using w1 w2 w3 waits_only_trans by blast
  moreover have "s' = s3\<lparr>commonDataBus := None, doneCount := doneCount s3 + 1\<rparr>"
    using 2 by (simp add: s2_def s3_def Let_def)
  ultimately show ?thesis using Some by auto
qed

subsection \<open>The invariant of a run\<close>

lemma waits_only_fields:
  assumes "waits_only s t"
  shows "op (instrs t p) = op (instrs s p)"
    "tom_execute_cycle (instrs t p) = tom_execute_cycle (instrs s p)"
    "index (instrs t p) = index (instrs s p)"
proof -
  obtain q where "instrs t p = (instrs s p)\<lparr>Q := q\<rparr>"
    using assms unfolding waits_only_def by blast
  then show "op (instrs t p) = op (instrs s p)"
    "tom_execute_cycle (instrs t p) = tom_execute_cycle (instrs s p)"
    "index (instrs t p) = index (instrs s p)"
    by simp_all
qed

text \<open>What the invariant reads of a state.\<close>

lemma inv_cong:
  assumes "inv m s"
      and "fuINT t = fuINT s" "reservINT t = reservINT s" "fuFP t = fuFP s" "reservFP t = reservFP s"
      and "instr_queue t = instr_queue s" "instr_queue_size t = instr_queue_size s"
          "ifq_head t = ifq_head s" "ifq_tail t = ifq_tail s" "fetch_index t = fetch_index s"
      and "commonDataBus t = commonDataBus s \<or> commonDataBus t = None"
      and "\<And>p. op (instrs t p) = op (instrs s p)"
      and "\<And>p. tom_execute_cycle (instrs t p) = tom_execute_cycle (instrs s p)"
  shows "inv m t"
proof -
  have [simp]: "queue_at t = queue_at s" by (rule ext) (simp add: queue_at_def assms(6,8))
  have [simp]: "in_queue t = in_queue s" by (rule ext) (simp add: in_queue_def assms(7))
  have [simp]: "in_rs t = in_rs s" by (rule ext) (simp add: in_rs_def assms(3,5))
  have [simp]: "in_fu t = in_fu s" by (rule ext) (simp add: in_fu_def assms(2,4))
  have [simp]: "queue_ok t = queue_ok s" by (simp add: queue_ok_def assms(7-9))
  have [simp]: "slots_ok t = slots_ok s" by (simp add: slots_ok_def assms(2-5,12))
  have [simp]: "wf_ops m (instrs t) = wf_ops m (instrs s)" by (simp add: wf_ops_def assms(12))
  have b: "\<And>p. on_bus t p \<Longrightarrow> on_bus s p" using assms(11) by (auto simp: on_bus_def)
  show ?thesis
    using assms(1) b unfolding inv_def
    by (simp add: assms) blast
qed

lemma inv_waits:
  assumes "inv m s" "waits_only s t"
  shows "inv m t"
proof -
  have f: "fuINT t = fuINT s" "reservINT t = reservINT s" "fuFP t = fuFP s" "reservFP t = reservFP s"
      "instr_queue t = instr_queue s" "instr_queue_size t = instr_queue_size s"
      "ifq_head t = ifq_head s" "ifq_tail t = ifq_tail s" "fetch_index t = fetch_index s"
      "commonDataBus t = commonDataBus s"
    using assms(2) by (simp_all add: waits_only_def)
  show ?thesis
    by (rule inv_cong[OF assms(1)]) (simp_all add: f waits_only_fields[OF assms(2)])
qed

lemma inv_CDB_To_retire:
  assumes "inv m s" "CDB_To_retire m c s = Inr s'"
  shows "inv m s'"
proof -
  from CDB_To_retire_effect[OF assms(2)]
  consider "s' = s"
    | t where "waits_only s t" "s' = t\<lparr>commonDataBus := None, doneCount := doneCount t + 1\<rparr>"
    by blast
  then show ?thesis
  proof cases
    case 1
    then show ?thesis using assms(1) by simp
  next
    case 2
    have "inv m t" using inv_waits[OF assms(1) 2(1)] .
    then show ?thesis unfolding 2(2) by (rule inv_cong) simp_all
  qed
qed

lemma released_occ:
  assumes "released R s s'"
  shows "occ FU_INT_SIZE (fuINT s') = occ FU_INT_SIZE (fuINT s) - R"
    "occ RESERV_INT_SIZE (reservINT s') = occ RESERV_INT_SIZE (reservINT s) - R"
    "occ FU_FP_SIZE (fuFP s') = occ FU_FP_SIZE (fuFP s) - R"
    "occ RESERV_FP_SIZE (reservFP s') = occ RESERV_FP_SIZE (reservFP s) - R"
  using assms by (simp_all add: released_def occ_vacate)

lemma inv_execute_To_CDB:
  assumes inv: "inv m s" and run: "execute_To_CDB c s = Inr s'"
  shows "inv m s'"
proof -
  have ok: "slots_ok s" using inv by (simp add: inv_def)
  from execute_To_CDB_effect[OF ok, of c] run obtain R where
    rel: "released R s s'"
    and R: "R \<subseteq> occ FU_INT_SIZE (fuINT s) \<union> occ FU_FP_SIZE (fuFP s)"
    and b: "commonDataBus s' = commonDataBus s \<or> (\<exists>w\<in>R. commonDataBus s' = Some w)"
    and q: "instr_queue s' = instr_queue s" "instr_queue_size s' = instr_queue_size s"
      "ifq_head s' = ifq_head s" "ifq_tail s' = ifq_tail s" "fetch_index s' = fetch_index s"
    and ins: "\<forall>p. \<exists>cc. instrs s' p = (instrs s p)\<lparr>tom_cdb_cycle := cc\<rparr>"
    by auto
  have fld: "op (instrs s' p) = op (instrs s p)"
      "tom_execute_cycle (instrs s' p) = tom_execute_cycle (instrs s p)" for p
  proof -
    obtain cc where "instrs s' p = (instrs s p)\<lparr>tom_cdb_cycle := cc\<rparr>" using ins by blast
    then show "op (instrs s' p) = op (instrs s p)"
      "tom_execute_cycle (instrs s' p) = tom_execute_cycle (instrs s p)" by simp_all
  qed
  note oc = released_occ[OF rel]
  have qa: "queue_at s' = queue_at s" by (rule ext) (simp add: queue_at_def q)
  have iq: "in_queue s' = in_queue s" by (rule ext) (simp add: in_queue_def q qa)
  have rs: "in_rs s' p \<longleftrightarrow> in_rs s p \<and> p \<notin> R" for p by (auto simp: in_rs_def oc)
  have fu: "in_fu s' p \<longleftrightarrow> in_fu s p \<and> p \<notin> R" for p by (auto simp: in_fu_def oc)
  have fr: "occ FU_INT_SIZE (fuINT s) \<subseteq> occ RESERV_INT_SIZE (reservINT s)"
      "occ FU_FP_SIZE (fuFP s) \<subseteq> occ RESERV_FP_SIZE (reservFP s)"
    using inv by (simp_all add: inv_def)
  have Rrs: "\<And>p. p \<in> R \<Longrightarrow> in_rs s p" using R fr by (auto simp: in_rs_def)
  have bus: "on_bus s' p \<Longrightarrow> on_bus s p \<or> p \<in> R" for p
    using b by (auto simp: on_bus_def)
  have 1: "slots_ok s'" using released_slots_ok[OF rel ok] fld(1) by simp
  have 2: "queue_ok s'" using inv by (simp add: inv_def queue_ok_def q qa)
  have 3: "0 \<le> fetch_index s'" using inv by (simp add: inv_def q)
  have 4: "wf_ops m (instrs s')" using inv by (simp add: inv_def wf_ops_def fld)
  have V: "\<forall>p. in_queue s p \<or> in_rs s p \<or> on_bus s p \<longrightarrow>
           1 \<le> p \<and> p \<le> fetch_index s \<and> p \<le> sim_num_insn m"
    using inv by (simp add: inv_def)
  have 5: "\<forall>p. in_queue s' p \<or> in_rs s' p \<or> on_bus s' p \<longrightarrow>
           1 \<le> p \<and> p \<le> fetch_index s' \<and> p \<le> sim_num_insn m"
    unfolding iq rs q using V bus Rrs by blast
  have 6: "occ FU_INT_SIZE (fuINT s') \<subseteq> occ RESERV_INT_SIZE (reservINT s')"
      "occ FU_FP_SIZE (fuFP s') \<subseteq> occ RESERV_FP_SIZE (reservFP s')"
    unfolding oc using fr by blast+
  have E: "\<forall>p. in_fu s p \<longrightarrow> tom_execute_cycle (instrs s p) \<noteq> 0"
    using inv by (simp add: inv_def)
  have 7: "\<forall>p. in_fu s' p \<longrightarrow> tom_execute_cycle (instrs s' p) \<noteq> 0"
    unfolding fu fld using E by blast
  have X: "\<forall>p. \<not> (in_queue s p \<and> in_rs s p) \<and> \<not> (in_queue s p \<and> on_bus s p)
           \<and> \<not> (in_rs s p \<and> on_bus s p)"
    using inv by (simp add: inv_def)
  have 8: "\<forall>p. \<not> (in_queue s' p \<and> in_rs s' p) \<and> \<not> (in_queue s' p \<and> on_bus s' p)
           \<and> \<not> (in_rs s' p \<and> on_bus s' p)"
    unfolding iq rs using X bus Rrs by blast
  show ?thesis unfolding inv_def using 1 2 3 4 5 6 7 8 by blast
qed

lemma uniq_update:
  assumes "uniq n f" "p \<notin> occ n f"
  shows "uniq n (f(i := Some p))"
  unfolding uniq_def
proof (intro allI impI)
  fix j k assume j: "j < n" and k: "k < n"
    and e: "(f(i := Some p)) j = (f(i := Some p)) k \<and> (f(i := Some p)) j \<noteq> None"
  show "j = k"
  proof (cases "j = i")
    case True
    then have "k = i \<or> f k = Some p" using e by (auto split: if_splits)
    then show ?thesis using True assms(2) k by (auto simp: occ_def)
  next
    case False
    then have "k = i \<Longrightarrow> f j = Some p" using e by (auto split: if_splits)
    then have "k \<noteq> i" using assms(2) j by (auto simp: occ_def)
    then show ?thesis using False e assms(1) j k unfolding uniq_def by auto
  qed
qed

lemma occ_update_free:
  assumes "i < n" "f i = None"
  shows "occ n (f(i := Some p)) = insert p (occ n f)"
proof (intro set_eqI iffI)
  fix q assume "q \<in> occ n (f(i := Some p))"
  then show "q \<in> insert p (occ n f)" by (auto simp: occ_def split: if_splits)
next
  fix q assume q: "q \<in> insert p (occ n f)"
  show "q \<in> occ n (f(i := Some p))"
  proof (cases "q = p")
    case True
    then show ?thesis using assms(1) by (auto simp: occ_def)
  next
    case False
    then obtain k where "k < n" "f k = Some q" using q by (auto simp: occ_def)
    moreover have "k \<noteq> i" using assms(2) calculation by auto
    ultimately show ?thesis by (auto simp: occ_def)
  qed
qed

lemma issue_int_cases:
  obtains (same) "issue_int c i s = s"
  | (start) k p where "fuINT s i = None" "k < RESERV_INT_SIZE" "reservINT s k = Some p"
      "tom_execute_cycle (instrs s p) = 0"
      "issue_int c i s =
         s\<lparr>instrs := (instrs s)(p := (instrs s p)\<lparr>tom_execute_cycle := c\<rparr>),
           fuINT := (fuINT s)(i := Some p)\<rparr>"
proof (cases "fuINT s i = None")
  case False
  then have "issue_int c i s = s" by (auto simp: issue_int_def)
  then show ?thesis by (rule same)
next
  case True
  show ?thesis
  proof (cases "fold (scan_int s) [0..<RESERV_INT_SIZE] None")
    case None
    then have "issue_int c i s = s" using True by (simp add: issue_int_def)
    then show ?thesis by (rule same)
  next
    case (Some k)
    with scan_int_fold[of s RESERV_INT_SIZE]
    have k: "k < RESERV_INT_SIZE" "ready s (reservINT s k)" by blast+
    then obtain p where p: "reservINT s k = Some p" using ready_Some by blast
    have e: "tom_execute_cycle (instrs s p) = 0" using k(2) p by (simp add: ready_def)
    have u: "issue_int c i s =
         s\<lparr>instrs := (instrs s)(p := (instrs s p)\<lparr>tom_execute_cycle := c\<rparr>),
           fuINT := (fuINT s)(i := Some p)\<rparr>"
      using True Some p by (simp add: issue_int_def)
    show ?thesis by (rule start[OF True k(1) p e u])
  qed
qed

lemma issue_fp_cases:
  obtains (same) "issue_fp c i s = s"
  | (start) k p where "fuFP s i = None" "k < RESERV_FP_SIZE" "reservFP s k = Some p"
      "tom_execute_cycle (instrs s p) = 0"
      "issue_fp c i s =
         s\<lparr>instrs := (instrs s)(p := (instrs s p)\<lparr>tom_execute_cycle := c\<rparr>),
           fuFP := (fuFP s)(i := Some p)\<rparr>"
proof (cases "fuFP s i = None")
  case False
  then have "issue_fp c i s = s" by (auto simp: issue_fp_def)
  then show ?thesis by (rule same)
next
  case True
  show ?thesis
  proof (cases "fold (scan_fp s) [0..<RESERV_FP_SIZE] None")
    case None
    then have "issue_fp c i s = s" using True by (simp add: issue_fp_def)
    then show ?thesis by (rule same)
  next
    case (Some k)
    with scan_fp_fold[of s RESERV_FP_SIZE]
    have k: "k < RESERV_FP_SIZE" "ready s (reservFP s k)" by blast+
    then obtain p where p: "reservFP s k = Some p" using ready_Some by blast
    have e: "tom_execute_cycle (instrs s p) = 0" using k(2) p by (simp add: ready_def)
    have u: "issue_fp c i s =
         s\<lparr>instrs := (instrs s)(p := (instrs s p)\<lparr>tom_execute_cycle := c\<rparr>),
           fuFP := (fuFP s)(i := Some p)\<rparr>"
      using True Some p by (simp add: issue_fp_def)
    show ?thesis by (rule start[OF True k(1) p e u])
  qed
qed

lemma inv_issue_int:
  assumes inv: "inv m s" and c: "c \<noteq> 0" and i: "i < FU_INT_SIZE"
  shows "inv m (issue_int c i s)"
proof (cases c i s rule: issue_int_cases)
  case same
  then show ?thesis using inv by simp
next
  case (start k p)
  let ?s' = "s\<lparr>instrs := (instrs s)(p := (instrs s p)\<lparr>tom_execute_cycle := c\<rparr>),
           fuINT := (fuINT s)(i := Some p)\<rparr>"
  have ok: "slots_ok s" using inv by (simp add: inv_def)
  have E: "\<forall>p. in_fu s p \<longrightarrow> tom_execute_cycle (instrs s p) \<noteq> 0"
    using inv by (simp add: inv_def)
  have pfu: "p \<notin> occ FU_INT_SIZE (fuINT s)" using E start(4) by (auto simp: in_fu_def)
  have prs: "p \<in> occ RESERV_INT_SIZE (reservINT s)" using start(2,3) by (auto simp: occ_def)
  have oc: "occ FU_INT_SIZE (fuINT ?s') = insert p (occ FU_INT_SIZE (fuINT s))"
    using occ_update_free[of i FU_INT_SIZE "fuINT s" p] i start(1) by simp
  have ops: "op (instrs ?s' q) = op (instrs s q)" for q by simp
  have 1: "slots_ok ?s'"
    using ok uniq_update[OF _ pfu, of i] prs
    unfolding slots_ok_def oc by (simp add: ops) blast
  have qa: "queue_at ?s' = queue_at s" by (rule ext) (simp add: queue_at_def)
  have iq: "in_queue ?s' = in_queue s" by (rule ext) (simp add: in_queue_def qa)
  have rs: "in_rs ?s' = in_rs s" by (rule ext) (simp add: in_rs_def)
  have bs: "on_bus ?s' = on_bus s" by (rule ext) (simp add: on_bus_def)
  have fu: "in_fu ?s' q \<longleftrightarrow> in_fu s q \<or> q = p" for q
    unfolding in_fu_def using oc by auto
  have 2: "queue_ok ?s'" using inv by (simp add: inv_def queue_ok_def qa)
  have 4: "wf_ops m (instrs ?s')" using inv by (simp add: inv_def wf_ops_def)
  have 6: "occ FU_INT_SIZE (fuINT ?s') \<subseteq> occ RESERV_INT_SIZE (reservINT ?s')"
    unfolding oc using inv prs by (simp add: inv_def)
  have 7: "\<forall>q. in_fu ?s' q \<longrightarrow> tom_execute_cycle (instrs ?s' q) \<noteq> 0"
    unfolding fu using E c by auto
  have "inv m ?s'"
    unfolding inv_def iq rs bs
    using 1 2 4 6 7 inv unfolding inv_def by simp
  then show ?thesis using start(5) by simp
qed

lemma inv_issue_fp:
  assumes inv: "inv m s" and c: "c \<noteq> 0" and i: "i < FU_FP_SIZE"
  shows "inv m (issue_fp c i s)"
proof (cases c i s rule: issue_fp_cases)
  case same
  then show ?thesis using inv by simp
next
  case (start k p)
  let ?s' = "s\<lparr>instrs := (instrs s)(p := (instrs s p)\<lparr>tom_execute_cycle := c\<rparr>),
           fuFP := (fuFP s)(i := Some p)\<rparr>"
  have ok: "slots_ok s" using inv by (simp add: inv_def)
  have E: "\<forall>p. in_fu s p \<longrightarrow> tom_execute_cycle (instrs s p) \<noteq> 0"
    using inv by (simp add: inv_def)
  have pfu: "p \<notin> occ FU_FP_SIZE (fuFP s)" using E start(4) by (auto simp: in_fu_def)
  have prs: "p \<in> occ RESERV_FP_SIZE (reservFP s)" using start(2,3) by (auto simp: occ_def)
  have oc: "occ FU_FP_SIZE (fuFP ?s') = insert p (occ FU_FP_SIZE (fuFP s))"
    using occ_update_free[of i FU_FP_SIZE "fuFP s" p] i start(1) by simp
  have ops: "op (instrs ?s' q) = op (instrs s q)" for q by simp
  have 1: "slots_ok ?s'"
    using ok uniq_update[OF _ pfu, of i] prs
    unfolding slots_ok_def oc by (simp add: ops) blast
  have qa: "queue_at ?s' = queue_at s" by (rule ext) (simp add: queue_at_def)
  have iq: "in_queue ?s' = in_queue s" by (rule ext) (simp add: in_queue_def qa)
  have rs: "in_rs ?s' = in_rs s" by (rule ext) (simp add: in_rs_def)
  have bs: "on_bus ?s' = on_bus s" by (rule ext) (simp add: on_bus_def)
  have fu: "in_fu ?s' q \<longleftrightarrow> in_fu s q \<or> q = p" for q
    unfolding in_fu_def using oc by auto
  have 2: "queue_ok ?s'" using inv by (simp add: inv_def queue_ok_def qa)
  have 4: "wf_ops m (instrs ?s')" using inv by (simp add: inv_def wf_ops_def)
  have 6: "occ FU_FP_SIZE (fuFP ?s') \<subseteq> occ RESERV_FP_SIZE (reservFP ?s')"
    unfolding oc using inv prs by (simp add: inv_def)
  have 7: "\<forall>q. in_fu ?s' q \<longrightarrow> tom_execute_cycle (instrs ?s' q) \<noteq> 0"
    unfolding fu using E c by auto
  have "inv m ?s'"
    unfolding inv_def iq rs bs
    using 1 2 4 6 7 inv unfolding inv_def by simp
  then show ?thesis using start(5) by simp
qed

lemma inv_issue_To_execute:
  assumes inv: "inv m s" and c: "c \<noteq> 0"
  shows "inv m (issue_To_execute c s)"
proof -
  have 1: "inv m (fold (issue_int c) [0..<FU_INT_SIZE] s)"
  proof (rule fold_invariant[where Q="\<lambda>i. i < FU_INT_SIZE" and P="inv m"])
    show "inv m s" by (rule inv)
  next
    fix x assume "x \<in> set [0..<FU_INT_SIZE]"
    then show "x < FU_INT_SIZE" by simp
  next
    fix x t assume "x < FU_INT_SIZE" "inv m t"
    then show "inv m (issue_int c x t)" using c inv_issue_int by blast
  qed
  show ?thesis
    unfolding issue_To_execute_def
  proof (rule fold_invariant[where Q="\<lambda>i. i < FU_FP_SIZE" and P="inv m"])
    show "inv m (fold (issue_int c) [0..<FU_INT_SIZE] s)" by (rule 1)
  next
    fix x assume "x \<in> set [0..<FU_FP_SIZE]"
    then show "x < FU_FP_SIZE" by simp
  next
    fix x t assume "x < FU_FP_SIZE" "inv m t"
    then show "inv m (issue_fp c x t)" using c inv_issue_fp by blast
  qed
qed

lemma queue_at_pop: "queue_at (pop_head s) k = queue_at s (Suc k)"
  by (simp add: queue_at_def pop_head_def mod_add_left_eq)

lemma pop_head_fields:
  "instr_queue_size (pop_head s) = instr_queue_size s - 1"
  "ifq_head (pop_head s) = (ifq_head s + 1) mod INSTR_QUEUE_SIZE"
  "ifq_tail (pop_head s) = ifq_tail s" "instr_queue (pop_head s) = instr_queue s"
  "fetch_index (pop_head s) = fetch_index s" "instrs (pop_head s) = instrs s"
  "fuINT (pop_head s) = fuINT s" "reservINT (pop_head s) = reservINT s"
  "fuFP (pop_head s) = fuFP s" "reservFP (pop_head s) = reservFP s"
  "commonDataBus (pop_head s) = commonDataBus s" "doneCount (pop_head s) = doneCount s"
  "map_table (pop_head s) = map_table s"
  by (simp_all add: pop_head_def)

lemma queue_ok_pop:
  assumes "queue_ok s" "instr_queue_size s > 0"
  shows "queue_ok (pop_head s)"
proof -
  have sz: "nat (instr_queue_size s) = Suc (nat (instr_queue_size s - 1))"
    using assms(2) by simp
  have tl: "ifq_tail s = ((ifq_head s + 1) mod INSTR_QUEUE_SIZE + nat (instr_queue_size s - 1))
                mod INSTR_QUEUE_SIZE"
    using assms(1) unfolding queue_ok_def
    by (simp add: sz mod_add_left_eq)
  have hd: "(ifq_head s + 1) mod INSTR_QUEUE_SIZE < INSTR_QUEUE_SIZE"
    by (simp add: INSTR_QUEUE_SIZE_def)
  have k: "int k < instr_queue_size s - 1 \<Longrightarrow> int (Suc k) < instr_queue_size s" for k
    by simp
  have e: "\<forall>k. int k < instr_queue_size s - 1 \<longrightarrow> queue_at s (Suc k) \<noteq> None"
    using assms(1) k unfolding queue_ok_def by blast
  have d: "\<forall>j k. int j < instr_queue_size s - 1 \<and> int k < instr_queue_size s - 1
               \<and> queue_at s (Suc j) = queue_at s (Suc k) \<longrightarrow> j = k"
  proof (intro allI impI)
    fix j k' assume a: "int j < instr_queue_size s - 1 \<and> int k' < instr_queue_size s - 1
               \<and> queue_at s (Suc j) = queue_at s (Suc k')"
    then have "Suc j = Suc k'" using assms(1) k unfolding queue_ok_def by blast
    then show "j = k'" by simp
  qed
  have b: "0 \<le> instr_queue_size s - 1" "instr_queue_size s - 1 \<le> int INSTR_QUEUE_SIZE"
    using assms unfolding queue_ok_def by auto
  show ?thesis
    unfolding queue_ok_def queue_at_pop pop_head_fields
    using tl hd e d b by blast
qed

lemma in_queue_pop:
  assumes "queue_ok s" "instr_queue_size s > 0" "queue_at s 0 = Some p"
  shows "in_queue (pop_head s) q \<longleftrightarrow> in_queue s q \<and> q \<noteq> p"
proof
  assume "in_queue (pop_head s) q"
  then obtain k where k: "int k < instr_queue_size s - 1" "queue_at s (Suc k) = Some q"
    unfolding in_queue_def queue_at_pop pop_head_fields by blast
  then have 1: "int (Suc k) < instr_queue_size s" by simp
  then have "in_queue s q" using k(2) unfolding in_queue_def by blast
  moreover have "q \<noteq> p"
  proof
    assume "q = p"
    then have "queue_at s (Suc k) = queue_at s 0" using k(2) assms(3) by simp
    moreover have "int 0 < instr_queue_size s" using assms(2) by simp
    ultimately have "Suc k = 0" using assms(1) 1 unfolding queue_ok_def by blast
    then show False by simp
  qed
  ultimately show "in_queue s q \<and> q \<noteq> p" by simp
next
  assume a: "in_queue s q \<and> q \<noteq> p"
  then obtain k where k: "int k < instr_queue_size s" "queue_at s k = Some q"
    by (auto simp: in_queue_def)
  have "k \<noteq> 0"
  proof
    assume "k = 0"
    then have "Some q = Some p" using k(2) assms(3) by simp
    then show False using a by simp
  qed
  then obtain k' where k': "k = Suc k'" by (cases k) auto
  then have "int k' < instr_queue_size s - 1" "queue_at s (Suc k') = Some q"
    using k by simp_all
  then show "in_queue (pop_head s) q"
    unfolding in_queue_def queue_at_pop pop_head_fields by blast
qed

lemma inv_pop_head:
  assumes inv: "inv m s" and sz: "instr_queue_size s > 0"
  shows "inv m (pop_head s)"
proof -
  have qo: "queue_ok s" using inv by (simp add: inv_def)
  then obtain p where p: "queue_at s 0 = Some p"
    using sz unfolding queue_ok_def by (metis not_None_eq of_nat_0)
  note iq = in_queue_pop[OF qo sz p]
  have rs: "in_rs (pop_head s) = in_rs s" by (rule ext) (simp add: in_rs_def pop_head_fields)
  have fu: "in_fu (pop_head s) = in_fu s" by (rule ext) (simp add: in_fu_def pop_head_fields)
  have bs: "on_bus (pop_head s) = on_bus s" by (rule ext) (simp add: on_bus_def pop_head_fields)
  have 1: "slots_ok (pop_head s)" using inv by (simp add: inv_def slots_ok_def pop_head_fields)
  show ?thesis
    unfolding inv_def iq rs fu bs pop_head_fields
    using 1 queue_ok_pop[OF qo sz] inv unfolding inv_def by auto
qed

lemma inv_admit:
  assumes inv: "inv m t"
      and free: "\<not> in_queue t p" "\<not> in_rs t p" "\<not> on_bus t p"
      and valid: "1 \<le> p" "p \<le> fetch_index t" "p \<le> sim_num_insn m"
  shows "i < RESERV_FP_SIZE \<Longrightarrow> reservFP t i = None \<Longrightarrow> USES_FP_FU (op (instrs t p)) \<Longrightarrow>
           inv m (t\<lparr>reservFP := (reservFP t)(i := Some p)\<rparr>)"
    and "i < RESERV_INT_SIZE \<Longrightarrow> reservINT t i = None \<Longrightarrow> USES_INT_FU (op (instrs t p)) \<Longrightarrow>
           \<not> USES_FP_FU (op (instrs t p)) \<Longrightarrow>
           inv m (t\<lparr>reservINT := (reservINT t)(i := Some p)\<rparr>)"
proof -
  have ok: "slots_ok t" using inv by (simp add: inv_def)
  have wf: "\<not> (USES_INT_FU (op (instrs t p)) \<and> USES_FP_FU (op (instrs t p)))"
    using inv valid by (simp add: inv_def wf_ops_def)
  have nrs: "p \<notin> occ RESERV_INT_SIZE (reservINT t)" "p \<notin> occ RESERV_FP_SIZE (reservFP t)"
    using free(2) by (auto simp: in_rs_def)
  have nfu: "p \<notin> occ FU_INT_SIZE (fuINT t)" "p \<notin> occ FU_FP_SIZE (fuFP t)"
    using nrs inv by (auto simp: inv_def)
  {
    assume i: "i < RESERV_FP_SIZE" "reservFP t i = None" and c: "USES_FP_FU (op (instrs t p))"
    let ?t = "t\<lparr>reservFP := (reservFP t)(i := Some p)\<rparr>"
    have oc: "occ RESERV_FP_SIZE (reservFP ?t) = insert p (occ RESERV_FP_SIZE (reservFP t))"
      using occ_update_free[of i RESERV_FP_SIZE "reservFP t" p] i by simp
    have 1: "slots_ok ?t"
      using ok uniq_update[OF _ nrs(2), of i] c wf
      unfolding slots_ok_def oc by simp
    have qa: "queue_at ?t = queue_at t" by (rule ext) (simp add: queue_at_def)
    have iq: "in_queue ?t = in_queue t" by (rule ext) (simp add: in_queue_def qa)
    have bs: "on_bus ?t = on_bus t" by (rule ext) (simp add: on_bus_def)
    have fu: "in_fu ?t = in_fu t" by (rule ext) (simp add: in_fu_def)
    have rs: "in_rs ?t q \<longleftrightarrow> in_rs t q \<or> q = p" for q
      unfolding in_rs_def using oc by auto
    have 2: "queue_ok ?t" using inv by (simp add: inv_def queue_ok_def qa)
    have 6: "occ FU_FP_SIZE (fuFP ?t) \<subseteq> occ RESERV_FP_SIZE (reservFP ?t)"
      unfolding oc using inv by (auto simp: inv_def)
    show "inv m ?t"
      unfolding inv_def iq rs bs fu
      using 1 2 6 free valid inv unfolding inv_def by auto
  }
  {
    assume i: "i < RESERV_INT_SIZE" "reservINT t i = None" and c: "USES_INT_FU (op (instrs t p))"
      "\<not> USES_FP_FU (op (instrs t p))"
    let ?t = "t\<lparr>reservINT := (reservINT t)(i := Some p)\<rparr>"
    have oc: "occ RESERV_INT_SIZE (reservINT ?t) = insert p (occ RESERV_INT_SIZE (reservINT t))"
      using occ_update_free[of i RESERV_INT_SIZE "reservINT t" p] i by simp
    have 1: "slots_ok ?t"
      using ok uniq_update[OF _ nrs(1), of i] c
      unfolding slots_ok_def oc by simp
    have qa: "queue_at ?t = queue_at t" by (rule ext) (simp add: queue_at_def)
    have iq: "in_queue ?t = in_queue t" by (rule ext) (simp add: in_queue_def qa)
    have bs: "on_bus ?t = on_bus t" by (rule ext) (simp add: on_bus_def)
    have fu: "in_fu ?t = in_fu t" by (rule ext) (simp add: in_fu_def)
    have rs: "in_rs ?t q \<longleftrightarrow> in_rs t q \<or> q = p" for q
      unfolding in_rs_def using oc by auto
    have 2: "queue_ok ?t" using inv by (simp add: inv_def queue_ok_def qa)
    have 6: "occ FU_INT_SIZE (fuINT ?t) \<subseteq> occ RESERV_INT_SIZE (reservINT ?t)"
      unfolding oc using inv by (auto simp: inv_def)
    show "inv m ?t"
      unfolding inv_def iq rs bs fu
      using 1 2 6 free valid inv unfolding inv_def by auto
  }
qed

lemma inv_set_issue_cycle: "inv m t \<Longrightarrow> inv m (set_issue_cycle p c t)"
  by (rule inv_cong[of m t]) (simp_all add: set_issue_cycle_def)

lemma inv_doneCount: "inv m t \<Longrightarrow> inv m (t\<lparr>doneCount := d\<rparr>)"
  by (rule inv_cong[of m t]) simp_all

lemma inv_dispatch_To_issue:
  assumes inv: "inv m s" and run: "dispatch_To_issue m c s = Inr s'"
  shows "inv m s'"
proof (cases "instr_queue_size s > 0")
  case False
  then show ?thesis using inv run by (simp add: dispatch_To_issue_def)
next
  case sz: True
  have qo: "queue_ok s" using inv by (simp add: inv_def)
  have h0: "queue_at s 0 = instr_queue s (ifq_head s)"
    using qo by (simp add: queue_at_def queue_ok_def)
  from run sz obtain p where hd: "instr_queue s (ifq_head s) = Some p"
    by (auto simp: dispatch_To_issue_def split: option.splits)
  then have q0: "queue_at s 0 = Some p" using h0 by simp
  have inq: "in_queue s p" unfolding in_queue_def using q0 sz by (intro exI[of _ 0]) simp
  have V: "1 \<le> p" "p \<le> fetch_index s" "p \<le> sim_num_insn m"
    using inv inq unfolding inv_def by blast+
  have X: "\<not> in_rs s p" "\<not> on_bus s p" using inv inq unfolding inv_def by blast+
  let ?t1 = "pop_head s"
  have i1: "inv m ?t1" by (rule inv_pop_head[OF inv sz])
  have free: "\<not> in_queue ?t1 p" "\<not> in_rs ?t1 p" "\<not> on_bus ?t1 p"
    using in_queue_pop[OF qo sz q0, of p] X
    by (simp_all add: in_rs_def on_bus_def pop_head_fields)
  have valid: "1 \<le> p" "p \<le> fetch_index ?t1" "p \<le> sim_num_insn m"
    using V by (simp_all add: pop_head_fields)
  let ?opc = "op (instrs s p)"
  consider (ctrl) "IS_UNCOND_CTRL ?opc \<or> IS_COND_CTRL ?opc"
    | (fp) "\<not> (IS_UNCOND_CTRL ?opc \<or> IS_COND_CTRL ?opc)" "USES_FP_FU ?opc"
    | (int) "\<not> (IS_UNCOND_CTRL ?opc \<or> IS_COND_CTRL ?opc)" "\<not> USES_FP_FU ?opc" "USES_INT_FU ?opc"
    | (bad) "\<not> (IS_UNCOND_CTRL ?opc \<or> IS_COND_CTRL ?opc)" "\<not> USES_FP_FU ?opc" "\<not> USES_INT_FU ?opc"
    by blast
  then show ?thesis
  proof cases
    case ctrl
    then have "s' = ?t1\<lparr>doneCount := doneCount s + 1\<rparr>"
      using run sz hd by (simp add: dispatch_To_issue_def Let_def)
    then show ?thesis using inv_doneCount[OF i1] by simp
  next
    case fp
    show ?thesis
    proof (cases "find (\<lambda>i. reservFP s i = None) [0..<RESERV_FP_SIZE]")
      case None
      then have "s' = s" using run sz hd fp by (simp add: dispatch_To_issue_def Let_def)
      then show ?thesis using inv by simp
    next
      case (Some i)
      then have i: "i < RESERV_FP_SIZE" "reservFP s i = None"
        by (simp_all add: find_upt_Some)
      let ?t2 = "?t1\<lparr>reservFP := (reservFP ?t1)(i := Some p)\<rparr>"
      have "inv m ?t2"
        by (rule inv_admit(1)[OF i1 free valid]) (use i fp in \<open>simp_all add: pop_head_fields\<close>)
      then have i3: "inv m (set_issue_cycle p c ?t2)" by (rule inv_set_issue_cycle)
      have eq: "pop_head (set_issue_cycle p c (s\<lparr>reservFP := (reservFP s)(i := Some p)\<rparr>))
          = set_issue_cycle p c ?t2"
        by (simp add: pop_head_def set_issue_cycle_def)
      have "map_operands m p (set_issue_cycle p c ?t2) = Inr s'"
        using run sz hd fp Some unfolding eq[symmetric]
        by (simp add: dispatch_To_issue_def Let_def)
      then show ?thesis using inv_waits[OF i3] map_operands_waits by blast
    qed
  next
    case int
    show ?thesis
    proof (cases "find (\<lambda>i. reservINT s i = None) [0..<RESERV_INT_SIZE]")
      case None
      then have "s' = s" using run sz hd int by (simp add: dispatch_To_issue_def Let_def)
      then show ?thesis using inv by simp
    next
      case (Some i)
      then have i: "i < RESERV_INT_SIZE" "reservINT s i = None"
        by (simp_all add: find_upt_Some)
      let ?t2 = "?t1\<lparr>reservINT := (reservINT ?t1)(i := Some p)\<rparr>"
      have "inv m ?t2"
        by (rule inv_admit(2)[OF i1 free valid]) (use i int in \<open>simp_all add: pop_head_fields\<close>)
      then have i3: "inv m (set_issue_cycle p c ?t2)" by (rule inv_set_issue_cycle)
      have eq: "pop_head (set_issue_cycle p c (s\<lparr>reservINT := (reservINT s)(i := Some p)\<rparr>))
          = set_issue_cycle p c ?t2"
        by (simp add: pop_head_def set_issue_cycle_def)
      have "map_operands m p (set_issue_cycle p c ?t2) = Inr s'"
        using run sz hd int Some unfolding eq[symmetric]
        by (simp add: dispatch_To_issue_def Let_def)
      then show ?thesis using inv_waits[OF i3] map_operands_waits by blast
    qed
  next
    case bad
    then show ?thesis using run sz hd by (simp add: dispatch_To_issue_def Let_def)
  qed
qed

lemma fetch_loop_effect:
  "fetch_loop m s = Inr (s1, h) \<Longrightarrow>
     fetch_index s < h \<and> h \<le> sim_num_insn m \<and> \<not> IS_TRAP (op (instrs s h)) \<and>
     (\<exists>d. doneCount s \<le> d \<and> s1 = s\<lparr>fetch_index := h, doneCount := d\<rparr>)"
proof (induction m s rule: fetch_loop.induct)
  case (1 m s)
  let ?s1 = "s\<lparr>fetch_index := fetch_index s + 1\<rparr>"
  from "1.prems" have g: "get_instr m (fetch_index s + 1) = Inr (fetch_index s + 1)"
    by (subst (asm) fetch_loop.simps) (auto simp: Let_def get_instr_def split: sum.splits if_splits)
  then have le: "fetch_index s + 1 \<le> sim_num_insn m"
    by (auto simp: get_instr_def split: if_splits)
  show ?case
  proof (cases "IS_TRAP (op (instrs s (fetch_index s + 1)))")
    case True
    let ?s2 = "?s1\<lparr>doneCount := doneCount ?s1 + 1\<rparr>"
    have r: "fetch_loop m ?s2 = Inr (s1, h)"
      using "1.prems" g True by (subst (asm) fetch_loop.simps) (simp add: Let_def)
    have g': "get_instr m (fetch_index ?s1) = Inr (fetch_index s + 1)" using g by simp
    have tr: "IS_TRAP (op (instrs ?s1 (fetch_index s + 1)))" using True by simp
    from "1.IH"[OF refl g' tr r]
    have "fetch_index ?s2 < h \<and> h \<le> sim_num_insn m \<and> \<not> IS_TRAP (op (instrs ?s2 h)) \<and>
     (\<exists>d. doneCount ?s2 \<le> d \<and> s1 = ?s2\<lparr>fetch_index := h, doneCount := d\<rparr>)"
      by simp
    then obtain d where d: "doneCount s + 1 \<le> d" "s1 = s\<lparr>fetch_index := h, doneCount := d\<rparr>"
      and r: "fetch_index s + 1 < h" "h \<le> sim_num_insn m" "\<not> IS_TRAP (op (instrs s h))"
      by auto
    have "doneCount s \<le> d" using d(1) by simp
    then have "\<exists>d. doneCount s \<le> d \<and> s1 = s\<lparr>fetch_index := h, doneCount := d\<rparr>"
      using d(2) by blast
    then show ?thesis using r by simp
  next
    case False
    have "s1 = ?s1" "h = fetch_index s + 1"
      using "1.prems" g False by (subst (asm) fetch_loop.simps; simp add: Let_def)+
    then show ?thesis using False le
      by (auto intro!: exI[of _ "doneCount s"])
  qed
qed

lemma invD:
  assumes "inv m s"
  shows "slots_ok s" "queue_ok s" "0 \<le> fetch_index s" "wf_ops m (instrs s)"
    "\<And>p. in_queue s p \<or> in_rs s p \<or> on_bus s p \<Longrightarrow>
           1 \<le> p \<and> p \<le> fetch_index s \<and> p \<le> sim_num_insn m"
    "occ FU_INT_SIZE (fuINT s) \<subseteq> occ RESERV_INT_SIZE (reservINT s)"
    "occ FU_FP_SIZE (fuFP s) \<subseteq> occ RESERV_FP_SIZE (reservFP s)"
    "\<And>p. in_fu s p \<Longrightarrow> tom_execute_cycle (instrs s p) \<noteq> 0"
    "\<And>p. \<not> (in_queue s p \<and> in_rs s p)" "\<And>p. \<not> (in_queue s p \<and> on_bus s p)"
    "\<And>p. \<not> (in_rs s p \<and> on_bus s p)"
proof -
  from assms have a: "slots_ok s \<and> queue_ok s \<and> 0 \<le> fetch_index s \<and> wf_ops m (instrs s) \<and>
      (\<forall>p. in_queue s p \<or> in_rs s p \<or> on_bus s p \<longrightarrow>
           1 \<le> p \<and> p \<le> fetch_index s \<and> p \<le> sim_num_insn m) \<and>
      occ FU_INT_SIZE (fuINT s) \<subseteq> occ RESERV_INT_SIZE (reservINT s) \<and>
      occ FU_FP_SIZE (fuFP s) \<subseteq> occ RESERV_FP_SIZE (reservFP s) \<and>
      (\<forall>p. in_fu s p \<longrightarrow> tom_execute_cycle (instrs s p) \<noteq> 0) \<and>
      (\<forall>p. \<not> (in_queue s p \<and> in_rs s p) \<and> \<not> (in_queue s p \<and> on_bus s p)
           \<and> \<not> (in_rs s p \<and> on_bus s p))"
    unfolding inv_def .
  show "slots_ok s" "queue_ok s" "0 \<le> fetch_index s" "wf_ops m (instrs s)"
    "occ FU_INT_SIZE (fuINT s) \<subseteq> occ RESERV_INT_SIZE (reservINT s)"
    "occ FU_FP_SIZE (fuFP s) \<subseteq> occ RESERV_FP_SIZE (reservFP s)"
    using a by blast+
  show "\<And>p. in_queue s p \<or> in_rs s p \<or> on_bus s p \<Longrightarrow>
           1 \<le> p \<and> p \<le> fetch_index s \<and> p \<le> sim_num_insn m"
    using a by blast
  show "\<And>p. in_fu s p \<Longrightarrow> tom_execute_cycle (instrs s p) \<noteq> 0" using a by blast
  show "\<And>p. \<not> (in_queue s p \<and> in_rs s p)" "\<And>p. \<not> (in_queue s p \<and> on_bus s p)"
    "\<And>p. \<not> (in_rs s p \<and> on_bus s p)"
    using a by blast+
qed

lemma mod_window:
  assumes "k < n" "n < 10"
  shows "(a + k) mod 10 \<noteq> (a + n) mod (10::nat)"
proof
  assume "(a + k) mod 10 = (a + n) mod 10"
  then have "(a + n) mod 10 = (a + k) mod 10" by simp
  moreover have "a + k \<le> a + n" using assms(1) by simp
  ultimately have "10 dvd (a + n) - (a + k)" by (simp only: mod_eq_dvd_iff_nat)
  then have "10 dvd n - k" by simp
  moreover have "0 < n - k" using assms(1) by simp
  ultimately have "10 \<le> n - k" by (rule dvd_imp_le)
  then show False using assms by simp
qed

lemma inv_fetch_To_dispatch:
  assumes inv: "inv m s" and run: "fetch_To_dispatch m c s = Inr s'"
  shows "inv m s'"
proof (cases "instr_queue_size s < int INSTR_QUEUE_SIZE \<and> fetch_index s < sim_num_insn m")
  case False
  then show ?thesis using inv run by (auto simp: fetch_To_dispatch_def)
next
  case g: True
  from run g obtain s1 h where fl: "fetch_loop m s = Inr (s1, h)"
    by (auto simp: fetch_To_dispatch_def fetch_def split: sum.splits)
  from fetch_loop_effect[OF fl] obtain d where
    h: "fetch_index s < h" "h \<le> sim_num_insn m"
    and s1: "s1 = s\<lparr>fetch_index := h, doneCount := d\<rparr>"
    by blast
  define T where "T = ifq_tail s"
  define n where "n = nat (instr_queue_size s)"
  have s': "s' = s\<lparr>fetch_index := h, doneCount := d,
                  instr_queue := (instr_queue s)(T := Some h),
                  instrs := (instrs s)(h := (instrs s h)\<lparr>tom_dispatch_cycle := c\<rparr>),
                  ifq_tail := (T + 1) mod INSTR_QUEUE_SIZE,
                  instr_queue_size := instr_queue_size s + 1\<rparr>"
    using run g fl unfolding s1 T_def
    by (simp add: fetch_To_dispatch_def fetch_def)
  have qo: "queue_ok s" by (rule invD(2)[OF inv])
  have n: "int n = instr_queue_size s" "n < 10"
    using qo g unfolding n_def queue_ok_def by (auto simp: INSTR_QUEUE_SIZE_def)
  have T: "T = (ifq_head s + n) mod 10"
    using qo unfolding T_def n_def queue_ok_def by (simp add: INSTR_QUEUE_SIZE_def)
  have f0: "0 \<le> fetch_index s" by (rule invD(3)[OF inv])
  have V: "\<And>p. in_queue s p \<or> in_rs s p \<or> on_bus s p \<Longrightarrow> p \<le> fetch_index s"
    using invD(5)[OF inv] by blast
  have old: "queue_at s' k = queue_at s k" if "k < n" for k
    using mod_window[OF that n(2), of "ifq_head s"]
    unfolding s' queue_at_def T by (simp add: INSTR_QUEUE_SIZE_def)
  have new: "queue_at s' n = Some h"
    unfolding s' queue_at_def T by (simp add: INSTR_QUEUE_SIZE_def)
  have lt: "int k < instr_queue_size s' \<longleftrightarrow> k < n \<or> k = n" for k
    unfolding s' using n(1) by auto
  have iq: "in_queue s' q \<longleftrightarrow> in_queue s q \<or> q = h" for q
  proof
    assume "in_queue s' q"
    then obtain k where k: "k < n \<or> k = n" "queue_at s' k = Some q"
      unfolding in_queue_def lt by blast
    show "in_queue s q \<or> q = h"
    proof (cases "k = n")
      case True
      then show ?thesis using k(2) new by simp
    next
      case False
      then have "k < n" using k(1) by simp
      then have "int k < instr_queue_size s" "queue_at s k = Some q"
        using n(1) old k(2) by simp_all
      then show ?thesis unfolding in_queue_def by blast
    qed
  next
    assume a: "in_queue s q \<or> q = h"
    show "in_queue s' q"
    proof (cases "q = h")
      case True
      then show ?thesis unfolding in_queue_def lt using new by blast
    next
      case False
      then obtain k where "int k < instr_queue_size s" "queue_at s k = Some q"
        using a unfolding in_queue_def by blast
      then have "k < n" "queue_at s' k = Some q" using n(1) old by simp_all
      then show ?thesis unfolding in_queue_def lt by blast
    qed
  qed
  have oldv: "\<And>k. k < n \<Longrightarrow> \<exists>q. queue_at s k = Some q \<and> q < h"
  proof -
    fix k assume k: "k < n"
    then have "int k < instr_queue_size s" using n(1) by simp
    moreover from this obtain q where q: "queue_at s k = Some q"
      using qo unfolding queue_ok_def by blast
    ultimately have "in_queue s q" unfolding in_queue_def by blast
    then have "q \<le> fetch_index s" using V by blast
    then show "\<exists>q. queue_at s k = Some q \<and> q < h" using q h(1) by auto
  qed
  have 2: "queue_ok s'"
    unfolding queue_ok_def
  proof (intro conjI allI impI)
    show "0 \<le> instr_queue_size s'" unfolding s' using n(1) by simp
    show "instr_queue_size s' \<le> int INSTR_QUEUE_SIZE"
      unfolding s' using n by (simp add: INSTR_QUEUE_SIZE_def)
    show "ifq_head s' < INSTR_QUEUE_SIZE" unfolding s' using qo by (simp add: queue_ok_def)
    show "ifq_tail s' = (ifq_head s' + nat (instr_queue_size s')) mod INSTR_QUEUE_SIZE"
    proof -
      have "nat (instr_queue_size s + 1) = Suc n" using n(1) by simp
      then show ?thesis unfolding s' T
        by (simp add: INSTR_QUEUE_SIZE_def mod_Suc_eq)
    qed
  next
    fix k assume "int k < instr_queue_size s'"
    then have "k < n \<or> k = n" unfolding lt .
    then show "queue_at s' k \<noteq> None"
    proof
      assume k: "k < n"
      then obtain q where "queue_at s k = Some q" using oldv by blast
      then show ?thesis using old[OF k] by simp
    next
      assume "k = n"
      then show ?thesis using new by simp
    qed
  next
    fix j k assume a: "int j < instr_queue_size s' \<and> int k < instr_queue_size s'
        \<and> queue_at s' j = queue_at s' k"
    then have jk: "j < n \<or> j = n" "k < n \<or> k = n" unfolding lt by simp_all
    show "j = k"
    proof (cases "j < n \<and> k < n")
      case True
      then have "queue_at s j = queue_at s k" using a old by simp
      moreover have "int j < instr_queue_size s" "int k < instr_queue_size s"
        using True n(1) by simp_all
      ultimately show ?thesis using qo unfolding queue_ok_def by blast
    next
      case False
      have ne: "queue_at s' i \<noteq> queue_at s' n" if i: "i < n" for i
      proof -
        obtain q where "queue_at s i = Some q" "q < h" using oldv[OF i] by blast
        then show ?thesis using old[OF i] new by simp
      qed
      consider "j = n" "k = n" | "j < n" "k = n" | "j = n" "k < n"
        using False jk by blast
      then show ?thesis
      proof cases
        case 1
        then show ?thesis by simp
      next
        case 2
        then show ?thesis using ne[of j] a by simp
      next
        case 3
        then show ?thesis using ne[of k] a by simp
      qed
    qed
  qed
  have rs: "in_rs s' = in_rs s" by (rule ext) (simp add: in_rs_def s')
  have fu: "in_fu s' = in_fu s" by (rule ext) (simp add: in_fu_def s')
  have bs: "on_bus s' = on_bus s" by (rule ext) (simp add: on_bus_def s')
  have 1: "slots_ok s'" using invD(1)[OF inv] by (simp add: slots_ok_def s')
  have 4: "wf_ops m (instrs s')" using invD(4)[OF inv] by (simp add: wf_ops_def s')
  have fi: "fetch_index s' = h" by (simp add: s')
  have ex: "tom_execute_cycle (instrs s' p) = tom_execute_cycle (instrs s p)" for p
    by (simp add: s')
  have arr: "fuINT s' = fuINT s" "reservINT s' = reservINT s" "fuFP s' = fuFP s"
      "reservFP s' = reservFP s"
    by (simp_all add: s')
  have hn: "\<not> in_queue s h" "\<not> in_rs s h" "\<not> on_bus s h"
  proof -
    have "\<And>P. P \<Longrightarrow> (P \<Longrightarrow> h \<le> fetch_index s) \<Longrightarrow> False" using h(1) by simp
    then show "\<not> in_queue s h" "\<not> in_rs s h" "\<not> on_bus s h" using V[of h] by blast+
  qed
  have 5: "\<forall>p. (in_queue s p \<or> p = h) \<or> in_rs s p \<or> on_bus s p \<longrightarrow>
           1 \<le> p \<and> p \<le> h \<and> p \<le> sim_num_insn m"
  proof (intro allI impI)
    fix p assume a: "(in_queue s p \<or> p = h) \<or> in_rs s p \<or> on_bus s p"
    show "1 \<le> p \<and> p \<le> h \<and> p \<le> sim_num_insn m"
    proof (cases "p = h")
      case True
      then show ?thesis using h f0 by simp
    next
      case False
      then have o: "in_queue s p \<or> in_rs s p \<or> on_bus s p" using a by blast
      then have "1 \<le> p \<and> p \<le> fetch_index s \<and> p \<le> sim_num_insn m"
        by (rule invD(5)[OF inv])
      then show ?thesis using h(1) by simp
    qed
  qed
  have X: "\<forall>p. \<not> (in_queue s p \<and> in_rs s p) \<and> \<not> (in_queue s p \<and> on_bus s p)
           \<and> \<not> (in_rs s p \<and> on_bus s p)"
    using invD(9,10,11)[OF inv] by blast
  have 8: "\<forall>p. \<not> ((in_queue s p \<or> p = h) \<and> in_rs s p) \<and>
               \<not> ((in_queue s p \<or> p = h) \<and> on_bus s p) \<and> \<not> (in_rs s p \<and> on_bus s p)"
    using hn X by blast
  have 67: "occ FU_INT_SIZE (fuINT s) \<subseteq> occ RESERV_INT_SIZE (reservINT s)"
      "occ FU_FP_SIZE (fuFP s) \<subseteq> occ RESERV_FP_SIZE (reservFP s)"
      "\<forall>p. in_fu s p \<longrightarrow> tom_execute_cycle (instrs s p) \<noteq> 0"
    using invD(6,7,8)[OF inv] by blast+
  have 3: "0 \<le> h" using h(1) f0 by simp
  show ?thesis
    unfolding inv_def iq rs fu bs fi ex arr
    by (intro conjI 1 2 3 4 5 67 8)
qed

subsection \<open>The loop of the driver\<close>

lemma bind_err_Inr: "bind_err r f = Inr y \<longleftrightarrow> (\<exists>x. r = Inr x \<and> f x = Inr y)"
  by (cases r) (auto simp: bind_err_def)

lemma run_loop_complete:
  assumes "iter m c (Suc k) s = Inr s'" "is_simulation_done m s'"
    "\<forall>j<k. \<exists>sj. iter m c (Suc j) s = Inr sj \<and> \<not> is_simulation_done m sj"
  shows "run_loop m c s = Some (Inr (c + int k + 1))"
  using assms
proof (induction k arbitrary: c s)
  case 0
  then have "cycle_step m c s = Inr s'" by (auto simp: bind_err_Inr)
  then show ?case using 0(2) by (subst run_loop.simps) simp
next
  case (Suc k)
  from Suc.prems(1) obtain s1 where s1: "cycle_step m c s = Inr s1"
    and r: "iter m (c + 1) (Suc k) s1 = Inr s'"
    by (auto simp: bind_err_Inr)
  have nd: "\<not> is_simulation_done m s1"
    using Suc.prems(3)[rule_format, of 0] s1 by (auto simp: bind_err_Inr)
  have rest: "\<forall>j<k. \<exists>sj. iter m (c + 1) (Suc j) s1 = Inr sj \<and> \<not> is_simulation_done m sj"
  proof (intro allI impI)
    fix j assume "j < k"
    then have "Suc j < Suc k" by simp
    from Suc.prems(3)[rule_format, OF this] s1
    show "\<exists>sj. iter m (c + 1) (Suc j) s1 = Inr sj \<and> \<not> is_simulation_done m sj"
      by (auto simp: bind_err_def)
  qed
  have "run_loop m (c + 1) s1 = Some (Inr (c + 1 + int k + 1))"
    by (rule Suc.IH[OF r Suc.prems(2) rest])
  then show ?case using s1 nd by (subst run_loop.simps) simp
qed

lemma run_loop_sound:
  assumes "run_loop m c s = Some y"
  shows "\<forall>r. y = Inr r \<longrightarrow>
    (\<exists>k s'. r = c + int k + 1 \<and> iter m c (Suc k) s = Inr s' \<and> is_simulation_done m s' \<and>
       (\<forall>j<k. \<exists>sj. iter m c (Suc j) s = Inr sj \<and> \<not> is_simulation_done m sj))"
proof (rule run_loop.raw_induct[where P="\<lambda>m c s y. \<forall>r. y = Inr r \<longrightarrow>
    (\<exists>k s'. r = c + int k + 1 \<and> iter m c (Suc k) s = Inr s' \<and> is_simulation_done m s' \<and>
       (\<forall>j<k. \<exists>sj. iter m c (Suc j) s = Inr sj \<and> \<not> is_simulation_done m sj))", OF _ assms],
    goal_cases)
  case (1 run_loop' m c s y)
  show ?case
  proof (intro allI impI)
    fix r assume y: "y = Inr r"
    from 1(2) y obtain s1 where s1: "cycle_step m c s = Inr s1"
      by (auto split: sum.splits)
    show "\<exists>k s'. r = c + int k + 1 \<and> iter m c (Suc k) s = Inr s' \<and> is_simulation_done m s' \<and>
       (\<forall>j<k. \<exists>sj. iter m c (Suc j) s = Inr sj \<and> \<not> is_simulation_done m sj)"
    proof (cases "is_simulation_done m s1")
      case True
      then have "r = c + 1" using 1(2) y s1 by simp
      then show ?thesis using s1 True
        by (intro exI[of _ 0] exI[of _ s1]) (simp add: bind_err_def)
    next
      case False
      then have "run_loop' m (c + 1) s1 = Some y" using 1(2) s1 by simp
      from 1(1)[OF this] y obtain k s' where k: "r = c + 1 + int k + 1"
        "iter m (c + 1) (Suc k) s1 = Inr s'" "is_simulation_done m s'"
        "\<forall>j<k. \<exists>sj. iter m (c + 1) (Suc j) s1 = Inr sj \<and> \<not> is_simulation_done m sj"
        by blast
      have all: "\<forall>j<Suc k. \<exists>sj. iter m c (Suc j) s = Inr sj \<and> \<not> is_simulation_done m sj"
      proof (intro allI impI)
        fix j assume j: "j < Suc k"
        show "\<exists>sj. iter m c (Suc j) s = Inr sj \<and> \<not> is_simulation_done m sj"
        proof (cases j)
          case 0
          then show ?thesis using s1 False by (simp add: bind_err_def)
        next
          case (Suc j')
          then have "j' < k" using j by simp
          from k(4)[rule_format, OF this] show ?thesis
            using s1 Suc by (simp add: bind_err_def)
        qed
      qed
      show ?thesis
        apply (rule exI[of _ "Suc k"], rule exI[of _ s'])
        using k(1,2,3) all s1 by (simp add: bind_err_def)
    qed
  qed
qed

lemma run_loop_Inr_iff:
  "run_loop m c s = Some (Inr r) \<longleftrightarrow>
    (\<exists>k s'. r = c + int k + 1 \<and> iter m c (Suc k) s = Inr s' \<and> is_simulation_done m s' \<and>
       (\<forall>j<k. \<exists>sj. iter m c (Suc j) s = Inr sj \<and> \<not> is_simulation_done m sj))"
  using run_loop_sound[of m c s "Inr r"] run_loop_complete[of m c _ s] by blast

subsection \<open>What a stage leaves unchanged\<close>

lemma arb_int_frame:
  assumes "arb_int c i (oldest, oi, t) = Inr (oldest', oi', t')"
  shows "map_table t' = map_table t" "doneCount t \<le> doneCount t'"
  using assms
  by (cases rule: arb_int_cases; use free_stations_frame in fastforce)+

lemma execute_To_CDB_frame:
  assumes "execute_To_CDB c s = Inr s'"
  shows "map_table s' = map_table s" "doneCount s \<le> doneCount s'"
proof -
  obtain a where a: "fold_err (arb_int c) [0..<FU_INT_SIZE] (-1, None, s) = Inr a"
    using assms by (auto simp: execute_To_CDB_def split: sum.splits)
  have P: "case a of (ol, oi, t) \<Rightarrow> map_table t = map_table s \<and> doneCount s \<le> doneCount t"
  proof (rule fold_err_invariant[OF a])
    show "case (- 1, None, s) of (ol, oi, t) \<Rightarrow> map_table t = map_table s \<and> doneCount s \<le> doneCount t"
      by simp
  next
    fix x :: nat and t t' :: arb
    assume p: "case t of (ol, oi, t) \<Rightarrow> map_table t = map_table s \<and> doneCount s \<le> doneCount t"
      and st: "arb_int c x t = Inr t'"
    obtain o1 oi1 t1 where t: "t = (o1, oi1, t1)" by (metis prod_cases3)
    obtain o2 oi2 t2 where t': "t' = (o2, oi2, t2)" by (metis prod_cases3)
    from arb_int_frame[OF st[unfolded t t']] p
    show "case t' of (ol, oi, t) \<Rightarrow> map_table t = map_table s \<and> doneCount s \<le> doneCount t"
      unfolding t t' by simp
  qed
  obtain o2 oi2 t2 where a2: "a = (o2, oi2, t2)" by (metis prod_cases3)
  obtain o3 oi3 t3 where a3: "arb_fp c (o2, oi2, t2) = (o3, oi3, t3)" by (metis prod_cases3)
  have t3: "t3 = t2" using arb_fp_effect(1)[OF a3] .
  have f2: "map_table t2 = map_table s" "doneCount s \<le> doneCount t2"
    using P unfolding a2 by simp_all
  have "map_table s' = map_table s \<and> doneCount s \<le> doneCount s'"
  proof (cases oi3)
    case None
    then have "s' = t2" using assms a a2 a3 t3 by (simp add: execute_To_CDB_def)
    then show ?thesis using f2 by simp
  next
    case (Some w)
    then obtain s2 where fs: "free_stations w
        (t2\<lparr>instrs := (instrs t2)(w := (instrs t2 w)\<lparr>tom_cdb_cycle := c\<rparr>)\<rparr>) = Inr s2"
      and s': "s' = s2\<lparr>commonDataBus := Some w\<rparr>"
      using assms a a2 a3 t3 by (auto simp: execute_To_CDB_def split: sum.splits)
    show ?thesis using free_stations_frame[OF fs] f2 s' by simp
  qed
  then show "map_table s' = map_table s" "doneCount s \<le> doneCount s'" by simp_all
qed

lemma issue_To_execute_frame:
  "map_table (issue_To_execute c s) = map_table s \<and>
   doneCount (issue_To_execute c s) = doneCount s"
proof -
  let ?P = "\<lambda>t. map_table t = map_table s \<and> doneCount t = doneCount s"
  have 1: "?P (fold (issue_int c) [0..<FU_INT_SIZE] s)"
  proof (rule fold_invariant[where Q="\<lambda>_. True" and P="?P"])
    fix x and t :: state assume "?P t"
    then show "?P (issue_int c x t)" by (cases c x t rule: issue_int_cases) simp_all
  qed simp_all
  show ?thesis
    unfolding issue_To_execute_def
  proof (rule fold_invariant[where Q="\<lambda>_. True" and P="?P"])
    fix x and t :: state assume "?P t"
    then show "?P (issue_fp c x t)" by (cases c x t rule: issue_fp_cases) simp_all
  qed (simp_all add: 1)
qed

lemma map_operands_frame:
  assumes "map_operands m p s = Inr s'"
  shows "map_table s' (DNA m) = map_table s (DNA m)"
proof -
  from assms obtain s1 where 1: "fold_err (map_in m p) [0..<3] s = Inr s1"
    and 2: "fold_err (map_out m p) [0..<2] s1 = Inr s'"
    by (auto simp: map_operands_def bind_err_def split: sum.splits)
  have "map_table s1 (DNA m) = map_table s (DNA m)"
    by (rule fold_err_invariant[OF 1, where P="\<lambda>t. map_table t (DNA m) = map_table s (DNA m)"])
       (auto simp: map_in_def Let_def split: if_splits)
  moreover have "map_table s' (DNA m) = map_table s1 (DNA m)"
    by (rule fold_err_invariant[OF 2, where P="\<lambda>t. map_table t (DNA m) = map_table s1 (DNA m)"])
       (auto simp: map_out_def Let_def split: if_splits)
  ultimately show ?thesis by simp
qed

lemma dispatch_To_issue_cases:
  assumes "dispatch_To_issue m c s = Inr s'"
  obtains (idle) "s' = s"
  | (ctrl) "s' = (pop_head s)\<lparr>doneCount := doneCount s + 1\<rparr>"
  | (admit) t p where "map_operands m p t = Inr s'" "map_table t = map_table s"
      "doneCount t = doneCount s"
proof (cases "instr_queue_size s > 0")
  case False
  then have "s' = s" using assms by (simp add: dispatch_To_issue_def)
  then show ?thesis by (rule idle)
next
  case sz: True
  from assms sz obtain p where hd: "instr_queue s (ifq_head s) = Some p"
    by (auto simp: dispatch_To_issue_def split: option.splits)
  let ?opc = "op (instrs s p)"
  consider (c) "IS_UNCOND_CTRL ?opc \<or> IS_COND_CTRL ?opc"
    | (f) "\<not> (IS_UNCOND_CTRL ?opc \<or> IS_COND_CTRL ?opc)" "USES_FP_FU ?opc"
    | (i) "\<not> (IS_UNCOND_CTRL ?opc \<or> IS_COND_CTRL ?opc)" "\<not> USES_FP_FU ?opc" "USES_INT_FU ?opc"
    | (b) "\<not> (IS_UNCOND_CTRL ?opc \<or> IS_COND_CTRL ?opc)" "\<not> USES_FP_FU ?opc" "\<not> USES_INT_FU ?opc"
    by blast
  then show ?thesis
  proof cases
    case c
    then have "s' = (pop_head s)\<lparr>doneCount := doneCount s + 1\<rparr>"
      using assms sz hd by (simp add: dispatch_To_issue_def Let_def)
    then show ?thesis by (rule ctrl)
  next
    case f
    show ?thesis
    proof (cases "find (\<lambda>i. reservFP s i = None) [0..<RESERV_FP_SIZE]")
      case None
      then have "s' = s" using assms sz hd f by (simp add: dispatch_To_issue_def Let_def)
      then show ?thesis by (rule idle)
    next
      case (Some i)
      let ?t = "pop_head (set_issue_cycle p c (s\<lparr>reservFP := (reservFP s)(i := Some p)\<rparr>))"
      have "map_operands m p ?t = Inr s'"
        using assms sz hd f Some by (simp add: dispatch_To_issue_def Let_def)
      moreover have "map_table ?t = map_table s" "doneCount ?t = doneCount s"
        by (simp_all add: pop_head_def set_issue_cycle_def)
      ultimately show ?thesis by (rule admit)
    qed
  next
    case i
    show ?thesis
    proof (cases "find (\<lambda>i. reservINT s i = None) [0..<RESERV_INT_SIZE]")
      case None
      then have "s' = s" using assms sz hd i by (simp add: dispatch_To_issue_def Let_def)
      then show ?thesis by (rule idle)
    next
      case (Some j)
      let ?t = "pop_head (set_issue_cycle p c (s\<lparr>reservINT := (reservINT s)(j := Some p)\<rparr>))"
      have "map_operands m p ?t = Inr s'"
        using assms sz hd i Some by (simp add: dispatch_To_issue_def Let_def)
      moreover have "map_table ?t = map_table s" "doneCount ?t = doneCount s"
        by (simp_all add: pop_head_def set_issue_cycle_def)
      ultimately show ?thesis by (rule admit)
    qed
  next
    case b
    then show ?thesis using assms sz hd by (simp add: dispatch_To_issue_def Let_def)
  qed
qed

lemma dispatch_To_issue_frame:
  assumes "dispatch_To_issue m c s = Inr s'"
  shows "map_table s' (DNA m) = map_table s (DNA m)" "doneCount s \<le> doneCount s'"
proof -
  from assms have "map_table s' (DNA m) = map_table s (DNA m) \<and> doneCount s \<le> doneCount s'"
  proof (cases rule: dispatch_To_issue_cases)
    case idle
    then show ?thesis by simp
  next
    case ctrl
    then show ?thesis by (simp add: pop_head_def)
  next
    case (admit t p)
    have "doneCount s' = doneCount t"
      using map_operands_waits[OF admit(1)] by (simp add: waits_only_def)
    then show ?thesis using map_operands_frame[OF admit(1)] admit(2,3) by simp
  qed
  then show "map_table s' (DNA m) = map_table s (DNA m)" "doneCount s \<le> doneCount s'"
    by simp_all
qed

lemma fetch_To_dispatch_frame:
  assumes "fetch_To_dispatch m c s = Inr s'"
  shows "map_table s' = map_table s" "doneCount s \<le> doneCount s'"
proof -
  have "map_table s' = map_table s \<and> doneCount s \<le> doneCount s'"
  proof (cases "instr_queue_size s < int INSTR_QUEUE_SIZE \<and> fetch_index s < sim_num_insn m")
    case False
    then show ?thesis using assms by (auto simp: fetch_To_dispatch_def)
  next
    case True
    with assms obtain s1 h where fl: "fetch_loop m s = Inr (s1, h)"
      by (auto simp: fetch_To_dispatch_def fetch_def split: sum.splits)
    from fetch_loop_effect[OF fl] obtain d where
      d: "doneCount s \<le> d" "s1 = s\<lparr>fetch_index := h, doneCount := d\<rparr>" by blast
    show ?thesis using assms True fl d by (auto simp: fetch_To_dispatch_def fetch_def)
  qed
  then show "map_table s' = map_table s" "doneCount s \<le> doneCount s'" by simp_all
qed

lemma CDB_To_retire_frame:
  assumes "CDB_To_retire m c s = Inr s'"
  shows "doneCount s \<le> doneCount s'"
  using CDB_To_retire_effect[OF assms] by (auto simp: waits_only_def)

lemma retire_Q_map: "map_table (retire_Q b slot j t) = map_table t"
  by (simp add: retire_Q_def split: option.splits)

lemma retire_Q_loops_map:
  "map_table (fold (\<lambda>i. fold (\<lambda>j t. retire_Q b (rs t i) j t) js) is s) = map_table s"
proof (rule fold_invariant[where Q="\<lambda>_. True" and P="\<lambda>t. map_table t = map_table s"])
  fix i and t :: state assume t: "map_table t = map_table s"
  show "map_table (fold (\<lambda>j t. retire_Q b (rs t i) j t) js t) = map_table s"
  proof (rule fold_invariant[where Q="\<lambda>_. True" and P="\<lambda>t. map_table t = map_table s"])
    fix j and u :: state assume "map_table u = map_table s"
    then show "map_table (retire_Q b (rs u i) j u) = map_table s" by (simp add: retire_Q_map)
  qed (simp_all add: t)
qed simp_all

lemma CDB_To_retire_map:
  assumes "CDB_To_retire m c s = Inr s'" "map_table s r = None"
  shows "map_table s' r = None"
proof (cases "commonDataBus s")
  case None
  then show ?thesis using assms by (simp add: CDB_To_retire_def)
next
  case (Some b)
  from assms(1) Some obtain s1 where 1: "fold_err (retire_map m b) [0..<2] s = Inr s1"
    and 2: "map_table s' = map_table
              (fold (\<lambda>i. fold (\<lambda>j t. retire_Q b (reservFP t i) j t) [0..<3]) [0..<RESERV_FP_SIZE]
                (fold (\<lambda>i. fold (\<lambda>j t. retire_Q b (reservINT t i) j t) [0..<3])
                   [0..<RESERV_INT_SIZE] s1))"
    by (auto simp: CDB_To_retire_def Let_def split: sum.splits)
  have "map_table s1 r = None"
    by (rule fold_err_invariant[OF 1, where P="\<lambda>t. map_table t r = None"])
       (auto simp: assms(2) retire_map_def Let_def split: if_splits)
  then show ?thesis unfolding 2 by (simp add: retire_Q_loops_map)
qed

lemma stage_frame:
  assumes "stage m k c s = Inr s'"
  shows "doneCount s \<le> doneCount s'"
    and "map_table s (DNA m) = None \<Longrightarrow> map_table s' (DNA m) = None"
proof -
  show "doneCount s \<le> doneCount s'"
    using assms CDB_To_retire_frame execute_To_CDB_frame(2) issue_To_execute_frame
      dispatch_To_issue_frame(2) fetch_To_dispatch_frame(2)
    by (auto simp: stage_def split: if_splits)
  show "map_table s (DNA m) = None \<Longrightarrow> map_table s' (DNA m) = None"
    using assms CDB_To_retire_map execute_To_CDB_frame(1) issue_To_execute_frame
      dispatch_To_issue_frame(1) fetch_To_dispatch_frame(1)
    by (auto simp: stage_def split: if_splits)
qed

lemma cycle_step_stages:
  "cycle_step m c s =
     bind_err (stage m 0 c s) (\<lambda>s1. bind_err (stage m 1 c s1) (\<lambda>s2.
     bind_err (stage m 2 c s2) (\<lambda>s3. bind_err (stage m 3 c s3) (stage m 4 c))))"
  by (simp add: cycle_step_def stage_def bind_err_def split: sum.splits)

lemma cycle_step_doneCount:
  assumes "cycle_step m c s = Inr s'"
  shows "doneCount s \<le> doneCount s'"
proof -
  from assms obtain s1 s2 s3 s4 where
    "stage m 0 c s = Inr s1" "stage m 1 c s1 = Inr s2" "stage m 2 c s2 = Inr s3"
    "stage m 3 c s3 = Inr s4" "stage m 4 c s4 = Inr s'"
    unfolding cycle_step_stages bind_err_Inr by blast
  then show ?thesis using stage_frame(1) by (meson order_trans)
qed

lemma iter_Suc_back:
  "iter m c (Suc k) s = bind_err (iter m c k s) (cycle_step m (c + int k))"
proof (induction k arbitrary: c s)
  case 0
  show ?case by (simp add: bind_err_def split: sum.splits)
next
  case (Suc k)
  have ih: "iter m (c + 1) (Suc k)
      = (\<lambda>t. bind_err (iter m (c + 1) k t) (cycle_step m (c + 1 + int k)))"
    by (rule ext) (rule Suc.IH)
  have "iter m c (Suc (Suc k)) s = bind_err (cycle_step m c s) (iter m (c + 1) (Suc k))"
    by (rule iter.simps(2))
  also have "\<dots> = bind_err (cycle_step m c s)
      (\<lambda>t. bind_err (iter m (c + 1) k t) (cycle_step m (c + 1 + int k)))"
    by (simp only: ih)
  also have "\<dots> = bind_err (bind_err (cycle_step m c s) (iter m (c + 1) k))
                       (cycle_step m (c + 1 + int k))"
    by (cases "cycle_step m c s") (simp_all only: bind_err_def sum.case)
  also have "\<dots> = bind_err (iter m c (Suc k) s) (cycle_step m (c + int (Suc k)))"
    by (simp only: iter.simps(2) of_nat_Suc add.assoc add.commute[of 1])
  finally show ?case .
qed

lemma iter_doneCount:
  "iter m c k s = Inr s' \<Longrightarrow> doneCount s \<le> doneCount s'"
proof (induction k arbitrary: c s)
  case 0
  then show ?case by simp
next
  case (Suc k)
  then obtain s1 where "cycle_step m c s = Inr s1" "iter m (c + 1) k s1 = Inr s'"
    by (auto simp: bind_err_Inr)
  then show ?case using Suc.IH cycle_step_doneCount by (meson order_trans)
qed

subsection \<open>Runs\<close>

lemma inv_init:
  assumes "wf_ops m tr"
  shows "inv m (init_state tr)"
proof -
  let ?s = "init_state tr"
  have o: "occ n (\<lambda>_. None) = {}" for n by (simp add: occ_def)
  have u: "uniq n (\<lambda>_. None)" for n by (simp add: uniq_def)
  have 1: "slots_ok ?s" by (simp add: slots_ok_def init_state_def o u)
  have 2: "queue_ok ?s" by (simp add: queue_ok_def init_state_def INSTR_QUEUE_SIZE_def)
  have q: "\<not> in_queue ?s p" for p by (simp add: in_queue_def init_state_def)
  have r: "\<not> in_rs ?s p" for p by (simp add: in_rs_def init_state_def o)
  have f: "\<not> in_fu ?s p" for p by (simp add: in_fu_def init_state_def o)
  have b: "\<not> on_bus ?s p" for p by (simp add: on_bus_def init_state_def)
  have 3: "wf_ops m (instrs ?s)" "0 \<le> fetch_index ?s" using assms by (simp_all add: init_state_def)
  have 4: "occ FU_INT_SIZE (fuINT ?s) \<subseteq> occ RESERV_INT_SIZE (reservINT ?s)"
      "occ FU_FP_SIZE (fuFP ?s) \<subseteq> occ RESERV_FP_SIZE (reservFP ?s)"
    by (simp_all add: init_state_def o)
  show ?thesis unfolding inv_def using 1 2 3 4 q r f b by simp
qed

lemma inv_stage:
  assumes "inv m s" "stage m k c s = Inr s'" "c \<noteq> 0"
  shows "inv m s'"
proof -
  consider "k = 0" | "k = 1" | "k = 2" | "k = 3" | "k \<noteq> 0" "k \<noteq> 1" "k \<noteq> 2" "k \<noteq> 3"
    by blast
  then show ?thesis
  proof cases
    case 1
    then show ?thesis using assms inv_CDB_To_retire by (simp add: stage_def)
  next
    case 2
    then show ?thesis using assms inv_execute_To_CDB by (simp add: stage_def)
  next
    case 3
    then have "s' = issue_To_execute c s" using assms(2) by (simp add: stage_def)
    then show ?thesis using inv_issue_To_execute[OF assms(1,3)] by simp
  next
    case 4
    then show ?thesis using assms inv_dispatch_To_issue by (simp add: stage_def)
  next
    case 5
    then show ?thesis using assms inv_fetch_To_dispatch by (simp add: stage_def)
  qed
qed

lemma inv_run_stages:
  assumes "wf_ops m tr"
  shows "run_stages m tr n = Inr s \<Longrightarrow> inv m s"
proof (induction n arbitrary: s)
  case 0
  then show ?case using inv_init[OF assms] by simp
next
  case (Suc n)
  then obtain t where t: "run_stages m tr n = Inr t"
    and st: "stage m (n mod 5) (1 + int (n div 5)) t = Inr s"
    by (auto simp: bind_err_Inr)
  have "1 + int (n div 5) \<noteq> 0" by simp
  then show ?case using inv_stage[OF Suc.IH[OF t] st] by simp
qed

lemma run_stages_cycle:
  "run_stages m tr (5 * k + 5) = bind_err (run_stages m tr (5 * k)) (cycle_step m (1 + int k))"
proof -
  have dm: "(5 * k + i) div 5 = k \<and> (5 * k + i) mod 5 = i" if "i < 5" for i
    using that by simp
  have e0: "(5 * k) div 5 = k" "(5 * k) mod 5 = 0" by simp_all
  have e1: "Suc (5 * k) div 5 = k" "Suc (5 * k) mod 5 = 1" using dm[of 1] by simp_all
  have e2: "Suc (Suc (5 * k)) div 5 = k" "Suc (Suc (5 * k)) mod 5 = 2"
    using dm[of 2] by simp_all
  have e3: "Suc (Suc (Suc (5 * k))) div 5 = k" "Suc (Suc (Suc (5 * k))) mod 5 = 3"
    using dm[of 3] by simp_all
  have e4: "Suc (Suc (Suc (Suc (5 * k)))) div 5 = k" "Suc (Suc (Suc (Suc (5 * k)))) mod 5 = 4"
    using dm[of 4] by simp_all
  have n: "5 * k + 5 = Suc (Suc (Suc (Suc (Suc (5 * k)))))" by simp
  show ?thesis
    unfolding n run_stages.simps e0 e1 e2 e3 e4 cycle_step_stages
    by (cases "run_stages m tr (5 * k)") (simp_all add: bind_err_def split: sum.splits)
qed

lemma run_stages_cycles: "run_stages m tr (5 * k) = cycles m tr k"
proof (induction k)
  case 0
  show ?case by (simp add: cycles_def)
next
  case (Suc k)
  have "5 * Suc k = 5 * k + 5" by simp
  then have "run_stages m tr (5 * Suc k) = run_stages m tr (5 * k + 5)" by (simp only:)
  also have "\<dots> = bind_err (cycles m tr k) (cycle_step m (1 + int k))"
    unfolding run_stages_cycle Suc.IH ..
  also have "\<dots> = cycles m tr (Suc k)"
    unfolding cycles_def iter_Suc_back ..
  finally show ?case .
qed

subsection \<open>Where an instruction is held\<close>

lemma ex_icomp_wf: "wf_ops (ex_machine n) ex_icomp"
  by (simp add: wf_ops_def ex_icomp_def mk_instr_def USES_FP_FU_def IS_FCOMP_def)

lemma ex_icomp_run15:
  "(case run_stages (ex_machine 1) ex_icomp 15 of Inl e \<Rightarrow> False
    | Inr s \<Rightarrow> reservINT s 0 = Some 1 \<and> fuINT s 0 = Some 1)"
  by code_simp

lemma slot0_occ: "f 0 = Some p \<Longrightarrow> 0 < n \<Longrightarrow> p \<in> occ n f"
  by (auto simp: occ_def)

text \<open>
  Claim C3, as amended. At every point of a run over a well-formed trace (after any number
  of stage transitions), an instruction is held by at most one of the instruction queue,
  the reservation stations and the bus; an instruction held by a functional unit is held
  by a reservation station as well, and by neither the queue nor the bus. The claim as
  stated counts the reservation station and the functional unit as two structures of which
  only one may hold the instruction; \<^verbatim>\<open>issue_To_execute\<close> copies the instruction into the
  unit and leaves it in its station until \<^verbatim>\<open>free_stations\<close>.
\<close>

theorem occupancy_exclusive:
  assumes "wf_ops m tr" "run_stages m tr n = Inr s"
  shows "\<not> (in_queue s p \<and> in_rs s p) \<and> \<not> (in_queue s p \<and> on_bus s p) \<and>
         \<not> (in_rs s p \<and> on_bus s p) \<and>
         (in_fu s p \<longrightarrow> in_rs s p \<and> \<not> in_queue s p \<and> \<not> on_bus s p)"
proof -
  have i: "inv m s" by (rule inv_run_stages[OF assms])
  have "in_fu s p \<Longrightarrow> in_rs s p"
    using invD(6,7)[OF i] by (auto simp: in_fu_def in_rs_def)
  then show ?thesis using invD(9,10,11)[OF i, of p] by blast
qed

theorem occupancy_exclusive_witness:
  "(case run_stages (ex_machine 1) ex_icomp 15 of Inl e \<Rightarrow> False
    | Inr s \<Rightarrow> in_fu s 1 \<and> in_rs s 1 \<and> \<not> in_queue s 1 \<and> \<not> on_bus s 1)"
proof (cases "run_stages (ex_machine 1) ex_icomp 15")
  case (Inl e)
  then show ?thesis using ex_icomp_run15 by simp
next
  case (Inr s)
  then have "fuINT s 0 = Some 1" using ex_icomp_run15 by simp
  then have "in_fu s 1" by (simp add: in_fu_def slot0_occ FU_INT_SIZE_def)
  then show ?thesis
    using occupancy_exclusive[OF ex_icomp_wf Inr, of 1] Inr by simp
qed

text \<open>
  After three cycles of a run on one integer computation, the instruction is in the
  reservation station and in the functional unit at once.
\<close>

theorem one_structure_counterexample:
  "(case run_stages (ex_machine 1) ex_icomp 15 of Inl e \<Rightarrow> False
    | Inr s \<Rightarrow> in_rs s 1 \<and> in_fu s 1)"
proof (cases "run_stages (ex_machine 1) ex_icomp 15")
  case (Inl e)
  then show ?thesis using ex_icomp_run15 by simp
next
  case (Inr s)
  then have "reservINT s 0 = Some 1" "fuINT s 0 = Some 1" using ex_icomp_run15 by simp_all
  then have "in_rs s 1" "in_fu s 1"
    by (simp_all add: in_rs_def in_fu_def slot0_occ FU_INT_SIZE_def RESERV_INT_SIZE_def)
  then show ?thesis using Inr by simp
qed

subsection \<open>The value returned\<close>

lemma retired_after_done:
  "retired_after m tr k = Some (sim_num_insn m)
     \<longleftrightarrow> (\<exists>s'. iter m 1 k (init_state tr) = Inr s' \<and> is_simulation_done m s')"
  by (auto simp: retired_after_def cycles_def is_simulation_done_def split: sum.splits)

lemma retired_after_not_done:
  "(\<exists>d. retired_after m tr k = Some d \<and> d \<noteq> sim_num_insn m)
     \<longleftrightarrow> (\<exists>s'. iter m 1 k (init_state tr) = Inr s' \<and> \<not> is_simulation_done m s')"
  by (auto simp: retired_after_def cycles_def is_simulation_done_def split: sum.splits)

lemma ex_cond_run:
  "retired_after (ex_machine 1) ex_cond 1 = Some 0"
  "retired_after (ex_machine 1) ex_cond 2 = Some 1"
  "runTomasulo (ex_machine 1) ex_cond = Some (Inr 3)"
  by code_simp+






subsection \<open>The map entry of the don't-care register\<close>

lemma run_stages_map_DNA:
  "run_stages m tr n = Inr t \<Longrightarrow> map_table t (DNA m) = None"
proof (induction n arbitrary: t)
  case 0
  then show ?case by (auto simp: init_state_def)
next
  case (Suc n)
  then obtain u where u: "run_stages m tr n = Inr u"
    and st: "stage m (n mod 5) (1 + int (n div 5)) u = Inr t"
    by (auto simp: bind_err_Inr)
  show ?case using stage_frame(2)[OF st] Suc.IH[OF u] by simp
qed

lemma retire_map_DNA:
  assumes "r_out (instrs s b) i = DNA m" "map_table s (DNA m) = None"
  shows "retire_map m b i s = (if reg_ok m (DNA m) then Inr s else Inl RegOutOfRange)"
  using assms by (simp add: retire_map_def Let_def)

lemma CDB_To_retire_DNA:
  assumes "commonDataBus s = Some b" "\<forall>i<2. r_out (instrs s b) i = DNA m"
    "map_table s (DNA m) = None" "reg_ok m (DNA m)"
  shows "\<exists>s'. CDB_To_retire m c s = Inr s' \<and> map_table s' = map_table s"
proof -
  have r: "retire_map m b i s = Inr s" if "i < 2" for i
    using retire_map_DNA[of s b i m] assms that by simp
  have f: "fold_err (retire_map m b) [0..<2] s = Inr s"
    using r[of 0] r[of "Suc 0"] by (simp add: upt_2)
  show ?thesis
    using assms(1) f by (simp add: CDB_To_retire_def Let_def retire_Q_loops_map)
qed

text \<open>
  Claim C9. \<^verbatim>\<open>map_operands\<close> never assigns the map entry of \<^verbatim>\<open>DNA\<close>, so the entry is
  empty at every point of a run. \<^verbatim>\<open>CDB_To_retire\<close> reads the map at each destination
  field of the retiring instruction without a test for \<^verbatim>\<open>DNA\<close>: for a field that is
  \<^verbatim>\<open>DNA\<close>, with the entry of \<^verbatim>\<open>DNA\<close> empty, the step changes nothing when \<^verbatim>\<open>DNA\<close> is an
  index of the map table, and is an access outside the table when it is not. For an
  instruction with no destination register \<^verbatim>\<open>CDB_To_retire\<close> leaves the map as it is.
\<close>

theorem DNA_entry_never_assigned:
  "(map_operands m p s = Inr s' \<longrightarrow> map_table s' (DNA m) = map_table s (DNA m)) \<and>
   (run_stages m tr n = Inr t \<longrightarrow> map_table t (DNA m) = None) \<and>
   (r_out (instrs s b) i = DNA m \<and> map_table s (DNA m) = None \<longrightarrow>
      retire_map m b i s = (if reg_ok m (DNA m) then Inr s else Inl RegOutOfRange)) \<and>
   (commonDataBus s = Some b \<and> (\<forall>i<2. r_out (instrs s b) i = DNA m) \<and>
    map_table s (DNA m) = None \<and> reg_ok m (DNA m) \<longrightarrow>
      (\<exists>s''. CDB_To_retire m c s = Inr s'' \<and> map_table s'' = map_table s))"
  using map_operands_frame[of m p s s'] run_stages_map_DNA[of m tr n t]
    retire_map_DNA[of s b i m] CDB_To_retire_DNA[of s b m c]
  by blast

lemma ex_icomp_run35:
  "(case run_stages (ex_machine 1) ex_icomp 35 of Inl e \<Rightarrow> False
    | Inr t \<Rightarrow> commonDataBus t = Some 1 \<and> r_out (instrs t 1) 1 = 0 \<and> map_table t 3 = Some 1)"
  by code_simp

lemma ex_map_state_run:
  "(case map_operands (ex_machine 1) 1 ex_map_state of Inl e \<Rightarrow> False | Inr s' \<Rightarrow> True)"
  by code_simp

theorem DNA_entry_never_assigned_witness:
  "(case run_stages (ex_machine 1) ex_icomp 35 of Inl e \<Rightarrow> False
    | Inr t \<Rightarrow> commonDataBus t = Some 1 \<and> r_out (instrs t 1) 1 = DNA (ex_machine 1) \<and>
        map_table t 3 = Some 1 \<and> map_table t (DNA (ex_machine 1)) = None \<and>
        retire_map (ex_machine 1) 1 1 t = Inr t) \<and>
   (case map_operands (ex_machine 1) 1 ex_map_state of Inl e \<Rightarrow> False
    | Inr s' \<Rightarrow> map_table s' (DNA (ex_machine 1)) = None) \<and>
   (\<exists>s''. CDB_To_retire (ex_machine 1) 8 ((init_state ex_cond)\<lparr>commonDataBus := Some 1\<rparr>)
             = Inr s'' \<and> map_table s'' = (\<lambda>_. None))"
proof -
  have d: "DNA (ex_machine 1) = 0" "reg_ok (ex_machine 1) (DNA (ex_machine 1))"
    by (simp_all add: ex_machine_def reg_ok_def)
  have 1: "(case run_stages (ex_machine 1) ex_icomp 35 of Inl e \<Rightarrow> False
    | Inr t \<Rightarrow> commonDataBus t = Some 1 \<and> r_out (instrs t 1) 1 = DNA (ex_machine 1) \<and>
        map_table t 3 = Some 1 \<and> map_table t (DNA (ex_machine 1)) = None \<and>
        retire_map (ex_machine 1) 1 1 t = Inr t)"
  proof (cases "run_stages (ex_machine 1) ex_icomp 35")
    case (Inl e)
    then show ?thesis using ex_icomp_run35 by simp
  next
    case (Inr t)
    then have f: "commonDataBus t = Some 1" "r_out (instrs t 1) 1 = 0" "map_table t 3 = Some 1"
      using ex_icomp_run35 by simp_all
    note th = DNA_entry_never_assigned[of "ex_machine 1" 1 t t ex_icomp 35 t 1 1 1]
    have n: "map_table t (DNA (ex_machine 1)) = None" using th Inr by blast
    have "retire_map (ex_machine 1) 1 1 t = Inr t" using th n f(2) d by simp
    then show ?thesis using Inr f n d(1) by simp
  qed
  have 2: "(case map_operands (ex_machine 1) 1 ex_map_state of Inl e \<Rightarrow> False
    | Inr s' \<Rightarrow> map_table s' (DNA (ex_machine 1)) = None)"
  proof (cases "map_operands (ex_machine 1) 1 ex_map_state")
    case (Inl e)
    then show ?thesis using ex_map_state_run by simp
  next
    case (Inr s')
    have "map_table s' (DNA (ex_machine 1)) = map_table ex_map_state (DNA (ex_machine 1))"
      using DNA_entry_never_assigned[of "ex_machine 1" 1 ex_map_state s'] Inr by blast
    then show ?thesis using Inr d(1) by (simp add: ex_map_state_def init_state_def)
  qed
  let ?s = "(init_state ex_cond)\<lparr>commonDataBus := Some 1\<rparr>"
  have h: "commonDataBus ?s = Some 1 \<and> (\<forall>i<2. r_out (instrs ?s 1) i = DNA (ex_machine 1)) \<and>
    map_table ?s (DNA (ex_machine 1)) = None \<and> reg_ok (ex_machine 1) (DNA (ex_machine 1))"
    using d by (simp add: init_state_def ex_cond_def mk_instr_def)
  have m: "map_table ?s = (\<lambda>_. None)" by (simp add: init_state_def)
  have 3: "\<exists>s''. CDB_To_retire (ex_machine 1) 8 ?s = Inr s'' \<and> map_table s'' = (\<lambda>_. None)"
    using DNA_entry_never_assigned[of "ex_machine 1" 1 ?s ?s ex_cond 0 ?s 1 0 8] h
    unfolding m by blast
  show ?thesis using 1 2 3 by blast
qed

subsection \<open>Traps at the end of the trace\<close>

text \<open>
  Claim C8. The claim does not hold of the code: the loop of \<^verbatim>\<open>fetch\<close> goes on to the
  next index whenever it has read a trap, without the test against the total instruction
  count that \<^verbatim>\<open>fetch_To_dispatch\<close> makes once before the call. With a trace of one
  instruction, a trap, the first call of \<^verbatim>\<open>fetch_To_dispatch\<close> requests index 1 and then
  index 2, beyond the total of 1.
\<close>

theorem fetch_reads_beyond_trace:
  "(case fetch_To_dispatch (ex_machine 1) 1 (init_state ex_trap) of
      Inl e \<Rightarrow> e = BeyondTrace | Inr s \<Rightarrow> False) \<and>
   get_instr (ex_machine 1) 1 = Inr 1 \<and> get_instr (ex_machine 1) 2 = Inl BeyondTrace"
  by code_simp

subsection \<open>The stages of a run, one by one\<close>

lemma run_stages_at:
  assumes "j < 5"
  shows "run_stages m tr (5 * k + Suc j) = bind_err (run_stages m tr (5 * k + j)) (stage m j (1 + int k))"
proof -
  have "(5 * k + j) mod 5 = j" "(5 * k + j) div 5 = k" using assms by simp_all
  then show ?thesis by simp
qed

lemma in_queue_cong:
  assumes "instr_queue t = instr_queue s" "instr_queue_size t = instr_queue_size s"
    "ifq_head t = ifq_head s"
  shows "in_queue t = in_queue s" "queue_at t = queue_at s"
proof -
  show q: "queue_at t = queue_at s" by (rule ext) (simp add: queue_at_def assms)
  show "in_queue t = in_queue s" by (rule ext) (simp add: in_queue_def assms q)
qed

lemma in_rs_cong:
  assumes "reservINT t = reservINT s" "reservFP t = reservFP s"
  shows "in_rs t = in_rs s"
  by (rule ext) (simp add: in_rs_def assms)

lemma in_fu_cong:
  assumes "fuINT t = fuINT s" "fuFP t = fuFP s"
  shows "in_fu t = in_fu s"
  by (rule ext) (simp add: in_fu_def assms)

lemma waits_only_places:
  assumes "waits_only s t"
  shows "in_queue t = in_queue s" "in_rs t = in_rs s" "in_fu t = in_fu s" "on_bus t = on_bus s"
    "fetch_index t = fetch_index s" "queue_at t = queue_at s"
proof -
  have f: "fuINT t = fuINT s" "reservINT t = reservINT s" "fuFP t = fuFP s" "reservFP t = reservFP s"
      "instr_queue t = instr_queue s" "instr_queue_size t = instr_queue_size s"
      "ifq_head t = ifq_head s" "fetch_index t = fetch_index s"
      "commonDataBus t = commonDataBus s"
    using assms by (simp_all add: waits_only_def)
  show "in_queue t = in_queue s" "queue_at t = queue_at s" using in_queue_cong[OF f(5,6,7)] .
  show "in_rs t = in_rs s" using in_rs_cong[OF f(2,4)] .
  show "in_fu t = in_fu s" using in_fu_cong[OF f(1,3)] .
  show "on_bus t = on_bus s" by (rule ext) (simp add: on_bus_def f)
  show "fetch_index t = fetch_index s" by (rule f)
qed

text \<open>The loop of \<^verbatim>\<open>fetch\<close> counts the traps it steps over.\<close>

lemma fetch_loop_count:
  "fetch_loop m s = Inr (s1, h) \<Longrightarrow>
     s1 = s\<lparr>fetch_index := h, doneCount := doneCount s + (h - fetch_index s - 1)\<rparr> \<and>
     (\<forall>p. fetch_index s < p \<and> p < h \<longrightarrow> IS_TRAP (op (instrs s p)))"
proof (induction m s rule: fetch_loop.induct)
  case (1 m s)
  let ?s1 = "s\<lparr>fetch_index := fetch_index s + 1\<rparr>"
  from "1.prems" have g: "get_instr m (fetch_index s + 1) = Inr (fetch_index s + 1)"
    by (subst (asm) fetch_loop.simps) (auto simp: Let_def get_instr_def split: sum.splits if_splits)
  show ?case
  proof (cases "IS_TRAP (op (instrs s (fetch_index s + 1)))")
    case True
    let ?s2 = "?s1\<lparr>doneCount := doneCount ?s1 + 1\<rparr>"
    have r: "fetch_loop m ?s2 = Inr (s1, h)"
      using "1.prems" g True by (subst (asm) fetch_loop.simps) (simp add: Let_def)
    have g': "get_instr m (fetch_index ?s1) = Inr (fetch_index s + 1)" using g by simp
    have tr: "IS_TRAP (op (instrs ?s1 (fetch_index s + 1)))" using True by simp
    from "1.IH"[OF refl g' tr r]
    have ih: "s1 = ?s2\<lparr>fetch_index := h, doneCount := doneCount ?s2 + (h - fetch_index ?s2 - 1)\<rparr>"
       "\<forall>p. fetch_index ?s2 < p \<and> p < h \<longrightarrow> IS_TRAP (op (instrs ?s2 p))"
      by blast+
    have a: "s1 = s\<lparr>fetch_index := h, doneCount := doneCount s + (h - fetch_index s - 1)\<rparr>"
      using ih(1) by simp
    have b: "\<forall>p. fetch_index s < p \<and> p < h \<longrightarrow> IS_TRAP (op (instrs s p))"
    proof (intro allI impI)
      fix p assume p: "fetch_index s < p \<and> p < h"
      show "IS_TRAP (op (instrs s p))"
      proof (cases "p = fetch_index s + 1")
        case True
        then show ?thesis using \<open>IS_TRAP (op (instrs s (fetch_index s + 1)))\<close> by simp
      next
        case False
        then have "fetch_index ?s2 < p \<and> p < h" using p by simp
        then show ?thesis using ih(2) by simp
      qed
    qed
    show ?thesis using a b by blast
  next
    case False
    have "s1 = ?s1" "h = fetch_index s + 1"
      using "1.prems" g False by (subst (asm) fetch_loop.simps; simp add: Let_def)+
    then show ?thesis by auto
  qed
qed

lemma filter_upto_traps:
  assumes "\<forall>p. a \<le> p \<and> p < h \<longrightarrow> P p" "\<not> P h" "a \<le> h"
  shows "int (length (filter P [a..h])) = h - a"
proof -
  have "[a..h] = [a..h - 1] @ [h]" using assms(3) by (rule upto_rec2)
  moreover have "filter P [a..h - 1] = [a..h - 1]"
    using assms(1) by (intro filter_True) auto
  ultimately show ?thesis using assms(2,3) by simp
qed

text \<open>What \<^verbatim>\<open>fetch_To_dispatch\<close> does to a state with a well-formed queue.\<close>

lemma fetch_To_dispatch_effect:
  assumes qo: "queue_ok s" and run: "fetch_To_dispatch m c s = Inr s'"
  obtains (idle) "s' = s"
      "\<not> (instr_queue_size s < int INSTR_QUEUE_SIZE \<and> fetch_index s < sim_num_insn m)"
  | (fetch) h where "instr_queue_size s < int INSTR_QUEUE_SIZE" "fetch_index s < sim_num_insn m"
      "fetch_index s < h" "h \<le> sim_num_insn m" "\<not> IS_TRAP (op (instrs s h))"
      "\<forall>p. fetch_index s < p \<and> p < h \<longrightarrow> IS_TRAP (op (instrs s p))"
      "s' = s\<lparr>fetch_index := h, doneCount := doneCount s + (h - fetch_index s - 1),
              instr_queue := (instr_queue s)(ifq_tail s := Some h),
              instrs := (instrs s)(h := (instrs s h)\<lparr>tom_dispatch_cycle := c\<rparr>),
              ifq_tail := (ifq_tail s + 1) mod INSTR_QUEUE_SIZE,
              instr_queue_size := instr_queue_size s + 1\<rparr>"
      "\<And>k. int k < instr_queue_size s \<Longrightarrow> queue_at s' k = queue_at s k"
      "queue_at s' (nat (instr_queue_size s)) = Some h"
      "\<And>q. in_queue s' q \<longleftrightarrow> in_queue s q \<or> q = h"
proof (cases "instr_queue_size s < int INSTR_QUEUE_SIZE \<and> fetch_index s < sim_num_insn m")
  case False
  then have "s' = s" using run by (auto simp: fetch_To_dispatch_def)
  then show ?thesis using idle False by blast
next
  case g: True
  from run g obtain s1 h where fl: "fetch_loop m s = Inr (s1, h)"
    by (auto simp: fetch_To_dispatch_def fetch_def split: sum.splits)
  from fetch_loop_effect[OF fl] have
    h: "fetch_index s < h" "h \<le> sim_num_insn m" "\<not> IS_TRAP (op (instrs s h))"
    by blast+
  from fetch_loop_count[OF fl] have
    s1: "s1 = s\<lparr>fetch_index := h, doneCount := doneCount s + (h - fetch_index s - 1)\<rparr>"
    and tr: "\<forall>p. fetch_index s < p \<and> p < h \<longrightarrow> IS_TRAP (op (instrs s p))"
    by blast+
  define T where "T = ifq_tail s"
  define n where "n = nat (instr_queue_size s)"
  have s': "s' = s\<lparr>fetch_index := h, doneCount := doneCount s + (h - fetch_index s - 1),
                  instr_queue := (instr_queue s)(T := Some h),
                  instrs := (instrs s)(h := (instrs s h)\<lparr>tom_dispatch_cycle := c\<rparr>),
                  ifq_tail := (T + 1) mod INSTR_QUEUE_SIZE,
                  instr_queue_size := instr_queue_size s + 1\<rparr>"
    using run g fl unfolding s1 T_def
    by (simp add: fetch_To_dispatch_def fetch_def)
  have n: "int n = instr_queue_size s" "n < 10"
    using qo g unfolding n_def queue_ok_def by (auto simp: INSTR_QUEUE_SIZE_def)
  have T: "T = (ifq_head s + n) mod 10"
    using qo unfolding T_def n_def queue_ok_def by (simp add: INSTR_QUEUE_SIZE_def)
  have old: "queue_at s' k = queue_at s k" if "k < n" for k
    using mod_window[OF that n(2), of "ifq_head s"]
    unfolding s' queue_at_def T by (simp add: INSTR_QUEUE_SIZE_def)
  have new: "queue_at s' n = Some h"
    unfolding s' queue_at_def T by (simp add: INSTR_QUEUE_SIZE_def)
  have lt: "int k < instr_queue_size s' \<longleftrightarrow> k < n \<or> k = n" for k
    unfolding s' using n(1) by auto
  have iq: "in_queue s' q \<longleftrightarrow> in_queue s q \<or> q = h" for q
  proof
    assume "in_queue s' q"
    then obtain k where k: "k < n \<or> k = n" "queue_at s' k = Some q"
      unfolding in_queue_def lt by blast
    show "in_queue s q \<or> q = h"
    proof (cases "k = n")
      case True
      then show ?thesis using k(2) new by simp
    next
      case False
      then have "k < n" using k(1) by simp
      then have "int k < instr_queue_size s" "queue_at s k = Some q"
        using n(1) old k(2) by simp_all
      then show ?thesis unfolding in_queue_def by blast
    qed
  next
    assume a: "in_queue s q \<or> q = h"
    show "in_queue s' q"
    proof (cases "q = h")
      case True
      then show ?thesis unfolding in_queue_def lt using new by blast
    next
      case False
      then obtain k where "int k < instr_queue_size s" "queue_at s k = Some q"
        using a unfolding in_queue_def by blast
      then have "k < n" "queue_at s' k = Some q" using n(1) old by simp_all
      then show ?thesis unfolding in_queue_def lt by blast
    qed
  qed
  have old': "\<And>k. int k < instr_queue_size s \<Longrightarrow> queue_at s' k = queue_at s k"
    using old n(1) by simp
  show ?thesis
    by (rule fetch[of h]) (use g h tr s' old' new iq in \<open>simp_all add: T_def n_def\<close>)
qed

text \<open>What \<^verbatim>\<open>dispatch_To_issue\<close> does to a state with a well-formed queue.\<close>

lemma dispatch_To_issue_effect:
  assumes qo: "queue_ok s" and run: "dispatch_To_issue m c s = Inr s'"
  obtains (empty) "s' = s" "instr_queue_size s \<le> 0"
  | (stall) p where "s' = s" "0 < instr_queue_size s" "queue_at s 0 = Some p"
      "\<not> (IS_UNCOND_CTRL (op (instrs s p)) \<or> IS_COND_CTRL (op (instrs s p)))"
      "if USES_FP_FU (op (instrs s p)) then \<forall>i<RESERV_FP_SIZE. reservFP s i \<noteq> None
       else \<forall>i<RESERV_INT_SIZE. reservINT s i \<noteq> None"
  | (ctrl) p where "0 < instr_queue_size s" "queue_at s 0 = Some p"
      "IS_UNCOND_CTRL (op (instrs s p)) \<or> IS_COND_CTRL (op (instrs s p))"
      "s' = (pop_head s)\<lparr>doneCount := doneCount s + 1\<rparr>"
  | (fp) p i where "0 < instr_queue_size s" "queue_at s 0 = Some p"
      "\<not> (IS_UNCOND_CTRL (op (instrs s p)) \<or> IS_COND_CTRL (op (instrs s p)))"
      "USES_FP_FU (op (instrs s p))" "i < RESERV_FP_SIZE" "reservFP s i = None"
      "map_operands m p (pop_head (set_issue_cycle p c
          (s\<lparr>reservFP := (reservFP s)(i := Some p)\<rparr>))) = Inr s'"
  | (int) p i where "0 < instr_queue_size s" "queue_at s 0 = Some p"
      "\<not> (IS_UNCOND_CTRL (op (instrs s p)) \<or> IS_COND_CTRL (op (instrs s p)))"
      "\<not> USES_FP_FU (op (instrs s p))" "USES_INT_FU (op (instrs s p))"
      "i < RESERV_INT_SIZE" "reservINT s i = None"
      "map_operands m p (pop_head (set_issue_cycle p c
          (s\<lparr>reservINT := (reservINT s)(i := Some p)\<rparr>))) = Inr s'"
proof (cases "instr_queue_size s > 0")
  case False
  then have "s' = s" using run by (simp add: dispatch_To_issue_def)
  then show ?thesis using empty False by simp
next
  case sz: True
  have h0: "queue_at s 0 = instr_queue s (ifq_head s)"
    using qo by (simp add: queue_at_def queue_ok_def)
  from run sz obtain p where hd: "instr_queue s (ifq_head s) = Some p"
    by (auto simp: dispatch_To_issue_def split: option.splits)
  then have q0: "queue_at s 0 = Some p" using h0 by simp
  let ?opc = "op (instrs s p)"
  consider (c) "IS_UNCOND_CTRL ?opc \<or> IS_COND_CTRL ?opc"
    | (f) "\<not> (IS_UNCOND_CTRL ?opc \<or> IS_COND_CTRL ?opc)" "USES_FP_FU ?opc"
    | (i) "\<not> (IS_UNCOND_CTRL ?opc \<or> IS_COND_CTRL ?opc)" "\<not> USES_FP_FU ?opc" "USES_INT_FU ?opc"
    | (b) "\<not> (IS_UNCOND_CTRL ?opc \<or> IS_COND_CTRL ?opc)" "\<not> USES_FP_FU ?opc" "\<not> USES_INT_FU ?opc"
    by blast
  then show ?thesis
  proof cases
    case c
    then have "s' = (pop_head s)\<lparr>doneCount := doneCount s + 1\<rparr>"
      using run sz hd by (simp add: dispatch_To_issue_def Let_def)
    then show ?thesis using ctrl[of p] sz q0 c by blast
  next
    case f
    show ?thesis
    proof (cases "find (\<lambda>i. reservFP s i = None) [0..<RESERV_FP_SIZE]")
      case None
      then have "s' = s" using run sz hd f by (simp add: dispatch_To_issue_def Let_def)
      moreover have "\<forall>i<RESERV_FP_SIZE. reservFP s i \<noteq> None"
        using None by (simp add: find_upt_None)
      ultimately show ?thesis using stall[of p] sz q0 f by simp
    next
      case (Some i)
      then have i: "i < RESERV_FP_SIZE" "reservFP s i = None"
        by (simp_all add: find_upt_Some)
      have "map_operands m p (pop_head (set_issue_cycle p c
          (s\<lparr>reservFP := (reservFP s)(i := Some p)\<rparr>))) = Inr s'"
        using run sz hd f Some by (simp add: dispatch_To_issue_def Let_def)
      then show ?thesis using fp[of p i] sz q0 f i by blast
    qed
  next
    case i
    show ?thesis
    proof (cases "find (\<lambda>i. reservINT s i = None) [0..<RESERV_INT_SIZE]")
      case None
      then have "s' = s" using run sz hd i by (simp add: dispatch_To_issue_def Let_def)
      moreover have "\<forall>i<RESERV_INT_SIZE. reservINT s i \<noteq> None"
        using None by (simp add: find_upt_None)
      ultimately show ?thesis using stall[of p] sz q0 i by simp
    next
      case (Some j)
      then have j: "j < RESERV_INT_SIZE" "reservINT s j = None"
        by (simp_all add: find_upt_Some)
      have "map_operands m p (pop_head (set_issue_cycle p c
          (s\<lparr>reservINT := (reservINT s)(j := Some p)\<rparr>))) = Inr s'"
        using run sz hd i Some by (simp add: dispatch_To_issue_def Let_def)
      then show ?thesis using int[of p j] sz q0 i j by blast
    qed
  next
    case b
    then show ?thesis using run sz hd by (simp add: dispatch_To_issue_def Let_def)
  qed
qed

subsection \<open>The winner of the arbitration\<close>

lemma arb_int_seen:
  assumes step: "arb_int c i (oldest, oi, t) = Inr (oldest', oi', t')"
      and acc: "(oi = None \<longrightarrow> oldest = -1 \<and> S = {}) \<and> (\<forall>w. oi = Some w \<longrightarrow> w \<in> S)"
  shows "(oi' = None \<longrightarrow> oldest' = -1 \<and>
            S \<union> {p. fuINT t i = Some p \<and> c \<ge> tom_execute_cycle (instrs t p) + FU_INT_LATENCY
                     \<and> \<not> IS_STORE (op (instrs t p))} = {}) \<and>
         (\<forall>w. oi' = Some w \<longrightarrow>
            w \<in> S \<union> {p. fuINT t i = Some p \<and> c \<ge> tom_execute_cycle (instrs t p) + FU_INT_LATENCY
                     \<and> \<not> IS_STORE (op (instrs t p))})"
  using step
proof (cases rule: arb_int_cases)
  case (store p t0)
  then show ?thesis using acc by auto
next
  case (pick p)
  then show ?thesis using acc by (auto split: if_splits)
next
  case skip
  then show ?thesis using acc by auto
qed

lemma arb_fp_seen:
  assumes step: "arb_fp c (oldest, oi, t) = (oldest', oi', t')"
      and acc: "(oi = None \<longrightarrow> oldest = -1 \<and> S = {}) \<and> (\<forall>w. oi = Some w \<longrightarrow> w \<in> S)"
  shows "(oi' = None \<longrightarrow> oldest' = -1 \<and>
            S \<union> {p. fuFP t 0 = Some p \<and> c \<ge> tom_execute_cycle (instrs t p) + FU_FP_LATENCY} = {}) \<and>
         (\<forall>w. oi' = Some w \<longrightarrow>
            w \<in> S \<union> {p. fuFP t 0 = Some p \<and> c \<ge> tom_execute_cycle (instrs t p) + FU_FP_LATENCY})"
proof (cases "fuFP t 0")
  case None
  then have "oi' = oi" "oldest' = oldest" using step by (simp_all add: arb_fp_def)
  then show ?thesis using acc None by simp
next
  case (Some p)
  show ?thesis
  proof (cases "c \<ge> tom_execute_cycle (instrs t p) + FU_FP_LATENCY")
    case False
    then have "oi' = oi" "oldest' = oldest" using step Some by (simp_all add: arb_fp_def)
    then show ?thesis using acc Some False by simp
  next
    case True
    show ?thesis
    proof (cases "oldest = -1 \<or> index (instrs t p) < oldest")
      case pick: True
      then have "oi' = Some p" using step Some True by (auto simp: arb_fp_def)
      then show ?thesis using Some True by simp
    next
      case keep: False
      then have e: "oi' = oi" "oldest' = oldest" using step Some True by (auto simp: arb_fp_def)
      have "oi \<noteq> None" using keep acc by auto
      then show ?thesis using acc e by auto
    qed
  qed
qed

lemma execute_To_CDB_winner:
  assumes ok: "slots_ok s"
  obtains s' wo where "execute_To_CDB c s = Inr s'"
    "released ({p \<in> occ FU_INT_SIZE (fuINT s). cstore c s p} \<union> set_option wo) s s'"
    "commonDataBus s' = (case wo of None \<Rightarrow> commonDataBus s | Some w \<Rightarrow> Some w)"
    "case wo of None \<Rightarrow> \<forall>p. \<not> eligible c s p | Some w \<Rightarrow> eligible c s w"
    "instrs s' = (case wo of None \<Rightarrow> instrs s
                  | Some w \<Rightarrow> (instrs s)(w := (instrs s w)\<lparr>tom_cdb_cycle := c\<rparr>))"
    "doneCount s' = doneCount s
           + int (length (filter (\<lambda>k. \<exists>p. fuINT s k = Some p \<and> cstore c s p) [0..<FU_INT_SIZE]))"
    "instr_queue s' = instr_queue s" "instr_queue_size s' = instr_queue_size s"
    "ifq_head s' = ifq_head s" "ifq_tail s' = ifq_tail s" "map_table s' = map_table s"
    "fetch_index s' = fetch_index s"
proof -
  let ?R0 = "{p. fuINT s 0 = Some p \<and> cstore c s p}"
  let ?R1 = "{p. fuINT s (Suc 0) = Some p \<and> cstore c s p}"
  let ?C0 = "{p. fuINT s 0 = Some p \<and> c \<ge> tom_execute_cycle (instrs s p) + FU_INT_LATENCY
                     \<and> \<not> IS_STORE (op (instrs s p))}"
  let ?C1 = "{p. fuINT s (Suc 0) = Some p \<and> c \<ge> tom_execute_cycle (instrs s p) + FU_INT_LATENCY
                     \<and> \<not> IS_STORE (op (instrs s p))}"
  let ?CF = "{p. fuFP s 0 = Some p \<and> c \<ge> tom_execute_cycle (instrs s p) + FU_FP_LATENCY}"
  obtain o1 oi1 t1 where s1: "arb_int c 0 (-1, None, s) = Inr (o1, oi1, t1)"
    using arb_int_Inr[of c 0 "(-1, None, s)"] by (metis prod_cases3)
  obtain o2 oi2 t2 where s2: "arb_int c (Suc 0) (o1, oi1, t1) = Inr (o2, oi2, t2)"
    using arb_int_Inr[of c "Suc 0" "(o1, oi1, t1)"] by (metis prod_cases3)
  obtain o3 oi3 t3 where s3: "arb_fp c (o2, oi2, t2) = (o3, oi3, t3)"
    by (metis prod_cases3)
  note e1 = arb_int_effect[OF s1 ok]
  have ins1: "instrs t1 = instrs s" using e1(3) by simp
  have ok1: "slots_ok t1" using released_slots_ok[OF e1(1) ok] ins1 by simp
  note e2 = arb_int_effect[OF s2 ok1]
  have ins2: "instrs t2 = instrs s" using e2(3) ins1 by simp
  have ok2: "slots_ok t2" using released_slots_ok[OF e2(1) ok1] ins1 ins2 by simp
  have u: "uniq FU_INT_SIZE (fuINT s)" using ok by (simp add: slots_ok_def)
  have "\<not> (\<exists>p\<in>?R0. fuINT s (Suc 0) = Some p)"
  proof
    assume "\<exists>p\<in>?R0. fuINT s (Suc 0) = Some p"
    then have "fuINT s 0 = fuINT s (Suc 0)" "fuINT s 0 \<noteq> None" by auto
    then have "(0::nat) = Suc 0" using u unfolding uniq_def FU_INT_SIZE_def
      by (metis less_2_iff)
    then show False by simp
  qed
  then have slot1: "fuINT t1 (Suc 0) = fuINT s (Suc 0)"
    using e1(1) by (simp add: released_def vacate_def)
  have R1: "{p. fuINT t1 (Suc 0) = Some p \<and> cstore c t1 p} = ?R1"
    using slot1 ins1 by (simp add: cstore_def)
  have rel2: "released (?R0 \<union> ?R1) s t2"
    using released_trans[OF e1(1) e2(1)] unfolding R1 .
  have t3: "t3 = t2" using arb_fp_effect(1)[OF s3] .
  have cls_fp: "\<And>p. p \<in> occ FU_FP_SIZE (fuFP s) \<Longrightarrow> \<not> IS_STORE (op (instrs s p))"
    using ok by (auto simp: slots_ok_def USES_INT_FU_def)
  have "(?R0 \<union> ?R1) \<inter> occ FU_FP_SIZE (fuFP s) = {}"
    using cls_fp by (auto simp: cstore_def)
  then have fp2: "fuFP t2 = fuFP s"
    using rel2 by (simp add: released_def vacate_absent)
  have a0: "((None :: instr_ptr option) = None \<longrightarrow> (-1::int) = -1 \<and> ({} :: instr_ptr set) = {}) \<and>
      (\<forall>w. (None :: instr_ptr option) = Some w \<longrightarrow> w \<in> ({} :: instr_ptr set))"
    by simp
  note a1 = arb_int_seen[OF s1 a0]
  have a1': "(oi1 = None \<longrightarrow> o1 = -1 \<and> ?C0 = {}) \<and> (\<forall>w. oi1 = Some w \<longrightarrow> w \<in> ?C0)"
    using a1 by simp
  note a2 = arb_int_seen[OF s2 a1']
  have a2': "(oi2 = None \<longrightarrow> o2 = -1 \<and> ?C0 \<union> ?C1 = {}) \<and> (\<forall>w. oi2 = Some w \<longrightarrow> w \<in> ?C0 \<union> ?C1)"
    using a2 unfolding slot1 ins1 by simp
  note a3 = arb_fp_seen[OF s3 a2']
  have a3': "(oi3 = None \<longrightarrow> ?C0 \<union> ?C1 \<union> ?CF = {}) \<and> (\<forall>w. oi3 = Some w \<longrightarrow> w \<in> ?C0 \<union> ?C1 \<union> ?CF)"
    using a3 unfolding fp2 ins2 by simp
  have nostore: "\<And>p. fuFP s 0 = Some p \<Longrightarrow> \<not> IS_STORE (op (instrs s p))"
    using cls_fp by (auto simp: occ_def FU_FP_SIZE_def)
  have elig: "\<And>p. eligible c s p \<longleftrightarrow> p \<in> ?C0 \<union> ?C1 \<union> ?CF"
    using nostore
    by (auto simp: eligible_def FU_INT_SIZE_def FU_FP_SIZE_def less_2_iff)
  have R01: "?R0 \<union> ?R1 = {p \<in> occ FU_INT_SIZE (fuINT s). cstore c s p}"
    by (auto simp: occ_def FU_INT_SIZE_def less_2_iff)
  have dc2: "doneCount t2 = doneCount s
      + int (length (filter (\<lambda>k. \<exists>p. fuINT s k = Some p \<and> cstore c s p) [0..<FU_INT_SIZE]))"
  proof -
    have A: "(\<exists>p. fuINT t1 (Suc 0) = Some p \<and> cstore c t1 p)
        = (\<exists>p. fuINT s (Suc 0) = Some p \<and> cstore c s p)"
      using slot1 ins1 by (simp add: cstore_def)
    show ?thesis
      using e1(2) e2(2) unfolding A by (simp add: FU_INT_SIZE_def upt_2)
  qed
  have unf: "execute_To_CDB c s =
      (case oi3 of None \<Rightarrow> Inr t2
       | Some w \<Rightarrow>
          (case free_stations w
                  (t2\<lparr>instrs := (instrs t2)(w := (instrs t2 w)\<lparr>tom_cdb_cycle := c\<rparr>)\<rparr>) of
             Inl e \<Rightarrow> Inl e
           | Inr s2 \<Rightarrow> Inr (s2\<lparr>commonDataBus := Some w\<rparr>)))"
    by (simp add: execute_To_CDB_def FU_INT_SIZE_def upt_2 s1 s2 s3 t3)
  show ?thesis
  proof (cases oi3)
    case None
    have ne: "\<forall>p. \<not> eligible c s p" using a3' None elig by blast
    show ?thesis
      by (rule that[of t2 None])
         (use unf None rel2 dc2 e1(3) e2(3) ins2 ne in \<open>simp_all add: R01\<close>)
  next
    case (Some w)
    have el: "eligible c s w" using a3' Some elig by blast
    then have w: "w \<in> occ FU_INT_SIZE (fuINT s) \<union> occ FU_FP_SIZE (fuFP s)"
      by (auto simp: eligible_def occ_def)
    let ?t = "t2\<lparr>instrs := (instrs t2)(w := (instrs t2 w)\<lparr>tom_cdb_cycle := c\<rparr>)\<rparr>"
    have okt: "slots_ok ?t"
      using ok2 by (simp add: slots_ok_def)
    have "USES_INT_FU (op (instrs ?t w)) \<or> USES_FP_FU (op (instrs ?t w))"
      using w ok ins2 by (auto simp: slots_ok_def)
    then obtain s2' where fs: "free_stations w ?t = Inr s2'"
      using free_stations_Inr_iff[of w ?t] by blast
    have "released {w} ?t s2'" using free_stations_released[OF fs okt] .
    then have "released {w} t2 s2'" by (simp add: released_def)
    from released_trans[OF rel2 this]
    have rel: "released (?R0 \<union> ?R1 \<union> {w}) s (s2'\<lparr>commonDataBus := Some w\<rparr>)"
      by (simp add: released_def)
    show ?thesis
      by (rule that[of "s2'\<lparr>commonDataBus := Some w\<rparr>" "Some w"])
         (use unf Some fs rel dc2 e1(3) e2(3) el ins2 free_stations_frame[OF fs]
           in \<open>simp_all add: R01\<close>)
  qed
qed

subsection \<open>What is counted, and where\<close>

lemma issue_To_execute_fields:
  "reservINT (issue_To_execute c s) = reservINT s \<and> reservFP (issue_To_execute c s) = reservFP s \<and>
   instr_queue (issue_To_execute c s) = instr_queue s \<and>
   instr_queue_size (issue_To_execute c s) = instr_queue_size s \<and>
   ifq_head (issue_To_execute c s) = ifq_head s \<and> ifq_tail (issue_To_execute c s) = ifq_tail s \<and>
   fetch_index (issue_To_execute c s) = fetch_index s \<and>
   commonDataBus (issue_To_execute c s) = commonDataBus s \<and>
   (\<forall>p. \<exists>e. instrs (issue_To_execute c s) p = (instrs s p)\<lparr>tom_execute_cycle := e\<rparr>)"
proof -
  let ?P = "\<lambda>t. reservINT t = reservINT s \<and> reservFP t = reservFP s \<and>
   instr_queue t = instr_queue s \<and> instr_queue_size t = instr_queue_size s \<and>
   ifq_head t = ifq_head s \<and> ifq_tail t = ifq_tail s \<and> fetch_index t = fetch_index s \<and>
   commonDataBus t = commonDataBus s \<and>
   (\<forall>p. \<exists>e. instrs t p = (instrs s p)\<lparr>tom_execute_cycle := e\<rparr>)"
  have upd: "\<exists>e. ((instrs t)(w := (instrs t w)\<lparr>tom_execute_cycle := c\<rparr>)) p
                 = (instrs s p)\<lparr>tom_execute_cycle := e\<rparr>"
    if a: "\<forall>p. \<exists>e. instrs t p = (instrs s p)\<lparr>tom_execute_cycle := e\<rparr>" for t :: state and w p
  proof -
    obtain e where e: "instrs t p = (instrs s p)\<lparr>tom_execute_cycle := e\<rparr>" using a by blast
    show ?thesis
    proof (cases "p = w")
      case True
      have "((instrs t)(w := (instrs t w)\<lparr>tom_execute_cycle := c\<rparr>)) p
                 = (instrs s p)\<lparr>tom_execute_cycle := c\<rparr>"
        using True e by simp
      then show ?thesis by blast
    next
      case False
      then show ?thesis using e by auto
    qed
  qed
  have s0: "?P s"
  proof -
    have "\<exists>e. instrs s p = (instrs s p)\<lparr>tom_execute_cycle := e\<rparr>" for p
      by (rule exI[of _ "tom_execute_cycle (instrs s p)"]) simp
    then show ?thesis by simp
  qed
  have 1: "?P (fold (issue_int c) [0..<FU_INT_SIZE] s)"
  proof (rule fold_invariant[where Q="\<lambda>_. True" and P="?P"])
    show "?P s" by (rule s0)
  next
    fix x and t :: state assume t: "?P t"
    show "?P (issue_int c x t)"
    proof (cases c x t rule: issue_int_cases)
      case same
      then show ?thesis using t by simp
    next
      case (start k p)
      show ?thesis unfolding start(5) using t upd[of t] by simp
    qed
  qed simp
  show ?thesis
    unfolding issue_To_execute_def
  proof (rule fold_invariant[where Q="\<lambda>_. True" and P="?P"])
    show "?P (fold (issue_int c) [0..<FU_INT_SIZE] s)" by (rule 1)
  next
    fix x and t :: state assume t: "?P t"
    show "?P (issue_fp c x t)"
    proof (cases c x t rule: issue_fp_cases)
      case same
      then show ?thesis using t by simp
    next
      case (start k p)
      show ?thesis unfolding start(5) using t upd[of t] by simp
    qed
  qed simp
qed

lemma issue_To_execute_places:
  "in_queue (issue_To_execute c s) = in_queue s" "in_rs (issue_To_execute c s) = in_rs s"
  "on_bus (issue_To_execute c s) = on_bus s" "queue_at (issue_To_execute c s) = queue_at s"
  "op (instrs (issue_To_execute c s) p) = op (instrs s p)"
  "index (instrs (issue_To_execute c s) p) = index (instrs s p)"
  "Q (instrs (issue_To_execute c s) p) = Q (instrs s p)"
  "r_in (instrs (issue_To_execute c s) p) = r_in (instrs s p)"
  "r_out (instrs (issue_To_execute c s) p) = r_out (instrs s p)"
  "tom_dispatch_cycle (instrs (issue_To_execute c s) p) = tom_dispatch_cycle (instrs s p)"
proof -
  note f = issue_To_execute_fields[of c s]
  show "in_queue (issue_To_execute c s) = in_queue s" "queue_at (issue_To_execute c s) = queue_at s"
    using in_queue_cong[of "issue_To_execute c s" s] f by simp_all
  show "in_rs (issue_To_execute c s) = in_rs s"
    using in_rs_cong[of "issue_To_execute c s" s] f by simp
  show "on_bus (issue_To_execute c s) = on_bus s"
    by (rule ext) (simp add: on_bus_def f)
  obtain e where "instrs (issue_To_execute c s) p = (instrs s p)\<lparr>tom_execute_cycle := e\<rparr>"
    using f by blast
  then show "op (instrs (issue_To_execute c s) p) = op (instrs s p)"
  "index (instrs (issue_To_execute c s) p) = index (instrs s p)"
  "Q (instrs (issue_To_execute c s) p) = Q (instrs s p)"
  "r_in (instrs (issue_To_execute c s) p) = r_in (instrs s p)"
  "r_out (instrs (issue_To_execute c s) p) = r_out (instrs s p)"
  "tom_dispatch_cycle (instrs (issue_To_execute c s) p) = tom_dispatch_cycle (instrs s p)"
    by simp_all
qed

lemma CDB_To_retire_places:
  assumes "CDB_To_retire m c s = Inr s'"
  shows "in_queue s' = in_queue s" "in_rs s' = in_rs s" "in_fu s' = in_fu s"
    "commonDataBus s' = None" "fetch_index s' = fetch_index s"
    "doneCount s' = doneCount s + (if commonDataBus s = None then 0 else 1)"
    "queue_at s' = queue_at s"
    "\<And>p. op (instrs s' p) = op (instrs s p)"
    "\<And>p. index (instrs s' p) = index (instrs s p)"
    "\<And>p. tom_execute_cycle (instrs s' p) = tom_execute_cycle (instrs s p)"
proof -
  from CDB_To_retire_effect[OF assms]
  consider "commonDataBus s = None" "s' = s"
    | t where "waits_only s t" "commonDataBus s \<noteq> None"
        "s' = t\<lparr>commonDataBus := None, doneCount := doneCount t + 1\<rparr>"
    by (elim disjE exE conjE) (erule meta_mp | assumption)+
  then have "in_queue s' = in_queue s \<and> in_rs s' = in_rs s \<and> in_fu s' = in_fu s \<and>
    commonDataBus s' = None \<and> fetch_index s' = fetch_index s \<and>
    doneCount s' = doneCount s + (if commonDataBus s = None then 0 else 1) \<and>
    queue_at s' = queue_at s \<and>
    (\<forall>p. op (instrs s' p) = op (instrs s p)) \<and>
    (\<forall>p. index (instrs s' p) = index (instrs s p)) \<and>
    (\<forall>p. tom_execute_cycle (instrs s' p) = tom_execute_cycle (instrs s p))"
  proof cases
    case 1
    then show ?thesis by simp
  next
    case 2
    note w = waits_only_places[OF 2(1)]
    have d: "doneCount t = doneCount s" using 2(1) by (simp add: waits_only_def)
    have "in_queue s' = in_queue t" "queue_at s' = queue_at t"
      by (rule in_queue_cong; simp add: 2(3))+
    moreover have "in_rs s' = in_rs t" by (rule in_rs_cong) (simp_all add: 2(3))
    moreover have "in_fu s' = in_fu t" by (rule in_fu_cong) (simp_all add: 2(3))
    ultimately show ?thesis
      using w d 2(2) waits_only_fields[OF 2(1)] by (simp add: 2(3))
  qed
  then show "in_queue s' = in_queue s" "in_rs s' = in_rs s" "in_fu s' = in_fu s"
    "commonDataBus s' = None" "fetch_index s' = fetch_index s"
    "doneCount s' = doneCount s + (if commonDataBus s = None then 0 else 1)"
    "queue_at s' = queue_at s"
    "\<And>p. op (instrs s' p) = op (instrs s p)"
    "\<And>p. index (instrs s' p) = index (instrs s p)"
    "\<And>p. tom_execute_cycle (instrs s' p) = tom_execute_cycle (instrs s p)"
    by blast+
qed

lemma admit_places:
  assumes qo: "queue_ok s" and sz: "0 < instr_queue_size s" and hd: "queue_at s 0 = Some p"
      and u: "(i < RESERV_FP_SIZE \<and> reservFP s i = None \<and> u = s\<lparr>reservFP := (reservFP s)(i := Some p)\<rparr>)
            \<or> (i < RESERV_INT_SIZE \<and> reservINT s i = None \<and> u = s\<lparr>reservINT := (reservINT s)(i := Some p)\<rparr>)"
      and run: "map_operands m p (pop_head (set_issue_cycle p c u)) = Inr s'"
  shows "\<And>q. in_queue s' q \<longleftrightarrow> in_queue s q \<and> q \<noteq> p"
    "\<And>q. in_rs s' q \<longleftrightarrow> in_rs s q \<or> q = p"
    "in_fu s' = in_fu s" "on_bus s' = on_bus s" "fetch_index s' = fetch_index s"
    "doneCount s' = doneCount s"
    "\<And>q. op (instrs s' q) = op (instrs s q)"
    "\<And>q. index (instrs s' q) = index (instrs s q)"
    "\<And>q. tom_execute_cycle (instrs s' q) = tom_execute_cycle (instrs s q)"
    "\<And>k. queue_at s' k = queue_at s (Suc k)"
    "instr_queue_size s' = instr_queue_size s - 1"
proof -
  let ?t = "pop_head (set_issue_cycle p c u)"
  note w = waits_only_places[OF map_operands_waits[OF run]]
  note f = waits_only_fields[OF map_operands_waits[OF run]]
  have uq: "instr_queue u = instr_queue s" "instr_queue_size u = instr_queue_size s"
      "ifq_head u = ifq_head s" "fuINT u = fuINT s" "fuFP u = fuFP s"
      "commonDataBus u = commonDataBus s" "fetch_index u = fetch_index s"
      "doneCount u = doneCount s" "instrs u = instrs s"
    using u by auto
  have tq: "in_queue ?t = in_queue (pop_head s)" "queue_at ?t = queue_at (pop_head s)"
    by (rule in_queue_cong; simp add: pop_head_fields set_issue_cycle_def uq)+
  show "\<And>q. in_queue s' q \<longleftrightarrow> in_queue s q \<and> q \<noteq> p"
    unfolding w(1) tq using in_queue_pop[OF qo sz hd] by simp
  show "\<And>k. queue_at s' k = queue_at s (Suc k)"
    unfolding w(6) tq by (rule queue_at_pop)
  have "in_rs ?t = in_rs u" by (rule in_rs_cong) (simp_all add: pop_head_fields set_issue_cycle_def)
  moreover have "in_rs u q \<longleftrightarrow> in_rs s q \<or> q = p" for q
    using u
  proof
    assume a: "i < RESERV_FP_SIZE \<and> reservFP s i = None \<and> u = s\<lparr>reservFP := (reservFP s)(i := Some p)\<rparr>"
    then have "occ RESERV_FP_SIZE (reservFP u) = insert p (occ RESERV_FP_SIZE (reservFP s))"
      using occ_update_free[of i RESERV_FP_SIZE "reservFP s" p] by simp
    moreover have "reservINT u = reservINT s" using a by simp
    ultimately show ?thesis by (auto simp: in_rs_def)
  next
    assume a: "i < RESERV_INT_SIZE \<and> reservINT s i = None \<and> u = s\<lparr>reservINT := (reservINT s)(i := Some p)\<rparr>"
    then have "occ RESERV_INT_SIZE (reservINT u) = insert p (occ RESERV_INT_SIZE (reservINT s))"
      using occ_update_free[of i RESERV_INT_SIZE "reservINT s" p] by simp
    moreover have "reservFP u = reservFP s" using a by simp
    ultimately show ?thesis by (auto simp: in_rs_def)
  qed
  ultimately show "\<And>q. in_rs s' q \<longleftrightarrow> in_rs s q \<or> q = p" unfolding w(2) by simp
  have "in_fu ?t = in_fu s"
    by (rule in_fu_cong) (simp_all add: pop_head_fields set_issue_cycle_def uq)
  then show "in_fu s' = in_fu s" unfolding w(3) .
  have "on_bus ?t = on_bus s"
    by (rule ext) (simp add: on_bus_def pop_head_fields set_issue_cycle_def uq)
  then show "on_bus s' = on_bus s" unfolding w(4) .
  show "fetch_index s' = fetch_index s"
    unfolding w(5) by (simp add: pop_head_fields set_issue_cycle_def uq)
  have "doneCount s' = doneCount ?t"
    using map_operands_waits[OF run] by (simp add: waits_only_def)
  then show "doneCount s' = doneCount s"
    by (simp add: pop_head_fields set_issue_cycle_def uq)
  have "instr_queue_size s' = instr_queue_size ?t"
    using map_operands_waits[OF run] by (simp add: waits_only_def)
  then show "instr_queue_size s' = instr_queue_size s - 1"
    by (simp add: pop_head_fields set_issue_cycle_def uq)
  show "\<And>q. op (instrs s' q) = op (instrs s q)"
    "\<And>q. index (instrs s' q) = index (instrs s q)"
    "\<And>q. tom_execute_cycle (instrs s' q) = tom_execute_cycle (instrs s q)"
    unfolding f by (simp_all add: pop_head_fields set_issue_cycle_def uq)
qed

lemma admit_fp_places:
  assumes qo: "queue_ok s" and sz: "0 < instr_queue_size s" and hd: "queue_at s 0 = Some p"
      and i: "i < RESERV_FP_SIZE" "reservFP s i = None"
      and run: "map_operands m p (pop_head (set_issue_cycle p c
                  (s\<lparr>reservFP := (reservFP s)(i := Some p)\<rparr>))) = Inr s'"
  shows "\<And>q. in_queue s' q \<longleftrightarrow> in_queue s q \<and> q \<noteq> p"
    "\<And>q. in_rs s' q \<longleftrightarrow> in_rs s q \<or> q = p"
    "in_fu s' = in_fu s" "on_bus s' = on_bus s" "fetch_index s' = fetch_index s"
    "doneCount s' = doneCount s"
    "\<And>q. op (instrs s' q) = op (instrs s q)"
    "\<And>q. index (instrs s' q) = index (instrs s q)"
    "\<And>q. tom_execute_cycle (instrs s' q) = tom_execute_cycle (instrs s q)"
    "\<And>k. queue_at s' k = queue_at s (Suc k)"
    "instr_queue_size s' = instr_queue_size s - 1"
proof -
  have u: "(i < RESERV_FP_SIZE \<and> reservFP s i = None \<and>
        s\<lparr>reservFP := (reservFP s)(i := Some p)\<rparr> = s\<lparr>reservFP := (reservFP s)(i := Some p)\<rparr>)
     \<or> (i < RESERV_INT_SIZE \<and> reservINT s i = None \<and>
        s\<lparr>reservFP := (reservFP s)(i := Some p)\<rparr> = s\<lparr>reservINT := (reservINT s)(i := Some p)\<rparr>)"
    using i by simp
  note a = admit_places[OF qo sz hd u run]
  show "\<And>q. in_queue s' q \<longleftrightarrow> in_queue s q \<and> q \<noteq> p"
    "\<And>q. in_rs s' q \<longleftrightarrow> in_rs s q \<or> q = p"
    "in_fu s' = in_fu s" "on_bus s' = on_bus s" "fetch_index s' = fetch_index s"
    "doneCount s' = doneCount s"
    "\<And>q. op (instrs s' q) = op (instrs s q)"
    "\<And>q. index (instrs s' q) = index (instrs s q)"
    "\<And>q. tom_execute_cycle (instrs s' q) = tom_execute_cycle (instrs s q)"
    "\<And>k. queue_at s' k = queue_at s (Suc k)"
    "instr_queue_size s' = instr_queue_size s - 1"
    by (rule a)+
qed

lemma admit_int_places:
  assumes qo: "queue_ok s" and sz: "0 < instr_queue_size s" and hd: "queue_at s 0 = Some p"
      and i: "i < RESERV_INT_SIZE" "reservINT s i = None"
      and run: "map_operands m p (pop_head (set_issue_cycle p c
                  (s\<lparr>reservINT := (reservINT s)(i := Some p)\<rparr>))) = Inr s'"
  shows "\<And>q. in_queue s' q \<longleftrightarrow> in_queue s q \<and> q \<noteq> p"
    "\<And>q. in_rs s' q \<longleftrightarrow> in_rs s q \<or> q = p"
    "in_fu s' = in_fu s" "on_bus s' = on_bus s" "fetch_index s' = fetch_index s"
    "doneCount s' = doneCount s"
    "\<And>q. op (instrs s' q) = op (instrs s q)"
    "\<And>q. index (instrs s' q) = index (instrs s q)"
    "\<And>q. tom_execute_cycle (instrs s' q) = tom_execute_cycle (instrs s q)"
    "\<And>k. queue_at s' k = queue_at s (Suc k)"
    "instr_queue_size s' = instr_queue_size s - 1"
proof -
  have u: "(i < RESERV_FP_SIZE \<and> reservFP s i = None \<and>
        s\<lparr>reservINT := (reservINT s)(i := Some p)\<rparr> = s\<lparr>reservFP := (reservFP s)(i := Some p)\<rparr>)
     \<or> (i < RESERV_INT_SIZE \<and> reservINT s i = None \<and>
        s\<lparr>reservINT := (reservINT s)(i := Some p)\<rparr> = s\<lparr>reservINT := (reservINT s)(i := Some p)\<rparr>)"
    using i by simp
  note a = admit_places[OF qo sz hd u run]
  show "\<And>q. in_queue s' q \<longleftrightarrow> in_queue s q \<and> q \<noteq> p"
    "\<And>q. in_rs s' q \<longleftrightarrow> in_rs s q \<or> q = p"
    "in_fu s' = in_fu s" "on_bus s' = on_bus s" "fetch_index s' = fetch_index s"
    "doneCount s' = doneCount s"
    "\<And>q. op (instrs s' q) = op (instrs s q)"
    "\<And>q. index (instrs s' q) = index (instrs s q)"
    "\<And>q. tom_execute_cycle (instrs s' q) = tom_execute_cycle (instrs s q)"
    "\<And>k. queue_at s' k = queue_at s (Suc k)"
    "instr_queue_size s' = instr_queue_size s - 1"
    by (rule a)+
qed

lemma stores_done_alt:
  "stores_done c s
     = int (length (filter (\<lambda>k. \<exists>p. fuINT s k = Some p \<and> cstore c s p) [0..<FU_INT_SIZE]))"
proof -
  have "(\<lambda>i. case fuINT s i of None \<Rightarrow> False | Some p \<Rightarrow> cstore c s p)
      = (\<lambda>k. \<exists>p. fuINT s k = Some p \<and> cstore c s p)"
    by (rule ext) (simp split: option.splits)
  then show ?thesis by (simp add: stores_done_def)
qed

lemma head_slot:
  assumes "queue_ok s"
  shows "instr_queue s (ifq_head s) = queue_at s 0"
  using assms by (simp add: queue_at_def queue_ok_def)

lemma stage_counted:
  assumes inv: "inv m s" and st: "stage m k c s = Inr s'"
  shows "doneCount s' = doneCount s + counted k c s s'"
proof -
  have qo: "queue_ok s" by (rule invD(2)[OF inv])
  consider "k = 0" | "k = 1" | "k = 2" | "k = 3" | "k \<noteq> 0" "k \<noteq> 1" "k \<noteq> 2" "k \<noteq> 3"
    by blast
  then show ?thesis
  proof cases
    case 1
    then have r: "CDB_To_retire m c s = Inr s'" using st by (simp add: stage_def)
    show ?thesis using CDB_To_retire_places(6)[OF r] 1 by (simp add: counted_def)
  next
    case 2
    then have r: "execute_To_CDB c s = Inr s'" using st by (simp add: stage_def)
    obtain t wo where "execute_To_CDB c s = Inr t"
      "doneCount t = doneCount s
           + int (length (filter (\<lambda>k. \<exists>p. fuINT s k = Some p \<and> cstore c s p) [0..<FU_INT_SIZE]))"
      by (rule execute_To_CDB_winner[OF invD(1)[OF inv], of c]) blast
    then show ?thesis using r 2 by (simp add: counted_def stores_done_alt)
  next
    case 3
    then have "s' = issue_To_execute c s" using st by (simp add: stage_def)
    then show ?thesis using issue_To_execute_frame[of c s] 3 by (simp add: counted_def)
  next
    case 4
    then have r: "dispatch_To_issue m c s = Inr s'" using st by (simp add: stage_def)
    from qo r have "doneCount s' = doneCount s + (if ctrl_at_head s then 1 else 0)"
    proof (cases rule: dispatch_To_issue_effect)
      case empty
      then show ?thesis by (simp add: ctrl_at_head_def)
    next
      case (stall p)
      then show ?thesis by (simp add: ctrl_at_head_def head_slot[OF qo])
    next
      case (ctrl p)
      then show ?thesis by (simp add: ctrl_at_head_def head_slot[OF qo] pop_head_fields)
    next
      case (fp p i)
      have "doneCount s' = doneCount s"
        by (rule admit_fp_places(6)[OF qo fp(1,2,5,6,7)])
      then show ?thesis using fp by (simp add: ctrl_at_head_def head_slot[OF qo])
    next
      case (int p i)
      have "doneCount s' = doneCount s"
        by (rule admit_int_places(6)[OF qo int(1,2,6,7,8)])
      then show ?thesis using int by (simp add: ctrl_at_head_def head_slot[OF qo])
    qed
    then show ?thesis using 4 by (simp add: counted_def)
  next
    case 5
    then have r: "fetch_To_dispatch m c s = Inr s'" using st by (simp add: stage_def)
    from qo r have "doneCount s' = doneCount s + traps_fetched s s'"
    proof (cases rule: fetch_To_dispatch_effect)
      case idle
      then show ?thesis by (simp add: traps_fetched_def)
    next
      case (fetch h)
      have "int (length (filter (\<lambda>p. IS_TRAP (op (instrs s p))) [fetch_index s + 1..h]))
          = h - (fetch_index s + 1)"
        by (rule filter_upto_traps) (use fetch in auto)
      then show ?thesis unfolding traps_fetched_def fetch(7) by simp
    qed
    then show ?thesis using 5 by (simp add: counted_def)
  qed
qed

lemma stage_kinds:
  assumes inv: "inv m s" and k: "kinds_ok s" and st: "stage m k c s = Inr s'"
  shows "kinds_ok s'"
proof -
  have qo: "queue_ok s" by (rule invD(2)[OF inv])
  have kq: "\<And>p. in_queue s p \<Longrightarrow> \<not> IS_TRAP (op (instrs s p))"
    and kr: "\<And>p. in_rs s p \<Longrightarrow> \<not> IS_TRAP (op (instrs s p)) \<and> \<not> IS_UNCOND_CTRL (op (instrs s p))
                         \<and> \<not> IS_COND_CTRL (op (instrs s p))"
    and kb: "\<And>p. on_bus s p \<Longrightarrow> \<not> IS_TRAP (op (instrs s p)) \<and> \<not> IS_UNCOND_CTRL (op (instrs s p))
                         \<and> \<not> IS_COND_CTRL (op (instrs s p)) \<and> \<not> IS_STORE (op (instrs s p))"
    using k unfolding kinds_ok_def by blast+
  consider "k = 0" | "k = 1" | "k = 2" | "k = 3" | "k \<noteq> 0" "k \<noteq> 1" "k \<noteq> 2" "k \<noteq> 3"
    by blast
  then show ?thesis
  proof cases
    case 1
    then have r: "CDB_To_retire m c s = Inr s'" using st by (simp add: stage_def)
    note p = CDB_To_retire_places[OF r]
    show ?thesis unfolding kinds_ok_def p on_bus_def using kq kr by simp
  next
    case 2
    then have r: "execute_To_CDB c s = Inr s'" using st by (simp add: stage_def)
    obtain t wo where t: "execute_To_CDB c s = Inr t"
      "released ({p \<in> occ FU_INT_SIZE (fuINT s). cstore c s p} \<union> set_option wo) s t"
      "commonDataBus t = (case wo of None \<Rightarrow> commonDataBus s | Some w \<Rightarrow> Some w)"
      "case wo of None \<Rightarrow> \<forall>p. \<not> eligible c s p | Some w \<Rightarrow> eligible c s w"
      "instrs t = (case wo of None \<Rightarrow> instrs s
                  | Some w \<Rightarrow> (instrs s)(w := (instrs s w)\<lparr>tom_cdb_cycle := c\<rparr>))"
      "instr_queue t = instr_queue s" "instr_queue_size t = instr_queue_size s"
      "ifq_head t = ifq_head s"
      by (rule execute_To_CDB_winner[OF invD(1)[OF inv], of c]) blast
    have ts: "t = s'" using t(1) r by simp
    have opq: "op (instrs t p) = op (instrs s p)" for p
      unfolding t(5) by (cases wo) simp_all
    have iq: "in_queue t = in_queue s" using in_queue_cong[OF t(6,7,8)] by simp
    have rs: "in_rs t p \<Longrightarrow> in_rs s p" for p
      using released_occ(2,4)[OF t(2)] by (auto simp: in_rs_def)
    have bus: "on_bus t p \<Longrightarrow> on_bus s p \<or> (in_rs s p \<and> \<not> IS_STORE (op (instrs s p)))" for p
    proof (cases wo)
      case None
      then show "on_bus t p \<Longrightarrow> ?thesis" using t(3) by (simp add: on_bus_def)
    next
      case (Some w)
      then have e: "eligible c s w" using t(4) by simp
      then have "in_fu s w" by (auto simp: eligible_def in_fu_def occ_def)
      then have "in_rs s w" using invD(6,7)[OF inv] by (auto simp: in_fu_def in_rs_def)
      moreover have "\<not> IS_STORE (op (instrs s w))" using e by (simp add: eligible_def)
      ultimately show "on_bus t p \<Longrightarrow> ?thesis" using t(3) Some by (auto simp: on_bus_def)
    qed
    show ?thesis unfolding ts[symmetric] kinds_ok_def opq iq
      using kq kr kb rs bus by blast
  next
    case 3
    then have "s' = issue_To_execute c s" using st by (simp add: stage_def)
    then show ?thesis using k unfolding kinds_ok_def by (simp add: issue_To_execute_places)
  next
    case 4
    then have r: "dispatch_To_issue m c s = Inr s'" using st by (simp add: stage_def)
    from qo r show ?thesis
    proof (cases rule: dispatch_To_issue_effect)
      case empty
      then show ?thesis using k by simp
    next
      case (stall p)
      then show ?thesis using k by simp
    next
      case (ctrl p)
      have iq: "in_queue s' q \<longleftrightarrow> in_queue s q \<and> q \<noteq> p" for q
      proof -
        have "in_queue s' = in_queue (pop_head s)"
          by (rule in_queue_cong(1)) (simp_all add: ctrl(4))
        then show ?thesis using in_queue_pop[OF qo ctrl(1,2)] by simp
      qed
      have rs: "in_rs s' = in_rs s" by (rule in_rs_cong) (simp_all add: ctrl(4) pop_head_fields)
      have bs: "on_bus s' = on_bus s" by (rule ext) (simp add: on_bus_def ctrl(4) pop_head_fields)
      have ins: "instrs s' = instrs s" by (simp add: ctrl(4) pop_head_fields)
      show ?thesis unfolding kinds_ok_def iq rs bs ins using kq kr kb by blast
    next
      case (fp p i)
      note a = admit_fp_places[OF qo fp(1,2,5,6,7)]
      have inq: "in_queue s p" unfolding in_queue_def using fp(1,2) by (intro exI[of _ 0]) simp
      show ?thesis unfolding kinds_ok_def a(1) a(2) a(4) a(7)
        using kq kr kb fp(3) kq[OF inq] by blast
    next
      case (int p i)
      note a = admit_int_places[OF qo int(1,2,6,7,8)]
      have inq: "in_queue s p" unfolding in_queue_def using int(1,2) by (intro exI[of _ 0]) simp
      show ?thesis unfolding kinds_ok_def a(1) a(2) a(4) a(7)
        using kq kr kb int(3) kq[OF inq] by blast
    qed
  next
    case 5
    then have r: "fetch_To_dispatch m c s = Inr s'" using st by (simp add: stage_def)
    from qo r show ?thesis
    proof (cases rule: fetch_To_dispatch_effect)
      case idle
      then show ?thesis using k by simp
    next
      case (fetch h)
      have rs: "in_rs s' = in_rs s" by (rule in_rs_cong) (simp_all add: fetch(7))
      have bs: "on_bus s' = on_bus s" by (rule ext) (simp add: on_bus_def fetch(7))
      have opq: "op (instrs s' q) = op (instrs s q)" for q by (simp add: fetch(7))
      show ?thesis unfolding kinds_ok_def fetch(10) rs bs opq
        using kq kr kb fetch(5) by blast
    qed
  qed
qed

lemma run_stages_kinds:
  assumes "wf_ops m tr"
  shows "run_stages m tr n = Inr s \<Longrightarrow> kinds_ok s"
proof (induction n arbitrary: s)
  case 0
  then have s: "s = init_state tr" by simp
  have "\<not> in_queue s p" "\<not> in_rs s p" "\<not> on_bus s p" for p
    unfolding s by (simp_all add: in_queue_def in_rs_def on_bus_def occ_def init_state_def queue_at_def)
  then show ?case by (simp add: kinds_ok_def)
next
  case (Suc n)
  then obtain t where t: "run_stages m tr n = Inr t"
    and st: "stage m (n mod 5) (1 + int (n div 5)) t = Inr s"
    by (auto simp: bind_err_Inr)
  show ?case using stage_kinds[OF inv_run_stages[OF assms t] Suc.IH[OF t] st] .
qed

subsection \<open>Every instruction is counted once\<close>

lemma flight_bounded:
  assumes "inv m s"
  shows "in_flight s \<subseteq> {1..fetch_index s}" "finite (in_flight s)"
proof -
  show "in_flight s \<subseteq> {1..fetch_index s}"
    using invD(5)[OF assms] by (auto simp: in_flight_def)
  then show "finite (in_flight s)" by (rule finite_subset) simp
qed

lemma card_remove:
  assumes "finite A" "p \<in> A"
  shows "int (card (A - {p})) = int (card A) - 1"
proof -
  have "card A > 0" using assms by (auto simp: card_gt_0_iff)
  then show ?thesis using assms by (simp add: card_Diff_singleton of_nat_diff)
qed

lemma card_stores:
  assumes "uniq FU_INT_SIZE (fuINT s)"
  shows "int (card {p \<in> occ FU_INT_SIZE (fuINT s). cstore c s p}) = stores_done c s"
proof -
  let ?A = "\<lambda>k. case fuINT s k of None \<Rightarrow> {} | Some p \<Rightarrow> if cstore c s p then {p} else {}"
  have S: "{p \<in> occ FU_INT_SIZE (fuINT s). cstore c s p} = ?A 0 \<union> ?A (Suc 0)"
    unfolding occ_def FU_INT_SIZE_def ex_less_2
    by (auto split: option.splits if_splits)
  have d: "fuINT s 0 = Some p \<Longrightarrow> fuINT s (Suc 0) = Some q \<Longrightarrow> p \<noteq> q" for p q
    using assms unfolding uniq_def FU_INT_SIZE_def by (metis less_2_iff n_not_Suc_n option.distinct(1))
  have "int (card (?A 0 \<union> ?A (Suc 0))) = stores_done c s"
    unfolding stores_done_def FU_INT_SIZE_def upt_2
    using d by (cases "fuINT s 0"; cases "fuINT s (Suc 0)") auto
  then show ?thesis by (simp only: S)
qed

lemma stage_flight:
  assumes inv: "inv m s" and st: "stage m k c s = Inr s'"
      and b: "k = 1 \<longrightarrow> commonDataBus s = None"
      and con: "doneCount s + int (card (in_flight s)) = fetch_index s"
  shows "doneCount s' + int (card (in_flight s')) = fetch_index s'"
proof -
  have qo: "queue_ok s" by (rule invD(2)[OF inv])
  note fin = flight_bounded(2)[OF inv]
  note cnt = stage_counted[OF inv st]
  consider "k = 0" | "k = 1" | "k = 2" | "k = 3" | "k \<noteq> 0" "k \<noteq> 1" "k \<noteq> 2" "k \<noteq> 3"
    by blast
  then show ?thesis
  proof cases
    case 1
    then have r: "CDB_To_retire m c s = Inr s'" using st by (simp add: stage_def)
    note p = CDB_To_retire_places[OF r]
    show ?thesis
    proof (cases "commonDataBus s")
      case None
      then have "in_flight s' = in_flight s"
        unfolding in_flight_def p(1,2) by (simp add: on_bus_def p(4))
      then show ?thesis using con p(5,6) None by simp
    next
      case (Some b)
      then have "in_flight s' = in_flight s - {b}"
        unfolding in_flight_def p(1,2) using invD(10,11)[OF inv, of b]
        by (auto simp: on_bus_def p(4))
      moreover have "b \<in> in_flight s" using Some by (simp add: in_flight_def on_bus_def)
      ultimately have "int (card (in_flight s')) = int (card (in_flight s)) - 1"
        using card_remove[OF fin] by simp
      then show ?thesis using con p(5,6) Some by simp
    qed
  next
    case 2
    then have r: "execute_To_CDB c s = Inr s'" using st by (simp add: stage_def)
    let ?S = "{p \<in> occ FU_INT_SIZE (fuINT s). cstore c s p}"
    obtain t wo where t: "execute_To_CDB c s = Inr t"
      "released (?S \<union> set_option wo) s t"
      "commonDataBus t = (case wo of None \<Rightarrow> commonDataBus s | Some w \<Rightarrow> Some w)"
      "case wo of None \<Rightarrow> \<forall>p. \<not> eligible c s p | Some w \<Rightarrow> eligible c s w"
      "instr_queue t = instr_queue s" "instr_queue_size t = instr_queue_size s"
      "ifq_head t = ifq_head s" "fetch_index t = fetch_index s"
      by (rule execute_To_CDB_winner[OF invD(1)[OF inv], of c]) blast
    have ts: "t = s'" using t(1) r by simp
    have bn: "commonDataBus s = None" using b 2 by simp
    have iq: "in_queue t = in_queue s" using in_queue_cong[OF t(5,6,7)] by simp
    have rs: "in_rs t p \<longleftrightarrow> in_rs s p \<and> p \<notin> ?S \<union> set_option wo" for p
      using released_occ(2,4)[OF t(2)] by (auto simp: in_rs_def)
    have Srs: "?S \<subseteq> {p. in_rs s p}"
      using invD(6)[OF inv] by (auto simp: in_rs_def)
    have fl: "in_flight t = in_flight s - ?S"
    proof (cases wo)
      case None
      then have "\<not> on_bus t p" for p using t(3) bn by (simp add: on_bus_def)
      moreover have "\<not> on_bus s p" for p using bn by (simp add: on_bus_def)
      ultimately show ?thesis
        unfolding in_flight_def iq using rs None invD(9)[OF inv] Srs by auto
    next
      case (Some w)
      then have e: "eligible c s w" using t(4) by simp
      then have "in_fu s w" by (auto simp: eligible_def in_fu_def occ_def)
      then have wr: "in_rs s w" using invD(6,7)[OF inv] by (auto simp: in_fu_def in_rs_def)
      have wS: "w \<notin> ?S" using e by (auto simp: eligible_def cstore_def)
      have ob: "on_bus t p \<longleftrightarrow> p = w" for p using t(3) Some by (auto simp: on_bus_def)
      have "\<not> on_bus s p" for p using bn by (simp add: on_bus_def)
      then show ?thesis
        unfolding in_flight_def iq using rs Some ob wr wS invD(9)[OF inv] Srs by auto
    qed
    have "?S \<subseteq> in_flight s" using Srs by (auto simp: in_flight_def)
    then have "card (in_flight t) = card (in_flight s) - card ?S" "card ?S \<le> card (in_flight s)"
      unfolding fl using fin by (simp_all add: card_Diff_subset finite_subset card_mono)
    then have "int (card (in_flight t)) = int (card (in_flight s)) - int (card ?S)"
      by simp
    also have "int (card ?S) = stores_done c s"
      using card_stores invD(1)[OF inv] by (simp add: slots_ok_def)
    finally show ?thesis using con cnt 2 t(8) unfolding ts by (simp add: counted_def)
  next
    case 3
    then have s': "s' = issue_To_execute c s" using st by (simp add: stage_def)
    have "in_flight s' = in_flight s"
      unfolding in_flight_def s' by (simp add: issue_To_execute_places)
    then show ?thesis
      using con issue_To_execute_frame[of c s] issue_To_execute_fields[of c s] s' by simp
  next
    case 4
    then have r: "dispatch_To_issue m c s = Inr s'" using st by (simp add: stage_def)
    from qo r show ?thesis
    proof (cases rule: dispatch_To_issue_effect)
      case empty
      then show ?thesis using con by simp
    next
      case (stall p)
      then show ?thesis using con by simp
    next
      case (ctrl p)
      have iq: "in_queue s' q \<longleftrightarrow> in_queue s q \<and> q \<noteq> p" for q
      proof -
        have "in_queue s' = in_queue (pop_head s)"
          by (rule in_queue_cong(1)) (simp_all add: ctrl(4))
        then show ?thesis using in_queue_pop[OF qo ctrl(1,2)] by simp
      qed
      have rs: "in_rs s' = in_rs s" by (rule in_rs_cong) (simp_all add: ctrl(4) pop_head_fields)
      have bs: "on_bus s' = on_bus s" by (rule ext) (simp add: on_bus_def ctrl(4) pop_head_fields)
      have inq: "in_queue s p" unfolding in_queue_def using ctrl(1,2) by (intro exI[of _ 0]) simp
      have "in_flight s' = in_flight s - {p}"
        unfolding in_flight_def iq rs bs using invD(9,10)[OF inv, of p] inq by auto
      moreover have "p \<in> in_flight s" using inq by (simp add: in_flight_def)
      ultimately have "int (card (in_flight s')) = int (card (in_flight s)) - 1"
        using card_remove[OF fin] by simp
      then show ?thesis using con by (simp add: ctrl(4) pop_head_fields)
    next
      case (fp p i)
      note a = admit_fp_places[OF qo fp(1,2,5,6,7)]
      have inq: "in_queue s p" unfolding in_queue_def using fp(1,2) by (intro exI[of _ 0]) simp
      have "in_flight s' = in_flight s"
        unfolding in_flight_def a(1) a(2) a(4) using inq by auto
      then show ?thesis using con a(5,6) by simp
    next
      case (int p i)
      note a = admit_int_places[OF qo int(1,2,6,7,8)]
      have inq: "in_queue s p" unfolding in_queue_def using int(1,2) by (intro exI[of _ 0]) simp
      have "in_flight s' = in_flight s"
        unfolding in_flight_def a(1) a(2) a(4) using inq by auto
      then show ?thesis using con a(5,6) by simp
    qed
  next
    case 5
    then have r: "fetch_To_dispatch m c s = Inr s'" using st by (simp add: stage_def)
    from qo r show ?thesis
    proof (cases rule: fetch_To_dispatch_effect)
      case idle
      then show ?thesis using con by simp
    next
      case (fetch h)
      have rs: "in_rs s' = in_rs s" by (rule in_rs_cong) (simp_all add: fetch(7))
      have bs: "on_bus s' = on_bus s" by (rule ext) (simp add: on_bus_def fetch(7))
      have "in_flight s' = insert h (in_flight s)"
        unfolding in_flight_def fetch(10) rs bs by auto
      moreover have "h \<notin> in_flight s"
        using flight_bounded(1)[OF inv] fetch(3) by auto
      ultimately have "int (card (in_flight s')) = int (card (in_flight s)) + 1"
        using fin by simp
      then show ?thesis using con by (simp add: fetch(7))
    qed
  qed
qed

lemma run_stages_flight:
  assumes "wf_ops m tr"
  shows "run_stages m tr n = Inr s \<Longrightarrow>
     (n mod 5 = 1 \<longrightarrow> commonDataBus s = None) \<and>
     doneCount s + int (card (in_flight s)) = fetch_index s"
proof (induction n arbitrary: s)
  case 0
  then have s: "s = init_state tr" by simp
  have "\<not> in_queue s p" "\<not> in_rs s p" "\<not> on_bus s p" for p
    unfolding s by (simp_all add: in_queue_def in_rs_def on_bus_def occ_def init_state_def queue_at_def)
  then have "in_flight s = {}" by (simp add: in_flight_def)
  then show ?case by (simp add: s init_state_def)
next
  case (Suc n)
  then obtain t where t: "run_stages m tr n = Inr t"
    and st: "stage m (n mod 5) (1 + int (n div 5)) t = Inr s"
    by (auto simp: bind_err_Inr)
  note ih = Suc.IH[OF t]
  have 1: "doneCount s + int (card (in_flight s)) = fetch_index s"
    by (rule stage_flight[OF inv_run_stages[OF assms t] st]) (use ih in simp_all)
  have 2: "commonDataBus s = None" if "Suc n mod 5 = 1"
  proof -
    have "n mod 5 = 0" using that by presburger
    then have "CDB_To_retire m (1 + int (n div 5)) t = Inr s" using st by (simp add: stage_def)
    then show ?thesis by (rule CDB_To_retire_places(4))
  qed
  show ?case using 1 2 by simp
qed

text \<open>
  Claim C4, as amended. \<^verbatim>\<open>runTomasulo\<close> returns \<open>r\<close> exactly when \<open>r\<close> is one more than
  the number of the first cycle at whose end the count of retired instructions equals the
  total instruction count: the count is compared once per cycle, after the five stages and
  after the cycle counter has been incremented. (Cycle \<open>k + 1\<close> is the first such cycle
  and the value returned is \<open>k + 2\<close>.) The count is \<^verbatim>\<open>doneCount\<close> at the end of the cycle,
  and in a run over a well-formed trace it counts the retired instructions: each stage
  adds what \<open>counted\<close> says, which is the traps that \<^verbatim>\<open>fetch\<close> steps over, a control
  instruction that \<^verbatim>\<open>dispatch_To_issue\<close> takes from the head of the queue, the stores
  that \<^verbatim>\<open>execute_To_CDB\<close> frees when their latency has elapsed, and the instruction
  that \<^verbatim>\<open>CDB_To_retire\<close> takes from the bus, which is neither a trap, a control
  instruction nor a store. At every point the count and the number of instructions in
  flight add up to the number of instructions fetched, so that every instruction is
  counted once.
\<close>

theorem runTomasulo_return_value:
  assumes "wf_ops m tr"
  shows "(runTomasulo m tr = Some (Inr r) \<longleftrightarrow>
           (\<exists>k. r = int k + 2 \<and> retired_after m tr (Suc k) = Some (sim_num_insn m) \<and>
                (\<forall>j<k. \<exists>d. retired_after m tr (Suc j) = Some d \<and> d \<noteq> sim_num_insn m))) \<and>
         (\<forall>k. retired_after m tr k
                = (case run_stages m tr (5 * k) of Inl e \<Rightarrow> None | Inr s \<Rightarrow> Some (doneCount s))) \<and>
         (\<forall>n s s'. run_stages m tr n = Inr s \<and> run_stages m tr (Suc n) = Inr s' \<longrightarrow>
             doneCount s' = doneCount s + counted (n mod 5) (1 + int (n div 5)) s s') \<and>
         (\<forall>n s. run_stages m tr n = Inr s \<longrightarrow>
             kinds_ok s \<and> doneCount s + int (card (in_flight s)) = fetch_index s)"
proof (intro conjI allI impI)
  show "runTomasulo m tr = Some (Inr r) \<longleftrightarrow>
           (\<exists>k. r = int k + 2 \<and> retired_after m tr (Suc k) = Some (sim_num_insn m) \<and>
                (\<forall>j<k. \<exists>d. retired_after m tr (Suc j) = Some d \<and> d \<noteq> sim_num_insn m))"
    unfolding runTomasulo_def run_loop_Inr_iff retired_after_done retired_after_not_done
    by (auto simp: add.commute)
next
  fix k
  show "retired_after m tr k
          = (case run_stages m tr (5 * k) of Inl e \<Rightarrow> None | Inr s \<Rightarrow> Some (doneCount s))"
    unfolding run_stages_cycles by (simp add: retired_after_def)
next
  fix n s s' assume a: "run_stages m tr n = Inr s \<and> run_stages m tr (Suc n) = Inr s'"
  then have "stage m (n mod 5) (1 + int (n div 5)) s = Inr s'" by (auto simp: bind_err_def)
  then show "doneCount s' = doneCount s + counted (n mod 5) (1 + int (n div 5)) s s'"
    using stage_counted[OF inv_run_stages[OF assms]] a by blast
next
  fix n s assume a: "run_stages m tr n = Inr s"
  show "kinds_ok s" using run_stages_kinds[OF assms a] .
  show "doneCount s + int (card (in_flight s)) = fetch_index s"
    using run_stages_flight[OF assms a] by simp
qed

lemma ex_cond_wf: "wf_ops (ex_machine n) ex_cond"
  by (simp add: wf_ops_def ex_cond_def mk_instr_def USES_INT_FU_def USES_FP_FU_def
        IS_FCOMP_def IS_ICOMP_def IS_LOAD_def IS_STORE_def)

lemma ex_cond_run8:
  "(case run_stages (ex_machine 1) ex_cond 8 of Inl e \<Rightarrow> False
    | Inr s \<Rightarrow> ctrl_at_head s \<and> doneCount s = 0 \<and>
        (case run_stages (ex_machine 1) ex_cond 9 of Inl e \<Rightarrow> False
         | Inr s' \<Rightarrow> fetch_index s' = 1))"
  by code_simp

theorem runTomasulo_return_value_witness:
  "runTomasulo (ex_machine 1) ex_cond = Some (Inr 3) \<and>
   (case run_stages (ex_machine 1) ex_cond 8 of Inl e \<Rightarrow> False
    | Inr s \<Rightarrow> ctrl_at_head s \<and> doneCount s = 0 \<and>
        (case run_stages (ex_machine 1) ex_cond 9 of Inl e \<Rightarrow> False
         | Inr s' \<Rightarrow> doneCount s' = 1 \<and> kinds_ok s' \<and> in_flight s' = {}))"
proof -
  note t = runTomasulo_return_value[OF ex_cond_wf, of 1]
  have "\<exists>k. (3::int) = int k + 2 \<and>
          retired_after (ex_machine 1) ex_cond (Suc k) = Some (sim_num_insn (ex_machine 1)) \<and>
          (\<forall>j<k. \<exists>d. retired_after (ex_machine 1) ex_cond (Suc j) = Some d
                      \<and> d \<noteq> sim_num_insn (ex_machine 1))"
    using ex_cond_run(1,2)
    by (intro exI[of _ 1]) (simp add: ex_machine_def numeral_2_eq_2)
  then have 1: "runTomasulo (ex_machine 1) ex_cond = Some (Inr 3)" using t[of 3] by blast
  obtain s s' where s: "run_stages (ex_machine 1) ex_cond 8 = Inr s"
      "run_stages (ex_machine 1) ex_cond 9 = Inr s'" "ctrl_at_head s" "doneCount s = 0"
      "fetch_index s' = 1"
    using ex_cond_run8 by (auto split: sum.splits)
  have s9: "run_stages (ex_machine 1) ex_cond (Suc 8) = Inr s'" using s(2) by simp
  have "doneCount s' = doneCount s + counted (8 mod 5) (1 + int (8 div 5)) s s'"
    using t[of 3] s(1) s9 by blast
  then have d: "doneCount s' = 1" using s(3,4) by (simp add: counted_def)
  have k: "kinds_ok s'" "doneCount s' + int (card (in_flight s')) = fetch_index s'"
    using t[of 3] s(2) by blast+
  have "finite (in_flight s')"
    using flight_bounded(2)[OF inv_run_stages[OF ex_cond_wf s(2)]] .
  moreover have "card (in_flight s') = 0" using k(2) d s(5) by simp
  ultimately have e: "in_flight s' = {}" by simp
  show ?thesis using 1 s d k(1) e by simp
qed

text \<open>
  One conditional branch: the count of retired instructions is 0 after cycle 1 and first
  equals the total, 1, during cycle 2; the value returned is 3.
\<close>

theorem return_value_counterexample:
  "retired_after (ex_machine 1) ex_cond 1 = Some 0 \<and>
   retired_after (ex_machine 1) ex_cond 2 = Some 1 \<and>
   sim_num_insn (ex_machine 1) = 1 \<and>
   runTomasulo (ex_machine 1) ex_cond = Some (Inr 3) \<and> (3::int) \<noteq> 2"
  using ex_cond_run by (simp add: ex_machine_def)

subsection \<open>Instructions that have been on the bus\<close>

lemma stage_index:
  assumes inv: "inv m s" and st: "stage m k c s = Inr s'"
  shows "index (instrs s' p) = index (instrs s p)"
proof -
  have qo: "queue_ok s" by (rule invD(2)[OF inv])
  consider "k = 0" | "k = 1" | "k = 2" | "k = 3" | "k \<noteq> 0" "k \<noteq> 1" "k \<noteq> 2" "k \<noteq> 3"
    by blast
  then show ?thesis
  proof cases
    case 1
    then have r: "CDB_To_retire m c s = Inr s'" using st by (simp add: stage_def)
    show ?thesis using CDB_To_retire_places(9)[OF r] .
  next
    case 2
    then have r: "execute_To_CDB c s = Inr s'" using st by (simp add: stage_def)
    obtain t wo where "execute_To_CDB c s = Inr t"
      "instrs t = (case wo of None \<Rightarrow> instrs s
                  | Some w \<Rightarrow> (instrs s)(w := (instrs s w)\<lparr>tom_cdb_cycle := c\<rparr>))"
      by (rule execute_To_CDB_winner[OF invD(1)[OF inv], of c]) blast
    then show ?thesis using r by (cases wo) auto
  next
    case 3
    then have "s' = issue_To_execute c s" using st by (simp add: stage_def)
    then show ?thesis by (simp add: issue_To_execute_places)
  next
    case 4
    then have r: "dispatch_To_issue m c s = Inr s'" using st by (simp add: stage_def)
    from qo r show ?thesis
    proof (cases rule: dispatch_To_issue_effect)
      case empty
      then show ?thesis by simp
    next
      case (stall p)
      then show ?thesis by simp
    next
      case (ctrl p)
      then show ?thesis by (simp add: pop_head_fields)
    next
      case (fp p i)
      show ?thesis using admit_fp_places(8)[OF qo fp(1,2,5,6,7)] .
    next
      case (int p i)
      show ?thesis using admit_int_places(8)[OF qo int(1,2,6,7,8)] .
    qed
  next
    case 5
    then have r: "fetch_To_dispatch m c s = Inr s'" using st by (simp add: stage_def)
    from qo r show ?thesis
    proof (cases rule: fetch_To_dispatch_effect)
      case idle
      then show ?thesis by simp
    next
      case (fetch h)
      show ?thesis by (simp add: fetch(7))
    qed
  qed
qed

lemma run_stages_index:
  assumes "wf_ops m tr"
  shows "run_stages m tr n = Inr s \<Longrightarrow> index (instrs s p) = index (tr p)"
proof (induction n arbitrary: s)
  case 0
  then show ?case by (auto simp: init_state_def)
next
  case (Suc n)
  then obtain t where t: "run_stages m tr n = Inr t"
    and st: "stage m (n mod 5) (1 + int (n div 5)) t = Inr s"
    by (auto simp: bind_err_Inr)
  show ?case using stage_index[OF inv_run_stages[OF assms t] st] Suc.IH[OF t] by simp
qed

text \<open>An instruction that has left the queue and the stations does not come back.\<close>

lemma stage_gone:
  assumes inv: "inv m s" and st: "stage m k c s = Inr s'"
      and g: "\<not> in_queue s p" "\<not> in_rs s p" "p \<le> fetch_index s"
  shows "\<not> in_queue s' p \<and> \<not> in_rs s' p \<and> p \<le> fetch_index s'"
proof -
  have qo: "queue_ok s" by (rule invD(2)[OF inv])
  consider "k = 0" | "k = 1" | "k = 2" | "k = 3" | "k \<noteq> 0" "k \<noteq> 1" "k \<noteq> 2" "k \<noteq> 3"
    by blast
  then show ?thesis
  proof cases
    case 1
    then have r: "CDB_To_retire m c s = Inr s'" using st by (simp add: stage_def)
    show ?thesis using CDB_To_retire_places(1,2,5)[OF r] g by simp
  next
    case 2
    then have r: "execute_To_CDB c s = Inr s'" using st by (simp add: stage_def)
    obtain t wo where t: "execute_To_CDB c s = Inr t"
      "released ({p \<in> occ FU_INT_SIZE (fuINT s). cstore c s p} \<union> set_option wo) s t"
      "instr_queue t = instr_queue s" "instr_queue_size t = instr_queue_size s"
      "ifq_head t = ifq_head s" "fetch_index t = fetch_index s"
      by (rule execute_To_CDB_winner[OF invD(1)[OF inv], of c]) blast
    have ts: "t = s'" using t(1) r by simp
    have iq: "in_queue t = in_queue s" using in_queue_cong[OF t(3,4,5)] by simp
    have rs: "in_rs t p \<Longrightarrow> in_rs s p"
      using released_occ(2,4)[OF t(2)] by (auto simp: in_rs_def)
    show ?thesis unfolding ts[symmetric] iq using rs g t(6) by auto
  next
    case 3
    then have "s' = issue_To_execute c s" using st by (simp add: stage_def)
    then show ?thesis using g issue_To_execute_fields[of c s] by (simp add: issue_To_execute_places)
  next
    case 4
    then have r: "dispatch_To_issue m c s = Inr s'" using st by (simp add: stage_def)
    from qo r show ?thesis
    proof (cases rule: dispatch_To_issue_effect)
      case empty
      then show ?thesis using g by simp
    next
      case (stall q)
      then show ?thesis using g by simp
    next
      case (ctrl q)
      have "in_queue s' = in_queue (pop_head s)"
        by (rule in_queue_cong(1)) (simp_all add: ctrl(4))
      then have iq: "\<not> in_queue s' p" using in_queue_pop[OF qo ctrl(1,2)] g by simp
      have rs: "in_rs s' = in_rs s" by (rule in_rs_cong) (simp_all add: ctrl(4) pop_head_fields)
      show ?thesis using iq rs g by (simp add: ctrl(4) pop_head_fields)
    next
      case (fp q i)
      note a = admit_fp_places[OF qo fp(1,2,5,6,7)]
      have inq: "in_queue s q" unfolding in_queue_def using fp(1,2) by (intro exI[of _ 0]) simp
      show ?thesis unfolding a(1) a(2) a(5) using g inq by auto
    next
      case (int q i)
      note a = admit_int_places[OF qo int(1,2,6,7,8)]
      have inq: "in_queue s q" unfolding in_queue_def using int(1,2) by (intro exI[of _ 0]) simp
      show ?thesis unfolding a(1) a(2) a(5) using g inq by auto
    qed
  next
    case 5
    then have r: "fetch_To_dispatch m c s = Inr s'" using st by (simp add: stage_def)
    from qo r show ?thesis
    proof (cases rule: fetch_To_dispatch_effect)
      case idle
      then show ?thesis using g by simp
    next
      case (fetch h)
      have rs: "in_rs s' = in_rs s" by (rule in_rs_cong) (simp_all add: fetch(7))
      have fi: "fetch_index s' = h" by (simp add: fetch(7))
      show ?thesis unfolding fetch(10) rs fi using g fetch(3) by auto
    qed
  qed
qed

lemma broadcast_before_Suc:
  "broadcast_before m tr (Suc n) p \<longleftrightarrow>
     broadcast_before m tr n p \<or>
     (case run_stages m tr (Suc n) of Inl e \<Rightarrow> False | Inr t \<Rightarrow> commonDataBus t = Some p)"
  unfolding broadcast_before_def atMost_Suc by blast

lemma broadcast_gone:
  assumes wf: "wf_ops m tr"
  shows "run_stages m tr n = Inr s \<Longrightarrow> broadcast_before m tr n p \<Longrightarrow>
     \<not> in_queue s p \<and> \<not> in_rs s p \<and> p \<le> fetch_index s"
proof (induction n arbitrary: s)
  case 0
  then show ?case by (auto simp: broadcast_before_def init_state_def)
next
  case (Suc n)
  note inv = inv_run_stages[OF wf Suc.prems(1)]
  from Suc.prems(1) obtain t where t: "run_stages m tr n = Inr t"
    and st: "stage m (n mod 5) (1 + int (n div 5)) t = Inr s"
    by (auto simp: bind_err_Inr)
  from Suc.prems(2) consider "broadcast_before m tr n p" | "on_bus s p"
    unfolding broadcast_before_Suc using Suc.prems(1) by (auto simp: on_bus_def)
  then show ?case
  proof cases
    case 1
    from Suc.IH[OF t 1] show ?thesis
      using stage_gone[OF inv_run_stages[OF wf t] st] by blast
  next
    case 2
    then show ?thesis using invD(5,10,11)[OF inv, of p] by blast
  qed
qed

lemma unit_not_broadcast:
  assumes wf: "wf_ops m tr" and run: "run_stages m tr n = Inr s" and fu: "in_fu s p"
  shows "\<not> broadcast_before m tr n p"
proof
  assume "broadcast_before m tr n p"
  then have "\<not> in_rs s p" using broadcast_gone[OF wf run] by blast
  moreover have "in_rs s p"
    using fu invD(6,7)[OF inv_run_stages[OF wf run]] by (auto simp: in_fu_def in_rs_def)
  ultimately show False by simp
qed

text \<open>
  Claim C1, as amended. In a run over a well-formed trace whose program indices are not
  negative, \<^verbatim>\<open>execute_To_CDB\<close> starts every cycle with an empty bus and places at most
  one instruction on it. No occupant of a functional unit has been on the bus before. When
  some functional-unit slot, integer or floating-point, holds a contender (latency
  elapsed, not a store), the bus afterwards holds a contender whose program index is least
  among all of them; the winner has left its unit and its station and carries the cycle as
  its broadcast cycle, and every other contender is still in its unit. When there is no
  contender the bus stays empty. The state \<open>s\<close> is the one the second stage of cycle
  \<open>k + 1\<close> starts from.
\<close>

theorem execute_To_CDB_arbitration:
  assumes wf: "wf_ops m tr"
      and nn: "\<forall>p. 1 \<le> p \<and> p \<le> sim_num_insn m \<longrightarrow> 0 \<le> index (tr p)"
      and run: "run_stages m tr (5 * k + 1) = Inr s"
  shows "\<exists>s'. execute_To_CDB (1 + int k) s = Inr s' \<and> run_stages m tr (5 * k + 2) = Inr s' \<and>
      commonDataBus s = None \<and>
      (\<forall>p. in_fu s p \<longrightarrow> \<not> broadcast_before m tr (5 * k + 1) p) \<and>
      (if \<exists>p. eligible (1 + int k) s p
       then \<exists>w. commonDataBus s' = Some w \<and> eligible (1 + int k) s w \<and>
                (\<forall>p. eligible (1 + int k) s p \<longrightarrow> index (instrs s w) \<le> index (instrs s p)) \<and>
                \<not> in_fu s' w \<and> \<not> in_rs s' w \<and> tom_cdb_cycle (instrs s' w) = 1 + int k \<and>
                (\<forall>p. eligible (1 + int k) s p \<and> p \<noteq> w \<longrightarrow> in_fu s' p)
       else commonDataBus s' = None)"
proof -
  define c where "c = 1 + int k"
  note inv = inv_run_stages[OF wf run]
  note ok = invD(1)[OF inv]
  have bn: "commonDataBus s = None"
  proof -
    have "(5 * k + 1) mod 5 = 1" by simp
    then show ?thesis using run_stages_flight[OF wf run] by blast
  qed
  have nb: "\<forall>p. in_fu s p \<longrightarrow> \<not> broadcast_before m tr (5 * k + 1) p"
    using unit_not_broadcast[OF wf run] by blast
  have fu_nn: "0 \<le> index (instrs s p)" if "in_fu s p" for p
  proof -
    have "in_rs s p" using that invD(6,7)[OF inv] by (auto simp: in_fu_def in_rs_def)
    then have "1 \<le> p \<and> p \<le> sim_num_insn m" using invD(5)[OF inv, of p] by blast
    then show ?thesis using nn run_stages_index[OF wf run, of p] by simp
  qed
  have h1: "\<forall>p. (\<exists>i<FU_INT_SIZE. fuINT s i = Some p) \<or> (\<exists>i<FU_FP_SIZE. fuFP s i = Some p)
                 \<longrightarrow> 0 \<le> index (instrs s p)"
    using fu_nn by (auto simp: in_fu_def occ_def)
  have h2: "\<forall>i<FU_INT_SIZE. \<forall>p. fuINT s i = Some p \<longrightarrow> USES_INT_FU (op (instrs s p))"
    using ok by (auto simp: slots_ok_def occ_def)
  have h3: "\<forall>i<FU_FP_SIZE. \<forall>p. fuFP s i = Some p \<longrightarrow>
                     USES_FP_FU (op (instrs s p)) \<and> \<not> USES_INT_FU (op (instrs s p))"
    using ok by (auto simp: slots_ok_def occ_def)
  let ?S = "{p \<in> occ FU_INT_SIZE (fuINT s). cstore c s p}"
  obtain s' wo where w: "execute_To_CDB c s = Inr s'"
    "released (?S \<union> set_option wo) s s'"
    "commonDataBus s' = (case wo of None \<Rightarrow> commonDataBus s | Some w \<Rightarrow> Some w)"
    "case wo of None \<Rightarrow> \<forall>p. \<not> eligible c s p | Some w \<Rightarrow> eligible c s w"
    "instrs s' = (case wo of None \<Rightarrow> instrs s
                  | Some w \<Rightarrow> (instrs s)(w := (instrs s w)\<lparr>tom_cdb_cycle := c\<rparr>))"
    by (rule execute_To_CDB_winner[OF ok, of c]) blast
  from execute_To_CDB_least[OF h1 h2 h3, of c] w(1)
  have least: "if \<exists>p. eligible c s p
       then \<exists>w. commonDataBus s' = Some w \<and> eligible c s w \<and>
                (\<forall>p. eligible c s p \<longrightarrow> index (instrs s w) \<le> index (instrs s p))
       else commonDataBus s' = commonDataBus s"
    by simp
  have "run_stages m tr (5 * k + Suc 1)
      = bind_err (run_stages m tr (5 * k + 1)) (stage m 1 (1 + int k))"
    by (rule run_stages_at) simp
  also have "\<dots> = Inr s'"
    unfolding run using w(1) by (simp add: bind_err_def stage_def c_def)
  finally have "run_stages m tr (5 * k + Suc 1) = Inr s'" .
  moreover have "5 * k + Suc 1 = 5 * k + 2" by simp
  ultimately have r2: "run_stages m tr (5 * k + 2) = Inr s'" by (simp only:)
  have fu': "in_fu s' p \<longleftrightarrow> in_fu s p \<and> p \<notin> ?S \<union> set_option wo" for p
    using released_occ(1,3)[OF w(2)] by (auto simp: in_fu_def)
  have rs': "in_rs s' p \<longleftrightarrow> in_rs s p \<and> p \<notin> ?S \<union> set_option wo" for p
    using released_occ(2,4)[OF w(2)] by (auto simp: in_rs_def)
  have body: "if \<exists>p. eligible c s p
       then \<exists>w. commonDataBus s' = Some w \<and> eligible c s w \<and>
                (\<forall>p. eligible c s p \<longrightarrow> index (instrs s w) \<le> index (instrs s p)) \<and>
                \<not> in_fu s' w \<and> \<not> in_rs s' w \<and> tom_cdb_cycle (instrs s' w) = c \<and>
                (\<forall>p. eligible c s p \<and> p \<noteq> w \<longrightarrow> in_fu s' p)
       else commonDataBus s' = None"
  proof (cases "\<exists>p. eligible c s p")
    case False
    then show ?thesis using least bn by simp
  next
    case True
    then obtain v where v: "commonDataBus s' = Some v" "eligible c s v"
        "\<forall>p. eligible c s p \<longrightarrow> index (instrs s v) \<le> index (instrs s p)"
      using least by auto
    have wo: "wo = Some v" using w(3) v(1) bn by (cases wo) simp_all
    have 1: "\<not> in_fu s' v" "\<not> in_rs s' v" unfolding fu' rs' wo by simp_all
    have 2: "tom_cdb_cycle (instrs s' v) = c" unfolding w(5) wo by simp
    have 3: "in_fu s' p" if "eligible c s p" "p \<noteq> v" for p
    proof -
      have "in_fu s p" using that(1) by (auto simp: eligible_def in_fu_def occ_def)
      moreover have "p \<notin> ?S" using that(1) by (auto simp: eligible_def cstore_def)
      ultimately show ?thesis unfolding fu' wo using that(2) by simp
    qed
    show ?thesis using True v 1 2 3 by auto
  qed
  show ?thesis
    using w(1) r2 bn nb body unfolding c_def by blast
qed

lemma ex_tie_wf: "wf_ops (ex_machine n) (ex_tie a b)"
  by (simp add: wf_ops_def ex_tie_def mk_instr_def USES_INT_FU_def USES_FP_FU_def
        IS_FCOMP_def IS_ICOMP_def IS_LOAD_def IS_STORE_def)

lemma ex_tie_run56:
  "(case run_stages (ex_machine 6) (ex_tie 1 6) 56 of Inl e \<Rightarrow> False
    | Inr s \<Rightarrow> fuFP s 0 = Some 1 \<and> fuINT s 0 = Some 6 \<and> fuINT s 1 = None \<and>
        tom_execute_cycle (instrs s 1) = 3 \<and> tom_execute_cycle (instrs s 6) = 8 \<and>
        op (instrs s 1) = {F_FCOMP} \<and> op (instrs s 6) = {F_ICOMP} \<and>
        index (instrs s 1) = 1 \<and> index (instrs s 6) = 6)"
  by code_simp

lemma eligible_two:
  assumes "fuFP s 0 = Some 1" "fuINT s 0 = Some 6" "fuINT s (Suc 0) = None"
    "tom_execute_cycle (instrs s 1) = 3" "tom_execute_cycle (instrs s 6) = 8"
    "op (instrs s 1) = {F_FCOMP}" "op (instrs s 6) = {F_ICOMP}"
  shows "eligible 12 s 1" "eligible 12 s 6" "\<And>p. eligible 12 s p \<Longrightarrow> p = 1 \<or> p = 6"
proof -
  have "fuFP s 0 = Some 1 \<and> 12 \<ge> tom_execute_cycle (instrs s 1) + FU_FP_LATENCY"
    by (simp add: assms(1,4) FU_FP_LATENCY_def)
  then have "\<exists>i<FU_FP_SIZE. fuFP s i = Some 1 \<and> 12 \<ge> tom_execute_cycle (instrs s 1) + FU_FP_LATENCY"
    by (simp add: FU_FP_SIZE_def)
  moreover have "\<not> IS_STORE (op (instrs s 1))" by (simp add: assms(6) IS_STORE_def)
  ultimately show "eligible 12 s 1" unfolding eligible_def by blast
  have "fuINT s 0 = Some 6 \<and> 12 \<ge> tom_execute_cycle (instrs s 6) + FU_INT_LATENCY"
    by (simp add: assms(2,5) FU_INT_LATENCY_def)
  then have "\<exists>i<FU_INT_SIZE. fuINT s i = Some 6 \<and> 12 \<ge> tom_execute_cycle (instrs s 6) + FU_INT_LATENCY"
    by (intro exI[of _ 0]) (simp add: FU_INT_SIZE_def)
  moreover have "\<not> IS_STORE (op (instrs s 6))" by (simp add: assms(7) IS_STORE_def)
  ultimately show "eligible 12 s 6" unfolding eligible_def by blast
  fix p assume "eligible 12 s p"
  then have "(\<exists>i<FU_INT_SIZE. fuINT s i = Some p) \<or> (\<exists>i<FU_FP_SIZE. fuFP s i = Some p)"
    unfolding eligible_def by blast
  then have "fuINT s 0 = Some p \<or> fuINT s (Suc 0) = Some p \<or> fuFP s 0 = Some p"
    by (simp add: FU_INT_SIZE_def FU_FP_SIZE_def ex_less_2)
  then show "p = 1 \<or> p = 6" using assms(1,2,3) by auto
qed

theorem execute_To_CDB_arbitration_witness:
  "(case run_stages (ex_machine 6) (ex_tie 1 6) 56 of Inl e \<Rightarrow> False
    | Inr s \<Rightarrow> eligible 12 s 1 \<and> eligible 12 s 6 \<and> commonDataBus s = None \<and>
        \<not> broadcast_before (ex_machine 6) (ex_tie 1 6) 56 1 \<and>
        (case run_stages (ex_machine 6) (ex_tie 1 6) 57 of Inl e \<Rightarrow> False
         | Inr s' \<Rightarrow> commonDataBus s' = Some 1 \<and> in_fu s' 6 \<and> \<not> in_fu s' 1 \<and> \<not> in_rs s' 1))"
proof -
  obtain s where s: "run_stages (ex_machine 6) (ex_tie 1 6) 56 = Inr s"
    and f: "fuFP s 0 = Some 1" "fuINT s 0 = Some 6" "fuINT s (Suc 0) = None"
        "tom_execute_cycle (instrs s 1) = 3" "tom_execute_cycle (instrs s 6) = 8"
        "op (instrs s 1) = {F_FCOMP}" "op (instrs s 6) = {F_ICOMP}"
    and ix: "index (instrs s 1) = 1" "index (instrs s 6) = 6"
    using ex_tie_run56 by (auto split: sum.splits)
  note e = eligible_two[OF f]
  have nn: "\<forall>p. 1 \<le> p \<and> p \<le> sim_num_insn (ex_machine 6) \<longrightarrow> 0 \<le> index (ex_tie 1 6 p)"
    by (simp add: ex_tie_def mk_instr_def)
  have r: "run_stages (ex_machine 6) (ex_tie 1 6) (5 * 11 + 1) = Inr s" using s by simp
  have ex: "\<exists>p. eligible (1 + int 11) s p" using e(1) by auto
  from execute_To_CDB_arbitration[OF ex_tie_wf nn r]
  obtain s' w where s': "run_stages (ex_machine 6) (ex_tie 1 6) (5 * 11 + 2) = Inr s'"
    and bn: "commonDataBus s = None"
    and nb: "\<forall>p. in_fu s p \<longrightarrow> \<not> broadcast_before (ex_machine 6) (ex_tie 1 6) (5 * 11 + 1) p"
    and w: "commonDataBus s' = Some w" "eligible (1 + int 11) s w"
      "\<forall>p. eligible (1 + int 11) s p \<longrightarrow> index (instrs s w) \<le> index (instrs s p)"
      "\<not> in_fu s' w" "\<not> in_rs s' w"
      "\<forall>p. eligible (1 + int 11) s p \<and> p \<noteq> w \<longrightarrow> in_fu s' p"
    unfolding if_P[OF ex] by blast
  have "w = 1 \<or> w = 6" using e(3)[of w] w(2) by simp
  moreover have "index (instrs s w) \<le> index (instrs s 1)" using w(3) e(1) by simp
  ultimately have w1: "w = 1" using ix by auto
  have "in_fu s' 6" using w(6) e(2) w1 by simp
  moreover have "in_fu s 1" using f(1) by (auto simp: in_fu_def occ_def FU_FP_SIZE_def)
  ultimately show ?thesis using s s' e(1,2) bn nb w(1,4,5) w1 by simp
qed

text \<open>
  With program indices 5 for the floating-point computation and -1 for the integer
  computation, both contend in cycle 12 and the bus receives the one with index 5. With an
  instruction classified in both classes, the floating-point unit keeps it after its
  broadcast in cycle 12, and it is placed on the bus again in cycle 13.
\<close>

lemma ex_tie_neg_run56:
  "(case run_stages (ex_machine 6) (ex_tie 5 (-1)) 56 of Inl e \<Rightarrow> False
    | Inr s \<Rightarrow> fuFP s 0 = Some 1 \<and> fuINT s 0 = Some 6 \<and> fuINT s 1 = None \<and>
        tom_execute_cycle (instrs s 1) = 3 \<and> tom_execute_cycle (instrs s 6) = 8 \<and>
        op (instrs s 1) = {F_FCOMP} \<and> op (instrs s 6) = {F_ICOMP} \<and>
        index (instrs s 1) = 5 \<and> index (instrs s 6) = -1 \<and>
        (case run_stages (ex_machine 6) (ex_tie 5 (-1)) 57 of Inl e \<Rightarrow> False
         | Inr s' \<Rightarrow> commonDataBus s' = Some 1))"
  by code_simp

lemma ex_dual_run:
  "(case run_stages (ex_machine 1) ex_dual 57 of Inl e \<Rightarrow> False
    | Inr s \<Rightarrow> commonDataBus s = Some 1)"
  "(case run_stages (ex_machine 1) ex_dual 61 of Inl e \<Rightarrow> False
    | Inr s \<Rightarrow> fuFP s 0 = Some 1 \<and> tom_execute_cycle (instrs s 1) = 3 \<and>
        op (instrs s 1) = {F_ICOMP, F_FCOMP} \<and>
        (case run_stages (ex_machine 1) ex_dual 62 of Inl e \<Rightarrow> False
         | Inr s' \<Rightarrow> commonDataBus s' = Some 1))"
  by code_simp+

theorem arbitration_counterexample:
  "(case run_stages (ex_machine 6) (ex_tie 5 (-1)) 56 of Inl e \<Rightarrow> False
    | Inr s \<Rightarrow> eligible 12 s 1 \<and> eligible 12 s 6 \<and> index (instrs s 6) < index (instrs s 1) \<and>
        (case run_stages (ex_machine 6) (ex_tie 5 (-1)) 57 of Inl e \<Rightarrow> False
         | Inr s' \<Rightarrow> commonDataBus s' = Some 1)) \<and>
   (case run_stages (ex_machine 1) ex_dual 61 of Inl e \<Rightarrow> False
    | Inr s \<Rightarrow> broadcast_before (ex_machine 1) ex_dual 61 1 \<and> eligible 13 s 1 \<and>
        (case run_stages (ex_machine 1) ex_dual 62 of Inl e \<Rightarrow> False
         | Inr s' \<Rightarrow> commonDataBus s' = Some 1))"
proof -
  obtain s s' where s: "run_stages (ex_machine 6) (ex_tie 5 (-1)) 56 = Inr s"
    and f: "fuFP s 0 = Some 1" "fuINT s 0 = Some 6" "fuINT s (Suc 0) = None"
        "tom_execute_cycle (instrs s 1) = 3" "tom_execute_cycle (instrs s 6) = 8"
        "op (instrs s 1) = {F_FCOMP}" "op (instrs s 6) = {F_ICOMP}"
    and ix: "index (instrs s 1) = 5" "index (instrs s 6) = -1"
    and s': "run_stages (ex_machine 6) (ex_tie 5 (-1)) 57 = Inr s'" "commonDataBus s' = Some 1"
    using ex_tie_neg_run56 by (auto split: sum.splits)
  note e = eligible_two[OF f]
  have 1: "case run_stages (ex_machine 6) (ex_tie 5 (-1)) 56 of Inl e \<Rightarrow> False
    | Inr s \<Rightarrow> eligible 12 s 1 \<and> eligible 12 s 6 \<and> index (instrs s 6) < index (instrs s 1) \<and>
        (case run_stages (ex_machine 6) (ex_tie 5 (-1)) 57 of Inl e \<Rightarrow> False
         | Inr s' \<Rightarrow> commonDataBus s' = Some 1)"
    using s s' e(1,2) ix by simp
  obtain u u' where u: "run_stages (ex_machine 1) ex_dual 61 = Inr u"
    and g: "fuFP u 0 = Some 1" "tom_execute_cycle (instrs u 1) = 3"
        "op (instrs u 1) = {F_ICOMP, F_FCOMP}"
    and u': "run_stages (ex_machine 1) ex_dual 62 = Inr u'" "commonDataBus u' = Some 1"
    using ex_dual_run(2) by (auto split: sum.splits)
  have bb: "broadcast_before (ex_machine 1) ex_dual 61 1"
    unfolding broadcast_before_def
    by (rule bexI[of _ 57]) (use ex_dual_run(1) in simp_all)
  have el: "eligible 13 u 1"
    using g by (simp add: eligible_def FU_FP_SIZE_def IS_STORE_def FU_FP_LATENCY_def)
  have 2: "case run_stages (ex_machine 1) ex_dual 61 of Inl e \<Rightarrow> False
    | Inr s \<Rightarrow> broadcast_before (ex_machine 1) ex_dual 61 1 \<and> eligible 13 s 1 \<and>
        (case run_stages (ex_machine 1) ex_dual 62 of Inl e \<Rightarrow> False
         | Inr s' \<Rightarrow> commonDataBus s' = Some 1)"
    using u u' bb el by simp
  show ?thesis using 1 2 by (rule conjI)
qed

subsection \<open>The pass over the functional units\<close>

lemma issue_int_select:
  obtains (busy) "fuINT s i \<noteq> None" "issue_int c i s = s"
  | (none) "fuINT s i = None" "\<forall>q. \<not> cand_int s q" "issue_int c i s = s"
  | (pick) w where "fuINT s i = None" "cand_int s w"
      "\<forall>q. cand_int s q \<longrightarrow> index (instrs s w) \<le> index (instrs s q)"
      "issue_int c i s =
         s\<lparr>instrs := (instrs s)(w := (instrs s w)\<lparr>tom_execute_cycle := c\<rparr>),
           fuINT := (fuINT s)(i := Some w)\<rparr>"
proof (cases "fuINT s i = None")
  case False
  then have "issue_int c i s = s" by (auto simp: issue_int_def)
  then show ?thesis using busy False by blast
next
  case free: True
  note sc = scan_int_fold[of s RESERV_INT_SIZE]
  show ?thesis
  proof (cases "fold (scan_int s) [0..<RESERV_INT_SIZE] None")
    case None
    then have "\<forall>j<RESERV_INT_SIZE. \<not> ready s (reservINT s j)" using sc by blast
    then have "\<forall>q. \<not> cand_int s q" by (auto simp: cand_int_def)
    then show ?thesis using none free None by (simp add: issue_int_def)
  next
    case (Some k)
    with sc have kp: "k < RESERV_INT_SIZE" "ready s (reservINT s k)"
      and mn: "\<forall>j<RESERV_INT_SIZE. ready s (reservINT s j) \<longrightarrow>
           index (instrs s (the (reservINT s k))) \<le> index (instrs s (the (reservINT s j)))"
      by blast+
    from ready_Some[OF kp(2)] obtain w where w: "reservINT s k = Some w" by blast
    have c: "cand_int s w" using kp w by (auto simp: cand_int_def)
    have "\<forall>q. cand_int s q \<longrightarrow> index (instrs s w) \<le> index (instrs s q)"
      using mn w by (fastforce simp: cand_int_def)
    then show ?thesis using pick[of w] free c Some w by (simp add: issue_int_def)
  qed
qed

lemma issue_fp_select:
  obtains (busy) "fuFP s i \<noteq> None" "issue_fp c i s = s"
  | (none) "fuFP s i = None" "\<forall>q. \<not> cand_fp s q" "issue_fp c i s = s"
  | (pick) w where "fuFP s i = None" "cand_fp s w"
      "\<forall>q. cand_fp s q \<longrightarrow> tom_dispatch_cycle (instrs s w) \<le> tom_dispatch_cycle (instrs s q)"
      "issue_fp c i s =
         s\<lparr>instrs := (instrs s)(w := (instrs s w)\<lparr>tom_execute_cycle := c\<rparr>),
           fuFP := (fuFP s)(i := Some w)\<rparr>"
proof (cases "fuFP s i = None")
  case False
  then have "issue_fp c i s = s" by (auto simp: issue_fp_def)
  then show ?thesis using busy False by blast
next
  case free: True
  note sc = scan_fp_fold[of s RESERV_FP_SIZE]
  show ?thesis
  proof (cases "fold (scan_fp s) [0..<RESERV_FP_SIZE] None")
    case None
    then have "\<forall>j<RESERV_FP_SIZE. \<not> ready s (reservFP s j)" using sc by blast
    then have "\<forall>q. \<not> cand_fp s q" by (auto simp: cand_fp_def)
    then show ?thesis using none free None by (simp add: issue_fp_def)
  next
    case (Some k)
    with sc have kp: "k < RESERV_FP_SIZE" "ready s (reservFP s k)"
      and mn: "\<forall>j<RESERV_FP_SIZE. ready s (reservFP s j) \<longrightarrow>
           tom_dispatch_cycle (instrs s (the (reservFP s k)))
             \<le> tom_dispatch_cycle (instrs s (the (reservFP s j)))"
      by blast+
    from ready_Some[OF kp(2)] obtain w where w: "reservFP s k = Some w" by blast
    have c: "cand_fp s w" using kp w by (auto simp: cand_fp_def)
    have "\<forall>q. cand_fp s q \<longrightarrow> tom_dispatch_cycle (instrs s w) \<le> tom_dispatch_cycle (instrs s q)"
      using mn w by (fastforce simp: cand_fp_def)
    then show ?thesis using pick[of w] free c Some w by (simp add: issue_fp_def)
  qed
qed

text \<open>The effect of one step on the candidates, at a cycle that is not 0.\<close>

lemma cand_int_started:
  assumes "c \<noteq> 0"
  shows "cand_int (s\<lparr>instrs := (instrs s)(w := (instrs s w)\<lparr>tom_execute_cycle := c\<rparr>),
                    fuINT := f\<rparr>) q \<longleftrightarrow> cand_int s q \<and> q \<noteq> w"
  using assms by (auto simp: cand_int_def ready_def)

lemma cand_fp_started:
  assumes "c \<noteq> 0"
  shows "cand_fp (s\<lparr>instrs := (instrs s)(w := (instrs s w)\<lparr>tom_execute_cycle := c\<rparr>),
                    fuINT := f\<rparr>) q \<longleftrightarrow> cand_fp s q \<and> q \<noteq> w"
  using assms by (auto simp: cand_fp_def ready_def)

lemma issue_int_step:
  assumes c: "c \<noteq> 0"
  obtains wo where
    "case wo of None \<Rightarrow> fuINT s i \<noteq> None \<or> (\<forall>q. \<not> cand_int s q)
      | Some w \<Rightarrow> fuINT s i = None \<and> cand_int s w \<and>
          (\<forall>q. cand_int s q \<longrightarrow> index (instrs s w) \<le> index (instrs s q))"
    "fuINT (issue_int c i s) = (case wo of None \<Rightarrow> fuINT s | Some w \<Rightarrow> (fuINT s)(i := Some w))"
    "fuFP (issue_int c i s) = fuFP s" "reservINT (issue_int c i s) = reservINT s"
    "reservFP (issue_int c i s) = reservFP s"
    "\<And>q. cand_int (issue_int c i s) q \<longleftrightarrow> cand_int s q \<and> Some q \<noteq> wo"
    "\<And>q. cand_fp (issue_int c i s) q \<longleftrightarrow> cand_fp s q \<and> Some q \<noteq> wo"
    "\<And>q. index (instrs (issue_int c i s) q) = index (instrs s q)"
    "\<And>q. tom_dispatch_cycle (instrs (issue_int c i s) q) = tom_dispatch_cycle (instrs s q)"
    "\<And>q. tom_execute_cycle (instrs (issue_int c i s) q)
          = (if Some q = wo then c else tom_execute_cycle (instrs s q))"
proof (rule issue_int_select[where s=s and i=i and c=c], goal_cases)
  case busy: 1
  show ?thesis by (rule that[of None]) (simp_all add: busy)
next
  case none: 2
  show ?thesis by (rule that[of None]) (simp_all add: none)
next
  case pick: (3 w)
  show ?thesis
    by (rule that[of "Some w"]) (use pick c in \<open>auto simp: cand_int_def cand_fp_def ready_def\<close>)
qed

lemma issue_fp_step:
  assumes c: "c \<noteq> 0"
  obtains wo where
    "case wo of None \<Rightarrow> fuFP s i \<noteq> None \<or> (\<forall>q. \<not> cand_fp s q)
      | Some w \<Rightarrow> fuFP s i = None \<and> cand_fp s w \<and>
          (\<forall>q. cand_fp s q \<longrightarrow> tom_dispatch_cycle (instrs s w) \<le> tom_dispatch_cycle (instrs s q))"
    "fuFP (issue_fp c i s) = (case wo of None \<Rightarrow> fuFP s | Some w \<Rightarrow> (fuFP s)(i := Some w))"
    "fuINT (issue_fp c i s) = fuINT s" "reservINT (issue_fp c i s) = reservINT s"
    "reservFP (issue_fp c i s) = reservFP s"
    "\<And>q. tom_execute_cycle (instrs (issue_fp c i s) q)
          = (if Some q = wo then c else tom_execute_cycle (instrs s q))"
proof (rule issue_fp_select[where s=s and i=i and c=c], goal_cases)
  case busy: 1
  show ?thesis by (rule that[of None]) (simp_all add: busy)
next
  case none: 2
  show ?thesis by (rule that[of None]) (simp_all add: none)
next
  case pick: (3 w)
  show ?thesis
    by (rule that[of "Some w"]) (use pick c in \<open>auto simp: cand_fp_def ready_def\<close>)
qed

lemma cand_classes:
  assumes "slots_ok s" "cand_int s w" "cand_fp s q"
  shows "q \<noteq> w"
proof
  assume "q = w"
  then have "w \<in> occ RESERV_INT_SIZE (reservINT s)" "w \<in> occ RESERV_FP_SIZE (reservFP s)"
    using assms(2,3) by (auto simp: cand_int_def cand_fp_def occ_def)
  then show False using assms(1) unfolding slots_ok_def by blast
qed

lemma issue_To_execute_choice:
  assumes c: "c \<noteq> 0" and ok: "slots_ok s"
  shows "\<forall>i<FU_INT_SIZE. int_choice c s (issue_To_execute c s) i"
    and "\<forall>i<FU_FP_SIZE. fp_choice c s (issue_To_execute c s) i"
    and "reservINT (issue_To_execute c s) = reservINT s"
    and "reservFP (issue_To_execute c s) = reservFP s"
proof -
  define s1 where "s1 = issue_int c 0 s"
  define s2 where "s2 = issue_int c (Suc 0) s1"
  define s3 where "s3 = issue_fp c 0 s2"
  have unf: "issue_To_execute c s = s3"
    by (simp add: issue_To_execute_def FU_INT_SIZE_def FU_FP_SIZE_def upt_2 s1_def s2_def s3_def)
  obtain w1 where a:
    "case w1 of None \<Rightarrow> fuINT s 0 \<noteq> None \<or> (\<forall>q. \<not> cand_int s q)
      | Some w \<Rightarrow> fuINT s 0 = None \<and> cand_int s w \<and>
          (\<forall>q. cand_int s q \<longrightarrow> index (instrs s w) \<le> index (instrs s q))"
    "fuINT s1 = (case w1 of None \<Rightarrow> fuINT s | Some w \<Rightarrow> (fuINT s)(0 := Some w))"
    "fuFP s1 = fuFP s" "reservINT s1 = reservINT s" "reservFP s1 = reservFP s"
    "\<And>q. cand_int s1 q \<longleftrightarrow> cand_int s q \<and> Some q \<noteq> w1"
    "\<And>q. cand_fp s1 q \<longleftrightarrow> cand_fp s q \<and> Some q \<noteq> w1"
    "\<And>q. index (instrs s1 q) = index (instrs s q)"
    "\<And>q. tom_dispatch_cycle (instrs s1 q) = tom_dispatch_cycle (instrs s q)"
    "\<And>q. tom_execute_cycle (instrs s1 q) = (if Some q = w1 then c else tom_execute_cycle (instrs s q))"
    unfolding s1_def by (rule issue_int_step[OF c, of s 0]) blast
  obtain w2 where b:
    "case w2 of None \<Rightarrow> fuINT s1 (Suc 0) \<noteq> None \<or> (\<forall>q. \<not> cand_int s1 q)
      | Some w \<Rightarrow> fuINT s1 (Suc 0) = None \<and> cand_int s1 w \<and>
          (\<forall>q. cand_int s1 q \<longrightarrow> index (instrs s1 w) \<le> index (instrs s1 q))"
    "fuINT s2 = (case w2 of None \<Rightarrow> fuINT s1 | Some w \<Rightarrow> (fuINT s1)(Suc 0 := Some w))"
    "fuFP s2 = fuFP s1" "reservINT s2 = reservINT s1" "reservFP s2 = reservFP s1"
    "\<And>q. cand_int s2 q \<longleftrightarrow> cand_int s1 q \<and> Some q \<noteq> w2"
    "\<And>q. cand_fp s2 q \<longleftrightarrow> cand_fp s1 q \<and> Some q \<noteq> w2"
    "\<And>q. index (instrs s2 q) = index (instrs s1 q)"
    "\<And>q. tom_dispatch_cycle (instrs s2 q) = tom_dispatch_cycle (instrs s1 q)"
    "\<And>q. tom_execute_cycle (instrs s2 q) = (if Some q = w2 then c else tom_execute_cycle (instrs s1 q))"
    unfolding s2_def by (rule issue_int_step[OF c, of s1 "Suc 0"]) blast
  obtain w3 where d:
    "case w3 of None \<Rightarrow> fuFP s2 0 \<noteq> None \<or> (\<forall>q. \<not> cand_fp s2 q)
      | Some w \<Rightarrow> fuFP s2 0 = None \<and> cand_fp s2 w \<and>
          (\<forall>q. cand_fp s2 q \<longrightarrow> tom_dispatch_cycle (instrs s2 w) \<le> tom_dispatch_cycle (instrs s2 q))"
    "fuFP s3 = (case w3 of None \<Rightarrow> fuFP s2 | Some w \<Rightarrow> (fuFP s2)(0 := Some w))"
    "fuINT s3 = fuINT s2" "reservINT s3 = reservINT s2"
    "reservFP s3 = reservFP s2"
    "\<And>q. tom_execute_cycle (instrs s3 q) = (if Some q = w3 then c else tom_execute_cycle (instrs s2 q))"
    unfolding s3_def by (rule issue_fp_step[OF c, of s2 0]) blast
  show "reservINT (issue_To_execute c s) = reservINT s" "reservFP (issue_To_execute c s) = reservFP s"
    unfolding unf using a(4,5) b(4,5) d(4,5) by simp_all
  have f0: "fuINT s3 0 = (case w1 of None \<Rightarrow> fuINT s 0 | Some w \<Rightarrow> Some w)"
    unfolding d(3) b(2) a(2) by (cases w1; cases w2) simp_all
  have f1: "fuINT s3 (Suc 0) = (case w2 of None \<Rightarrow> fuINT s (Suc 0) | Some w \<Rightarrow> Some w)"
    unfolding d(3) b(2) a(2) by (cases w1; cases w2) simp_all
  have s11: "fuINT s1 (Suc 0) = fuINT s (Suc 0)"
    unfolding a(2) by (cases w1) simp_all
  have ff: "fuFP s3 0 = (case w3 of None \<Rightarrow> fuFP s 0 | Some w \<Rightarrow> Some w)"
    unfolding d(2) b(3) a(3) by (cases w3) simp_all
  have ex: "\<And>q. Some q = w1 \<or> Some q = w2 \<or> Some q = w3 \<Longrightarrow> tom_execute_cycle (instrs s3 q) = c"
    unfolding d(6) b(10) a(10) by auto
  have cf: "\<And>q. cand_fp s2 q \<longleftrightarrow> cand_fp s q"
  proof -
    fix q
    have "cand_fp s q \<Longrightarrow> Some q \<noteq> w1"
      using a(1) cand_classes[OF ok, of q q] by (cases w1) auto
    moreover have "cand_fp s q \<Longrightarrow> Some q \<noteq> w2"
      using b(1) a(6) cand_classes[OF ok, of q q] by (cases w2) auto
    ultimately show "cand_fp s2 q \<longleftrightarrow> cand_fp s q"
      unfolding b(7) a(7) by blast
  qed
  have t1: "\<And>q. taken_int s s3 (Suc 0) q \<longleftrightarrow> w1 = Some q"
    unfolding taken_int_def using f0 a(1) by (cases w1) auto
  have i0: "int_choice c s s3 0"
    unfolding int_choice_def taken_int_def f0
    using a(1) ex by (cases w1; cases "fuINT s 0") auto
  have i1: "int_choice c s s3 (Suc 0)"
    unfolding int_choice_def t1 f1
    using b(1) ex unfolding s11 a(6) a(8)
    by (cases w2; cases "fuINT s (Suc 0)") auto
  show "\<forall>i<FU_INT_SIZE. int_choice c s (issue_To_execute c s) i"
    unfolding unf using i0 i1 by (simp add: FU_INT_SIZE_def all_less_2)
  have "fp_choice c s s3 0"
    unfolding fp_choice_def taken_fp_def ff
    using d(1) ex unfolding cf b(3) a(3) b(9) a(9)
    by (cases w3; cases "fuFP s 0") auto
  then show "\<forall>i<FU_FP_SIZE. fp_choice c s (issue_To_execute c s) i"
    unfolding unf by (simp add: FU_FP_SIZE_def)
qed

text \<open>
  Claim C5. In a run, the pass of \<^verbatim>\<open>issue_To_execute\<close> over the functional units
  leaves the stations as they are, keeps every unit in use, and gives each free integer
  unit, in the order of the units, a candidate (occupied station slot, no execution-start
  cycle, three empty await-slots) that no earlier unit of the pass has taken and whose
  program index is least among those; each free floating-point unit receives such a
  candidate whose dispatch cycle is least among them. A free unit stays free only when no
  candidate is left. The state \<open>s\<close> is the one the third stage of cycle \<open>k + 1\<close> starts
  from.
\<close>

theorem issue_To_execute_selection:
  assumes "wf_ops m tr" "run_stages m tr (5 * k + 2) = Inr s"
  shows "run_stages m tr (5 * k + 3) = Inr (issue_To_execute (1 + int k) s) \<and>
         (\<forall>i<FU_INT_SIZE. int_choice (1 + int k) s (issue_To_execute (1 + int k) s) i) \<and>
         (\<forall>i<FU_FP_SIZE. fp_choice (1 + int k) s (issue_To_execute (1 + int k) s) i) \<and>
         reservINT (issue_To_execute (1 + int k) s) = reservINT s \<and>
         reservFP (issue_To_execute (1 + int k) s) = reservFP s"
proof -
  have ok: "slots_ok s" using invD(1)[OF inv_run_stages[OF assms]] .
  have c: "1 + int k \<noteq> 0" by simp
  have "run_stages m tr (5 * k + Suc 2)
      = bind_err (run_stages m tr (5 * k + 2)) (stage m 2 (1 + int k))"
    by (rule run_stages_at) simp
  also have "\<dots> = Inr (issue_To_execute (1 + int k) s)"
    unfolding assms(2) by (simp add: bind_err_def stage_def)
  finally have "run_stages m tr (5 * k + Suc 2) = Inr (issue_To_execute (1 + int k) s)" .
  moreover have "5 * k + Suc 2 = 5 * k + 3" by simp
  ultimately have "run_stages m tr (5 * k + 3) = Inr (issue_To_execute (1 + int k) s)"
    by (simp only:)
  then show ?thesis using issue_To_execute_choice[OF c ok] by simp
qed

lemma ex_four_wf: "wf_ops (ex_machine n) ex_four"
  by (simp add: wf_ops_def ex_four_def mk_instr_def USES_INT_FU_def USES_FP_FU_def
        IS_FCOMP_def IS_ICOMP_def IS_LOAD_def IS_STORE_def)

lemma ex_fcomp_wf: "wf_ops (ex_machine n) ex_fcomp"
  by (simp add: wf_ops_def ex_fcomp_def mk_instr_def USES_INT_FU_def USES_FP_FU_def
        IS_FCOMP_def IS_ICOMP_def IS_LOAD_def IS_STORE_def)

lemma ex_four_run32:
  "(case run_stages (ex_machine 4) ex_four 32 of Inl e \<Rightarrow> False
    | Inr s \<Rightarrow> fuINT s 0 = None \<and> reservINT s 2 = Some 3 \<and> reservINT s 3 = Some 4 \<and>
        ready s (Some 3) \<and> ready s (Some 4) \<and> index (instrs s 3) = 3 \<and>
        index (instrs s 4) = 4 \<and> fuINT (issue_To_execute 7 s) 0 = Some 3)"
  by code_simp

lemma ex_fcomp_run37:
  "(case run_stages (ex_machine 3) ex_fcomp 37 of Inl e \<Rightarrow> False
    | Inr s \<Rightarrow> fuFP s 0 = None \<and> reservFP s 0 = Some 2 \<and> reservFP s 1 = Some 3 \<and>
        ready s (Some 3) \<and> ready s (Some 2) \<and> tom_dispatch_cycle (instrs s 2) = 2 \<and>
        tom_dispatch_cycle (instrs s 3) = 3 \<and> fuFP (issue_To_execute 8 s) 0 = Some 2)"
  by code_simp

theorem issue_To_execute_selection_witness:
  "(case run_stages (ex_machine 4) ex_four 32 of Inl e \<Rightarrow> False
    | Inr s \<Rightarrow> fuINT s 0 = None \<and> cand_int s 3 \<and> cand_int s 4 \<and>
        fuINT (issue_To_execute 7 s) 0 = Some 3 \<and>
        int_choice 7 s (issue_To_execute 7 s) 0 \<and>
        run_stages (ex_machine 4) ex_four 33 = Inr (issue_To_execute 7 s)) \<and>
   (case run_stages (ex_machine 3) ex_fcomp 37 of Inl e \<Rightarrow> False
    | Inr s \<Rightarrow> fuFP s 0 = None \<and> cand_fp s 3 \<and> cand_fp s 2 \<and>
        fuFP (issue_To_execute 8 s) 0 = Some 2 \<and>
        fp_choice 8 s (issue_To_execute 8 s) 0 \<and>
        run_stages (ex_machine 3) ex_fcomp 38 = Inr (issue_To_execute 8 s))"
proof -
  obtain s where s: "run_stages (ex_machine 4) ex_four 32 = Inr s"
    and f: "fuINT s 0 = None" "reservINT s 2 = Some 3" "reservINT s 3 = Some 4"
       "ready s (Some 3)" "ready s (Some 4)" "fuINT (issue_To_execute 7 s) 0 = Some 3"
    using ex_four_run32 by (auto split: sum.splits)
  have cd: "cand_int s 3" "cand_int s 4"
    using f unfolding cand_int_def RESERV_INT_SIZE_def by (auto intro: exI[of _ 2] exI[of _ 3])
  have s': "run_stages (ex_machine 4) ex_four (5 * 6 + 2) = Inr s" using s by simp
  note t = issue_To_execute_selection[OF ex_four_wf s']
  have 1: "run_stages (ex_machine 4) ex_four 33 = Inr (issue_To_execute 7 s)"
      "int_choice 7 s (issue_To_execute 7 s) 0"
    using t by (simp_all add: FU_INT_SIZE_def)
  obtain u where u: "run_stages (ex_machine 3) ex_fcomp 37 = Inr u"
    and g: "fuFP u 0 = None" "reservFP u 0 = Some 2" "reservFP u 1 = Some 3"
       "ready u (Some 3)" "ready u (Some 2)" "fuFP (issue_To_execute 8 u) 0 = Some 2"
    using ex_fcomp_run37 by (auto split: sum.splits)
  have ce: "cand_fp u 3" "cand_fp u 2"
    using g unfolding cand_fp_def RESERV_FP_SIZE_def by (auto intro: exI[of _ 1] exI[of _ 0])
  have u': "run_stages (ex_machine 3) ex_fcomp (5 * 7 + 2) = Inr u" using u by simp
  note t2 = issue_To_execute_selection[OF ex_fcomp_wf u']
  have 2: "run_stages (ex_machine 3) ex_fcomp 38 = Inr (issue_To_execute 8 u)"
      "fp_choice 8 u (issue_To_execute 8 u) 0"
    using t2 by (simp_all add: FU_FP_SIZE_def)
  show ?thesis using s f cd 1 u g ce 2 by simp
qed

end
